(* ===== verification/Prelude.thy ===== *)
theory Prelude
  imports Main "HOL-Library.Word"
begin

text \<open>
  Shared vocabulary of the development: the C integer types of \<open>stdint.h\<close> as machine words,
  the numeric constants of \<open>constants.h\<close>, the collections of rewrite rules the component
  proofs draw on, and generic lemmas on words and lists.
\<close>

unbundle bit_operations_syntax

section \<open>Integer types\<close>

text \<open>\<open>uint8_t\<close>, \<open>uint16_t\<close>, \<open>uint32_t\<close> of \<open>stdint.h\<close>; pointers and
  \<open>size_t\<close> are 32 bits wide on the target (\<open>gcc -m32\<close>).\<close>

type_synonym u8 = "8 word"
type_synonym u16 = "16 word"
type_synonym u32 = "32 word"

section \<open>Constants\<close>

abbreviation (input) FOUR_KB :: u32 where "FOUR_KB \<equiv> 0x1000"
abbreviation (input) ONE_MB :: u32 where "ONE_MB \<equiv> 0x100000"
abbreviation (input) FOUR_MB :: u32 where "FOUR_MB \<equiv> 0x400000"
abbreviation (input) KERNEL_START_VADDR :: u32 where "KERNEL_START_VADDR \<equiv> 0xC0000000"
abbreviation (input) KERNEL_PDT_IDX :: u32 where "KERNEL_PDT_IDX \<equiv> 768"
abbreviation (input) SYSCALL_INT_IDX :: u32 where "SYSCALL_INT_IDX \<equiv> 0xAE"
abbreviation (input) SEGSEL_KERNEL_CS :: u32 where "SEGSEL_KERNEL_CS \<equiv> 0x08"
abbreviation (input) SEGSEL_KERNEL_DS :: u32 where "SEGSEL_KERNEL_DS \<equiv> 0x10"
abbreviation (input) SEGSEL_USER_SPACE_CS :: u32 where "SEGSEL_USER_SPACE_CS \<equiv> 0x18"
abbreviation (input) SEGSEL_USER_SPACE_DS :: u32 where "SEGSEL_USER_SPACE_DS \<equiv> 0x20"
abbreviation (input) REG_EFLAGS_DEFAULT :: u32 where "REG_EFLAGS_DEFAULT \<equiv> 0x202"

section \<open>Rule collections\<close>

named_theorems word_bounds "unsigned readings of word arithmetic without overflow"
named_theorems frame_simps "what an operation leaves unchanged"

section \<open>Words\<close>

lemma unat_add_nowrap [word_bounds]:
  "unat a + unat b < 2 ^ LENGTH('a) \<Longrightarrow> unat (a + b) = unat a + unat b"
  for a b :: "'a::len word"
  by (simp add: unat_add_lem)

lemma unat_sub_nowrap [word_bounds]:
  "unat b \<le> unat a \<Longrightarrow> unat (a - b) = unat a - unat b"
  for a b :: "'a::len word"
  by (simp add: unat_sub word_le_nat_alt)

lemma unat_mult_nowrap [word_bounds]:
  "unat a * unat b < 2 ^ LENGTH('a) \<Longrightarrow> unat (a * b) = unat a * unat b"
  for a b :: "'a::len word"
  by (simp add: unat_mult_lem)

lemma unat_of_nat_small [word_bounds]:
  "n < 2 ^ LENGTH('a) \<Longrightarrow> unat (of_nat n :: 'a::len word) = n"
  by (simp add: unat_of_nat)

lemma unat_lt_u32: "unat (a :: u32) < 4294967296"
  using unsigned_less [of a] by simp

lemma unat_inc [word_bounds]:
  "a < b \<Longrightarrow> unat (a + 1) = Suc (unat a)" for a b :: "'a::len word"
proof -
  assume "a < b"
  then have "a + 1 \<noteq> 0"
    by (metis add_diff_cancel_right' add_cancel_right_left diff_0 le_less_trans less_irrefl
        word_order.extremum)
  then show ?thesis by (metis Suc_eq_plus1 Suc_pred' add_diff_cancel_right' unat_gt_0 unat_minus_one)
qed

text \<open>The measure of a counting loop \<open>for (; i < n; ++i)\<close> over machine words.\<close>

lemma loop_measure:
  "i < n \<Longrightarrow> unat n = k \<Longrightarrow> k - unat (i + 1) < k - unat i" for i n :: "'a::len word"
  by (auto simp: unat_inc word_less_nat_alt)

end
