(* ===== verification/Kmath.thy ===== *)
theory Kmath
  imports Prelude
begin

text \<open>
  The arithmetic helpers of \<open>math.c\<close>, \<open>mem.c\<close> and \<open>common.h\<close>, on 32-bit words.
  Division and remainder by zero trap on the machine; every call in the kernel passes a
  constant divisor (8, 32, 1024, 4096 or 4 MB), and the lemmas assume a divisor that is not 0.
\<close>

section \<open>math.c\<close>

definition div_ceil :: "u32 \<Rightarrow> u32 \<Rightarrow> u32" where
  "div_ceil num den = (num - 1) div den + 1"

definition minu :: "u32 \<Rightarrow> u32 \<Rightarrow> u32" where
  "minu a b = (if a < b then a else b)"

definition maxu :: "u32 \<Rightarrow> u32 \<Rightarrow> u32" where
  "maxu a b = (if a > b then a else b)"

section \<open>mem.c\<close>

definition align_up :: "u32 \<Rightarrow> u32 \<Rightarrow> u32" where
  "align_up n a = (let m = n mod a in if m = 0 then n else n + (a - m))"

definition align_down :: "u32 \<Rightarrow> u32 \<Rightarrow> u32" where
  "align_down n a = n - n mod a"

section \<open>common.h\<close>

definition NEXT_ADDR :: "u32 \<Rightarrow> u32" where
  "NEXT_ADDR addr = addr + (4 - addr mod 4)"

definition PHYSICAL_TO_VIRTUAL :: "u32 \<Rightarrow> u32" where
  "PHYSICAL_TO_VIRTUAL addr = addr + KERNEL_START_VADDR"

section \<open>What they compute\<close>

lemma minu_min: "minu a b = min a b"
  by (auto simp: minu_def min_def not_less)

lemma maxu_max: "maxu a b = max a b"
  by (auto simp: maxu_def max_def not_less)

lemma unat_minu [word_bounds]: "unat (minu a b) = min (unat a) (unat b)"
  by (simp add: minu_def min_def word_less_nat_alt)

lemma unat_maxu [word_bounds]: "unat (maxu a b) = max (unat a) (unat b)"
  by (simp add: maxu_def max_def word_less_nat_alt)

lemma nat_ceil_div: "0 < n \<Longrightarrow> 0 < d \<Longrightarrow> Suc ((n - 1) div d) = (n + d - 1) div d" for n d :: nat
proof -
  assume "0 < n" "0 < d"
  then have "n + d - 1 = (n - 1) + d" by linarith
  then have "(n + d - 1) div d = ((n - 1) + d) div d" by (simp only:)
  also have "\<dots> = (n - 1) div d + 1" using \<open>0 < d\<close> by (simp only: div_add_self2)
  finally show ?thesis by (simp only: Suc_eq_plus1)
qed

lemma unat_div_ceil [word_bounds]:
  assumes "num \<noteq> 0" and "den \<noteq> 0"
  shows "unat (div_ceil num den) = (unat num + unat den - 1) div unat den"
proof -
  have pos: "0 < unat num" "0 < unat den"
    using assms by (simp_all add: unat_gt_0)
  let ?q = "(num - 1) div den"
  have q: "unat ?q = (unat num - 1) div unat den"
    using assms by (simp add: unat_div unat_minus_one)
  have "(unat num - 1) div unat den \<le> unat num - 1" by (rule div_le_dividend)
  moreover have "unat num - 1 + 1 < 4294967296"
    using pos unat_lt_u32 [of num] by linarith
  ultimately have "unat ?q + 1 < 4294967296" using q by linarith
  then have "unat ?q + unat (1 :: u32) < 2 ^ LENGTH(32)" by simp
  then have "unat (?q + 1) = unat ?q + 1"
    using unat_add_nowrap by fastforce
  with q pos show ?thesis
    using nat_ceil_div [OF pos] by (simp add: div_ceil_def)
qed

text \<open>Zero is outside the domain on which \<open>div_ceil\<close> is a ceiling: the numerator wraps.\<close>

lemma div_ceil_zero: "div_ceil 0 den = (- 1) div den + 1"
  by (simp add: div_ceil_def)

lemma unat_align_down [word_bounds]:
  "unat (align_down n a) = unat n - unat n mod unat a"
proof -
  have "unat (n mod a) \<le> unat n"
    by (simp add: unat_mod)
  then have "unat (n - n mod a) = unat n - unat (n mod a)"
    by (rule unat_sub_nowrap)
  then show ?thesis by (simp add: align_down_def unat_mod)
qed

lemma align_up_aligned: "unat a dvd unat n \<Longrightarrow> align_up n a = n"
  by (simp add: align_up_def Let_def unat_eq_zero [symmetric] unat_mod dvd_eq_mod_eq_0)

lemma unat_align_up [word_bounds]:
  assumes a: "a \<noteq> 0" and fits: "unat n + (unat a - unat n mod unat a) < 2 ^ 32"
    and m: "unat n mod unat a \<noteq> 0"
  shows "unat (align_up n a) = unat n + (unat a - unat n mod unat a)"
proof -
  have pos: "0 < unat a" using a by (simp add: unat_gt_0)
  have nz: "n mod a \<noteq> 0"
    using m by (metis unat_0 unat_mod)
  have "unat (n mod a) \<le> unat a"
    using pos by (simp add: unat_mod less_imp_le)
  then have s: "unat (a - n mod a) = unat a - unat n mod unat a"
    by (simp add: unat_sub_nowrap unat_mod)
  have "unat n + unat (a - n mod a) < 2 ^ LENGTH(32)"
    using fits s by simp
  then show ?thesis
    using nz s by (simp add: align_up_def Let_def unat_add_nowrap)
qed

lemma align_up_bracket:
  assumes "a \<noteq> 0" and "unat n + unat a \<le> 2 ^ 32"
  shows "unat a dvd unat (align_up n a)" and "unat n \<le> unat (align_up n a)"
    and "unat (align_up n a) < unat n + unat a"
proof -
  have pos: "0 < unat a" using assms(1) by (simp add: unat_gt_0)
  have "unat a dvd unat (align_up n a) \<and> unat n \<le> unat (align_up n a) \<and>
        unat (align_up n a) < unat n + unat a"
  proof (cases "unat n mod unat a = 0")
    case True
    with pos show ?thesis by (simp add: align_up_aligned dvd_eq_mod_eq_0)
  next
    case False
    have lt: "unat n mod unat a < unat a" using pos by simp
    have fits: "unat n + (unat a - unat n mod unat a) < 2 ^ 32"
      using False assms(2) lt by linarith
    have up: "unat (align_up n a) = unat n + (unat a - unat n mod unat a)"
      by (rule unat_align_up [OF assms(1) fits False])
    have "unat n + (unat a - unat n mod unat a) = unat n div unat a * unat a + unat a"
      using lt div_mult_mod_eq [of "unat n" "unat a"] by linarith
    then have "unat a dvd unat (align_up n a)" using up by simp
    then show ?thesis using up False lt by linarith
  qed
  then show "unat a dvd unat (align_up n a)" "unat n \<le> unat (align_up n a)"
    "unat (align_up n a) < unat n + unat a" by simp_all
qed

lemma align_down_bracket:
  assumes "a \<noteq> 0"
  shows "unat a dvd unat (align_down n a)" and "unat (align_down n a) \<le> unat n"
    and "unat n < unat (align_down n a) + unat a"
proof -
  have "unat n mod unat a < unat a" using assms by (simp add: unat_gt_0)
  then show "unat n < unat (align_down n a) + unat a"
    using unat_align_down [of n a] by linarith
qed (simp_all add: unat_align_down minus_mod_eq_mult_div)

text \<open>The page-size instance that the memory managers use.\<close>

lemma align_up_page:
  assumes "n \<le> 0xFFFFF000"
  shows "4096 dvd unat (align_up n 4096)" and "unat n \<le> unat (align_up n 4096)"
    and "unat (align_up n 4096) < unat n + 4096"
proof -
  have "unat n + unat (4096::u32) \<le> 2 ^ 32" using assms by (simp add: word_le_nat_alt)
  from align_up_bracket [OF _ this]
  show "4096 dvd unat (align_up n 4096)" "unat n \<le> unat (align_up n 4096)"
    "unat (align_up n 4096) < unat n + 4096" by simp_all
qed

text \<open>\<open>align_up\<close> rounds up to the next multiple of the alignment and \<open>align_down\<close> rounds
  down to the previous one, whenever the rounded-up value is still a 32-bit number: the results
  are multiples, they bracket the argument, and each is the closest multiple on its side.\<close>

lemma align_up_down_correct:
  assumes "a \<noteq> 0" and "unat n + unat a \<le> 2 ^ 32"
  shows "unat a dvd unat (align_up n a) \<and> unat n \<le> unat (align_up n a) \<and>
         unat (align_up n a) < unat n + unat a \<and>
         unat a dvd unat (align_down n a) \<and> unat (align_down n a) \<le> unat n \<and>
         unat n < unat (align_down n a) + unat a"
  using align_up_bracket [OF assms] align_down_bracket [OF assms(1)] by blast

text \<open>\<open>div_ceil\<close> is the ceiling of the quotient for every positive numerator, with no
  overflow on the way; for the numerator 0 it is not 0 but the quotient of the wrapped
  numerator (so \<open>div_ceil 0 4096\<close> is 2 to the 20).\<close>

lemma div_ceil_ceiling:
  "(num \<noteq> 0 \<and> den \<noteq> 0 \<longrightarrow>
      unat (div_ceil num den) = (unat num + unat den - 1) div unat den) \<and>
   div_ceil 0 4096 = 0x100000"
  using unat_div_ceil by (simp add: div_ceil_def)

end
