(* ===== verification/Cmem.thy ===== *)
theory Cmem
  imports Prelude
begin

text \<open>
  The machine's byte-addressed memory as C code sees it: a 32-bit address space of bytes, with
  16- and 32-bit little-endian loads and stores. Addresses wrap around at 2 to the 32, as
  pointer arithmetic does on the target.
\<close>

type_synonym mem = "u32 \<Rightarrow> u8"

definition load16 :: "mem \<Rightarrow> u32 \<Rightarrow> u16" where
  "load16 m a = ucast (m a) OR push_bit 8 (ucast (m (a + 1)))"

definition store16 :: "mem \<Rightarrow> u32 \<Rightarrow> u16 \<Rightarrow> mem" where
  "store16 m a v = m(a := ucast v, a + 1 := ucast (drop_bit 8 v))"

definition load32 :: "mem \<Rightarrow> u32 \<Rightarrow> u32" where
  "load32 m a = ucast (m a) OR push_bit 8 (ucast (m (a + 1))) OR
                push_bit 16 (ucast (m (a + 2))) OR push_bit 24 (ucast (m (a + 3)))"

definition store32 :: "mem \<Rightarrow> u32 \<Rightarrow> u32 \<Rightarrow> mem" where
  "store32 m a v = m(a := ucast v, a + 1 := ucast (drop_bit 8 v),
                     a + 2 := ucast (drop_bit 16 v), a + 3 := ucast (drop_bit 24 v))"

section \<open>Round trips\<close>

lemma add_const_distinct:
  fixes a :: u32
  shows "a + 1 \<noteq> a" "a + 2 \<noteq> a" "a + 3 \<noteq> a" "a + 2 \<noteq> a + 1" "a + 3 \<noteq> a + 1" "a + 3 \<noteq> a + 2"
    "a \<noteq> a + 1" "a \<noteq> a + 2" "a \<noteq> a + 3"
  by simp_all

lemma load16_store16: "load16 (store16 m a v) a = v"
  by (rule bit_word_eqI) (auto simp: load16_def store16_def bit_simps add_const_distinct)

lemma load32_store32: "load32 (store32 m a v) a = v"
proof (rule bit_word_eqI)
  fix n assume "n < LENGTH(32)"
  then consider "n < 8" | "8 \<le> n" "n < 16" | "16 \<le> n" "n < 24" | "24 \<le> n" "n < 32" by fastforce
  then show "bit (load32 (store32 m a v) a) n \<longleftrightarrow> bit v n"
    by cases (auto simp: load32_def store32_def bit_simps add_const_distinct)
qed

text \<open>Bytes that lie at least four apart do not overlap. The distance is taken modulo the
  address space, so the statement needs no assumption that a block does not wrap.\<close>

definition apart32 :: "u32 \<Rightarrow> u32 \<Rightarrow> bool" where
  "apart32 a b \<longleftrightarrow> 4 \<le> b - a \<and> 4 \<le> a - b"

lemma apart32_offsets:
  assumes "apart32 a b" and "i < 4" and "j < 4"
  shows "a + i \<noteq> b + j"
proof
  assume eq: "a + i = b + j"
  show False
  proof (cases "i \<le> j")
    case True
    have "a - b = j - i" using eq by (simp add: algebra_simps)
    moreover have "j - i < 4" using True assms(3) by (meson le_less_trans word_sub_le)
    ultimately show False using assms(1) unfolding apart32_def by (metis not_le)
  next
    case False
    have "b - a = i - j" using eq by (simp add: algebra_simps)
    moreover have "i - j < 4" using False assms(2)
      by (meson le_less_trans less_imp_le not_le word_sub_le)
    ultimately show False using assms(1) unfolding apart32_def by (metis not_le)
  qed
qed

lemma load32_store32_other:
  assumes "apart32 a b"
  shows "load32 (store32 m a v) b = load32 m b"
proof -
  have "b + j \<noteq> a + i" if "i \<in> {0, 1, 2, 3}" and "j \<in> {0, 1, 2, 3}" for i j
  proof -
    have "i < 4" "j < 4" using that by auto
    then show ?thesis using apart32_offsets [OF assms, of i j] by metis
  qed
  from this [of 0] this [of 1] this [of 2] this [of 3]
  have "b + j \<noteq> a" "b + j \<noteq> a + 1" "b + j \<noteq> a + 2" "b + j \<noteq> a + 3" if "j \<in> {0, 1, 2, 3}" for j
    using that by (simp_all add: insert_iff)
  from this [of 0] this [of 1] this [of 2] this [of 3] show ?thesis
    by (simp add: load32_def store32_def)
qed

text \<open>Elements of an array of 32-bit words.\<close>

lemma apart32_array:
  fixes i j :: u32
  assumes "i \<noteq> j" and "i < 0x40000000" and "j < 0x40000000"
  shows "apart32 (a + 4 * i) (a + 4 * j)"
proof -
  have ge: "4 \<le> 4 * x" if "x \<noteq> 0" and "unat x < 0x40000000" for x :: u32
  proof -
    have "unat (4 * x) = 4 * unat x"
      using that unat_mult_nowrap [of "4 :: u32" x] by simp
    moreover have "1 \<le> unat x" using that by (simp add: Suc_leI unat_gt_0)
    ultimately show ?thesis by (simp add: word_le_nat_alt)
  qed
  have gem: "4 \<le> - (4 * x)" if "x \<noteq> 0" and "unat x < 0x40000000" for x :: u32
  proof -
    have m: "unat (4 * x) = 4 * unat x"
      using that unat_mult_nowrap [of "4 :: u32" x] by simp
    then have "unat (- (4 * x)) = 2 ^ 32 - 4 * unat x"
      using that unat_sub_if' [of 0 "4 * x"] by (auto simp: unat_gt_0)
    with that show ?thesis by (simp add: word_le_nat_alt)
  qed
  consider "i < j" | "j < i" using assms(1) by fastforce
  then show ?thesis
  proof cases
    case 1
    let ?x = "j - i"
    have x: "?x \<noteq> 0" "unat ?x < 0x40000000"
      using 1 assms by (simp_all add: unat_sub_nowrap word_less_nat_alt)
    have "a + 4 * j - (a + 4 * i) = 4 * ?x" "a + 4 * i - (a + 4 * j) = - (4 * ?x)"
      by (simp_all add: algebra_simps)
    then show ?thesis using ge [OF x] gem [OF x] by (simp add: apart32_def)
  next
    case 2
    let ?x = "i - j"
    have x: "?x \<noteq> 0" "unat ?x < 0x40000000"
      using 2 assms by (simp_all add: unat_sub_nowrap word_less_nat_alt)
    have "a + 4 * i - (a + 4 * j) = 4 * ?x" "a + 4 * j - (a + 4 * i) = - (4 * ?x)"
      by (simp_all add: algebra_simps)
    then show ?thesis using ge [OF x] gem [OF x] by (simp add: apart32_def)
  qed
qed

end
