(* ===== verification/Cstring.thy ===== *)
theory Cstring
  imports Cmem
begin

text \<open>
  The string library (\<open>kernel/string.c\<close>, compiled a second time as \<open>libc/string.c\<close>) on byte
  memory. A loop that walks a string until its terminator may walk forever, so it is a
  \<open>partial_function\<close> with \<open>None\<close> for not returning; the lemmas show that each returns on a
  terminated string. \<open>char\<close> is signed on the target, so \<open><\<close> on characters is the signed order.
\<close>

section \<open>Model\<close>

function memset_loop :: "mem \<Rightarrow> u32 \<Rightarrow> u32 \<Rightarrow> u8 \<Rightarrow> mem" where
  "memset_loop m p e cb = (if p < e then memset_loop (m(p := cb)) (p + 1) e cb else m)"
  by pat_completeness auto
termination
  by (relation "measure (\<lambda>(m, p, e, cb). unat e - unat p)")
     (auto intro: loop_measure)

declare memset_loop.simps [simp del]

text \<open>\<open>memset\<close> and \<open>memcpy\<close> return their first argument, which no caller uses; the model
  returns the memory.\<close>

definition memset :: "mem \<Rightarrow> u32 \<Rightarrow> u32 \<Rightarrow> u32 \<Rightarrow> mem" where
  "memset m s c n = memset_loop m s (s + n) (ucast (c AND 0xFF))"

function memcpy_loop :: "mem \<Rightarrow> u32 \<Rightarrow> u32 \<Rightarrow> u32 \<Rightarrow> u32 \<Rightarrow> mem" where
  "memcpy_loop m to from i n =
     (if i < n then memcpy_loop (m(to := m from)) (to + 1) (from + 1) (i + 1) n else m)"
  by pat_completeness auto
termination
  by (relation "measure (\<lambda>(m, to, from, i, n). unat n - unat i)")
     (auto intro: loop_measure)

declare memcpy_loop.simps [simp del]

definition memcpy :: "mem \<Rightarrow> u32 \<Rightarrow> u32 \<Rightarrow> u32 \<Rightarrow> mem" where
  "memcpy m dest src n = memcpy_loop m dest src 0 n"

partial_function (option) strlen_loop :: "mem \<Rightarrow> u32 \<Rightarrow> u32 \<Rightarrow> u32 option" where
  "strlen_loop m s len = (if m s = 0 then Some len else strlen_loop m (s + 1) (len + 1))"

definition strlen :: "mem \<Rightarrow> u32 \<Rightarrow> u32 option" where
  "strlen m s = strlen_loop m s 0"

definition char_less :: "u8 \<Rightarrow> u8 \<Rightarrow> bool" where
  "char_less a b \<longleftrightarrow> sint a < sint b"

partial_function (option) strcmp_loop :: "mem \<Rightarrow> u32 \<Rightarrow> u32 \<Rightarrow> int option" where
  "strcmp_loop m s1 s2 =
     (if m s1 = 0 then Some 0
      else if m s1 = m s2 then strcmp_loop m (s1 + 1) (s2 + 1)
      else if char_less (m s1) (m s2) then Some (- 1)
      else Some 1)"

definition strcmp :: "mem \<Rightarrow> u32 \<Rightarrow> u32 \<Rightarrow> int option" where
  "strcmp m s1 s2 =
     Option.bind (strlen m s1) (\<lambda>len1.
     Option.bind (strlen m s2) (\<lambda>len2.
       if len1 < len2 then Some (- 1)
       else if len1 > len2 then Some 1
       else strcmp_loop m s1 s2))"

text \<open>The loop of \<open>strncmp\<close> counts \<open>i\<close> but never moves \<open>s1\<close> and \<open>s2\<close>.\<close>

function strncmp_loop :: "mem \<Rightarrow> u32 \<Rightarrow> u32 \<Rightarrow> u32 \<Rightarrow> u32 \<Rightarrow> int" where
  "strncmp_loop m s1 s2 i n =
     (if i < n then
        (if m s1 = m s2 then strncmp_loop m s1 s2 (i + 1) n
         else if m s1 = 0 \<and> m s2 \<noteq> 0 then - 1
         else if m s2 = 0 \<and> m s1 \<noteq> 0 then 1
         else if char_less (m s1) (m s2) then - 1
         else 1)
      else 0)"
  by pat_completeness auto
termination
  by (relation "measure (\<lambda>(m, s1, s2, i, n). unat n - unat i)")
     (auto intro: loop_measure)

declare strncmp_loop.simps [simp del]

definition strncmp :: "mem \<Rightarrow> u32 \<Rightarrow> u32 \<Rightarrow> u32 \<Rightarrow> int" where
  "strncmp m s1 s2 n = strncmp_loop m s1 s2 0 n"

partial_function (option) strchr :: "mem \<Rightarrow> u32 \<Rightarrow> u32 \<Rightarrow> u32 option" where
  "strchr m s c =
     (if m s = 0 then Some 0 else if m s = ucast c then Some s else strchr m (s + 1) c)"

partial_function (option) strcspn_loop :: "mem \<Rightarrow> u32 \<Rightarrow> u32 \<Rightarrow> u32 \<Rightarrow> u32 option" where
  "strcspn_loop m s reject l =
     (if m s = 0 then Some l
      else Option.bind (strchr m reject (scast (m s))) (\<lambda>p.
        if p \<noteq> 0 then Some l else strcspn_loop m (s + 1) reject (l + 1)))"

definition strcspn :: "mem \<Rightarrow> u32 \<Rightarrow> u32 \<Rightarrow> u32 option" where
  "strcspn m s reject = strcspn_loop m s reject 0"

section \<open>Strings in memory and their reference functions\<close>

text \<open>\<open>cstr m a xs\<close>: the bytes \<open>xs\<close>, none of them 0, stand at \<open>a\<close> with a 0 after them.\<close>

fun cstr :: "mem \<Rightarrow> u32 \<Rightarrow> u8 list \<Rightarrow> bool" where
  "cstr m a [] \<longleftrightarrow> m a = 0"
| "cstr m a (x # xs) \<longleftrightarrow> m a = x \<and> x \<noteq> 0 \<and> cstr m (a + 1) xs"

fun chars_cmp :: "u8 list \<Rightarrow> u8 list \<Rightarrow> int" where
  "chars_cmp (x # xs) (y # ys) =
     (if x = y then chars_cmp xs ys else if char_less x y then - 1 else 1)"
| "chars_cmp _ _ = 0"

text \<open>The order of \<open>strcmp\<close>: shorter strings first, then the first differing character.\<close>

definition strcmp_abs :: "u8 list \<Rightarrow> u8 list \<Rightarrow> int" where
  "strcmp_abs xs ys =
     (if length xs < length ys then - 1 else if length xs > length ys then 1 else chars_cmp xs ys)"

definition strcspn_abs :: "u8 list \<Rightarrow> u8 list \<Rightarrow> nat" where
  "strcspn_abs xs reject = length (takeWhile (\<lambda>x. x \<notin> set reject) xs)"

section \<open>memset and memcpy\<close>

lemma memset_loop_eq: "memset_loop m p e cb = (\<lambda>a. if p \<le> a \<and> a < e then cb else m a)"
proof (induction m p e cb rule: memset_loop.induct)
  case (1 m p e cb)
  show ?case
  proof (cases "p < e")
    case True
    have *: "p + 1 \<le> a \<longleftrightarrow> p < a" for a
      using unat_inc [OF True] by (simp add: word_le_nat_alt word_less_nat_alt Suc_le_eq)
    have "memset_loop m p e cb = memset_loop (m(p := cb)) (p + 1) e cb"
      using True by (subst memset_loop.simps) simp
    also have "\<dots> = (\<lambda>a. if p + 1 \<le> a \<and> a < e then cb else (m(p := cb)) a)"
      by (rule 1 [OF True])
    also have "\<dots> = (\<lambda>a. if p \<le> a \<and> a < e then cb else m a)"
      using True by (auto simp: * fun_eq_iff)
    finally show ?thesis .
  next
    case False
    then show ?thesis by (subst memset_loop.simps) (auto simp: fun_eq_iff)
  qed
qed

lemma ucast_low_byte: "ucast (c AND 0xFF) = (ucast c :: u8)" for c :: u32
proof -
  have "c AND 0xFF = take_bit 8 c" by (simp add: take_bit_eq_mask mask_eq_exp_minus_1)
  then show ?thesis by (simp only:) (rule bit_word_eqI, simp add: bit_simps)
qed

lemma memset_eq: "memset m s c n = (\<lambda>a. if s \<le> a \<and> a < s + n then ucast c else m a)"
  by (simp add: memset_def memset_loop_eq ucast_low_byte)

lemma pred_less_iff: "x \<noteq> 0 \<Longrightarrow> y \<noteq> 0 \<Longrightarrow> x - 1 < y - 1 \<longleftrightarrow> x < y" for x y :: u32
  using unat_gt_0 [of x] unat_gt_0 [of y] by (simp add: word_less_nat_alt unat_minus_one) linarith

text \<open>Two regions of \<open>n\<close> bytes that do not overlap, by their distance in both directions.\<close>

definition disjoint_regions :: "u32 \<Rightarrow> u32 \<Rightarrow> u32 \<Rightarrow> bool" where
  "disjoint_regions d s n \<longleftrightarrow> n \<le> s - d \<and> n \<le> d - s"

lemma memcpy_loop_eq:
  assumes "i \<le> n" and "disjoint_regions to from (n - i)"
  shows "memcpy_loop m to from i n =
         (\<lambda>a. if a - to < n - i then m (from + (a - to)) else m a)"
  using assms
proof (induction m to "from" i n rule: memcpy_loop.induct)
  case (1 m to "from" i n)
  show ?case
  proof (cases "i < n")
    case False
    with "1.prems"(1) have "i = n" by simp
    then show ?thesis by (subst memcpy_loop.simps) simp
  next
    case True
    let ?m = "m(to := m from)"
    have le: "i + 1 \<le> n"
      using True unat_inc [OF True] by (simp add: word_le_nat_alt word_less_nat_alt)
    have ni: "n - i \<noteq> 0" using True by auto
    have shift: "n - (i + 1) = n - i - 1" by (simp add: algebra_simps)
    have "n - i - 1 \<le> n - i" using ni by (simp add: word_le_nat_alt unat_minus_one)
    then have dis: "disjoint_regions (to + 1) (from + 1) (n - (i + 1))"
      using "1.prems"(2) unfolding disjoint_regions_def shift by (auto simp: algebra_simps)
    have pt: "(if a - (to + 1) < n - (i + 1) then ?m (from + 1 + (a - (to + 1))) else ?m a) =
          (if a - to < n - i then m (from + (a - to)) else m a)" for a
    proof (cases "a = to")
      case True
      then show ?thesis using ni by (simp add: shift word_neq_0_conv [symmetric] not_less)
    next
      case False
      have lt: "a - (to + 1) < n - (i + 1) \<longleftrightarrow> a - to < n - i"
        using pred_less_iff [of "a - to" "n - i"] False ni by (simp add: shift algebra_simps)
      have "from + (a - to) \<noteq> to" if "a - to < n - i"
      proof
        assume "from + (a - to) = to"
        then have "a - to = to - from" by (simp add: algebra_simps)
        with that have "to - from < n - i" by (simp only:)
        with "1.prems"(2) show False unfolding disjoint_regions_def by (meson leD)
      qed
      with False lt show ?thesis by (simp add: algebra_simps)
    qed
    have "memcpy_loop m to from i n = memcpy_loop ?m (to + 1) (from + 1) (i + 1) n"
      using True by (subst memcpy_loop.simps) simp
    also have "\<dots> = (\<lambda>a. if a - (to + 1) < n - (i + 1) then ?m (from + 1 + (a - (to + 1))) else ?m a)"
      by (rule "1.IH" [OF True le dis])
    finally show ?thesis by (simp only: pt)
  qed
qed

lemma memcpy_eq:
  "disjoint_regions d s n \<Longrightarrow> memcpy m d s n = (\<lambda>a. if a - d < n then m (s + (a - d)) else m a)"
  using memcpy_loop_eq [of 0 n d s m] by (simp add: memcpy_def)

text \<open>\<open>memset\<close> fills exactly the \<open>n\<close> bytes from \<open>s\<close> with the low byte of \<open>c\<close> and leaves the
  rest of memory alone (if the end of the block wraps past the top of the address space, the
  pointer comparison fails at once and nothing is written); \<open>memcpy\<close> between blocks that do not
  overlap copies every byte of the source and changes nothing outside the destination.\<close>

lemma memset_memcpy_exact:
  "memset m s c n = (\<lambda>a. if s \<le> a \<and> a < s + n then ucast c else m a) \<and>
   (disjoint_regions d s n \<longrightarrow>
      memcpy m d s n = (\<lambda>a. if a - d < n then m (s + (a - d)) else m a))"
  using memset_eq memcpy_eq by blast

section \<open>Strings\<close>

lemma cstr_nth:
  "cstr m a xs \<Longrightarrow> (\<forall>i < length xs. m (a + of_nat i) = xs ! i \<and> xs ! i \<noteq> 0) \<and>
     m (a + of_nat (length xs)) = 0"
proof (induction xs arbitrary: a)
  case Nil
  then show ?case by simp
next
  case (Cons x xs)
  then have IH: "(\<forall>i < length xs. m (a + 1 + of_nat i) = xs ! i \<and> xs ! i \<noteq> 0) \<and>
     m (a + 1 + of_nat (length xs)) = 0" and x: "m a = x" "x \<noteq> 0" by (metis cstr.simps(2))+
  have "m (a + of_nat i) = (x # xs) ! i \<and> (x # xs) ! i \<noteq> 0" if "i < length (x # xs)" for i
    using that IH x by (cases i) (simp_all add: algebra_simps)
  with IH show ?case by (simp add: algebra_simps)
qed

text \<open>A terminated string is shorter than the address space.\<close>

lemma cstr_length:
  assumes "cstr m a xs"
  shows "length xs < 2 ^ 32"
proof (rule ccontr)
  assume "\<not> ?thesis"
  then have lt: "length xs - 2 ^ 32 < length xs" and le: "2 ^ 32 \<le> length xs" by simp_all
  have "(of_nat (length xs) :: u32) = of_nat (length xs - 2 ^ 32) + of_nat (2 ^ 32)"
    using le by (metis le_add_diff_inverse2 of_nat_add)
  also have "of_nat (2 ^ 32) = (0 :: u32)" by simp
  finally have "(of_nat (length xs) :: u32) = of_nat (length xs - 2 ^ 32)" by simp
  with cstr_nth [OF assms] lt show False by metis
qed

lemma strlen_loop_cstr: "cstr m a xs \<Longrightarrow> strlen_loop m a l = Some (l + of_nat (length xs))"
  by (induction xs arbitrary: a l) (subst strlen_loop.simps, simp add: algebra_simps)+

lemma strlen_cstr: "cstr m a xs \<Longrightarrow> strlen m a = Some (of_nat (length xs))"
  by (simp add: strlen_def strlen_loop_cstr)

lemma strcmp_loop_cstr:
  "cstr m a xs \<Longrightarrow> cstr m b ys \<Longrightarrow> length xs = length ys \<Longrightarrow>
   strcmp_loop m a b = Some (chars_cmp xs ys)"
proof (induction xs ys arbitrary: a b rule: chars_cmp.induct)
  case (1 x xs y ys)
  then show ?case by (subst strcmp_loop.simps) auto
qed (auto simp: strcmp_loop.simps [of m])

lemma of_nat_length_less:
  "cstr m a xs \<Longrightarrow> cstr m b ys \<Longrightarrow>
   (of_nat (length xs) :: u32) < of_nat (length ys) \<longleftrightarrow> length xs < length ys"
  using cstr_length [of m a xs] cstr_length [of m b ys]
  by (simp add: word_less_nat_alt unat_of_nat_small)

lemma strcmp_cstr:
  assumes "cstr m a xs" and "cstr m b ys"
  shows "strcmp m a b = Some (strcmp_abs xs ys)"
  using assms strcmp_loop_cstr [OF assms] of_nat_length_less [OF assms]
    of_nat_length_less [OF assms(2,1)]
  by (simp add: strcmp_def strcmp_abs_def strlen_cstr)

lemma chars_cmp_eq: "length xs = length ys \<Longrightarrow> chars_cmp xs ys = 0 \<longleftrightarrow> xs = ys"
  by (induction xs ys rule: chars_cmp.induct) auto

lemma strcmp_abs_eq [simp]: "strcmp_abs xs ys = 0 \<longleftrightarrow> xs = ys"
  using chars_cmp_eq [of xs ys] by (auto simp: strcmp_abs_def)

lemma char_less_total: "x \<noteq> y \<Longrightarrow> \<not> char_less x y \<Longrightarrow> char_less y x"
  by (auto simp: char_less_def not_less) (metis le_less_linear less_le signed_word_eqI)

lemma char_less_asym: "char_less x y \<Longrightarrow> \<not> char_less y x"
  by (simp add: char_less_def)

lemma chars_cmp_flip: "length xs = length ys \<Longrightarrow> chars_cmp ys xs = - chars_cmp xs ys"
  by (induction xs ys rule: chars_cmp.induct) (auto dest: char_less_total char_less_asym)

lemma strcmp_abs_flip: "strcmp_abs ys xs = - strcmp_abs xs ys"
  using chars_cmp_flip [of xs ys] by (auto simp: strcmp_abs_def)

text \<open>On terminated strings \<open>strlen\<close> returns the number of characters and \<open>strcmp\<close> returns
  a result that is 0 exactly for equal strings, changes its sign when the arguments are swapped,
  and puts a shorter string first.\<close>

lemma strlen_strcmp_correct:
  assumes "cstr m a xs" and "cstr m b ys"
  shows "strlen m a = Some (of_nat (length xs)) \<and> unat (of_nat (length xs) :: u32) = length xs \<and>
         (\<exists>r. strcmp m a b = Some r \<and> (r = 0 \<longleftrightarrow> xs = ys) \<and>
              (length xs < length ys \<longrightarrow> r < 0) \<and> strcmp m b a = Some (- r))"
proof -
  have "strcmp m b a = Some (- strcmp_abs xs ys)"
    using strcmp_cstr [OF assms(2,1)] strcmp_abs_flip by metis
  moreover have "length xs < length ys \<longrightarrow> strcmp_abs xs ys < 0" by (simp add: strcmp_abs_def)
  moreover have "unat (of_nat (length xs) :: u32) = length xs"
    using cstr_length [OF assms(1)] by (simp add: unat_of_nat_small)
  ultimately show ?thesis
    using strlen_cstr [OF assms(1)] strcmp_cstr [OF assms] by simp
qed

definition example_mem :: mem where
  "example_mem = (\<lambda>_. 0)(100 := 0x62, 101 := 0x69, 102 := 0x6E, 200 := 0x64, 201 := 0x65)"

text \<open>A string that lies in the address space without wrapping, at an address other than
  \<open>NULL\<close>.\<close>

definition cstr_at :: "mem \<Rightarrow> u32 \<Rightarrow> u8 list \<Rightarrow> bool" where
  "cstr_at m a xs \<longleftrightarrow> a \<noteq> 0 \<and> unat a + length xs < 2 ^ 32 \<and> cstr m a xs"

lemma cstr_at_tail: "cstr_at m a (x # xs) \<Longrightarrow> cstr_at m (a + 1) xs"
proof -
  assume h: "cstr_at m a (x # xs)"
  then have "unat a + unat (1::u32) < 2 ^ LENGTH(32)" by (simp add: cstr_at_def)
  then have "unat (a + 1) = unat a + 1" using unat_add_nowrap by fastforce
  with h show ?thesis by (auto simp: cstr_at_def unat_eq_zero [symmetric])
qed

lemma strchr_cstr:
  "cstr_at m a xs \<Longrightarrow> \<exists>p. strchr m a c = Some p \<and> (p \<noteq> 0 \<longleftrightarrow> ucast c \<in> set xs)"
proof (induction xs arbitrary: a)
  case Nil
  then show ?case by (subst strchr.simps) (simp add: cstr_at_def)
next
  case (Cons x xs)
  from Cons.IH [OF cstr_at_tail [OF Cons.prems]] Cons.prems show ?case
    by (subst strchr.simps) (auto simp: cstr_at_def)
qed

lemma ucast_scast_u8: "ucast (scast x :: u32) = x" for x :: u8
  by (rule bit_word_eqI) (simp add: bit_simps)

lemma strcspn_loop_cstr:
  "cstr m a xs \<Longrightarrow> cstr_at m r ys \<Longrightarrow>
   strcspn_loop m a r l = Some (l + of_nat (strcspn_abs xs ys))"
proof (induction xs arbitrary: a l)
  case Nil
  then show ?case by (subst strcspn_loop.simps) (simp add: strcspn_abs_def)
next
  case (Cons x xs)
  obtain p where p: "strchr m r (scast x) = Some p" "p \<noteq> 0 \<longleftrightarrow> x \<in> set ys"
    using strchr_cstr [OF Cons.prems(2), of "scast x"] by (auto simp: ucast_scast_u8)
  have "strcspn_loop m (a + 1) r (l + 1) = Some (l + 1 + of_nat (strcspn_abs xs ys))"
    using Cons by simp
  with Cons.prems p show ?case
    by (subst strcspn_loop.simps) (auto simp: strcspn_abs_def algebra_simps)
qed

lemma strcspn_cstr:
  "cstr m a xs \<Longrightarrow> cstr_at m r ys \<Longrightarrow> strcspn m a r = Some (of_nat (strcspn_abs xs ys))"
  by (simp add: strcspn_def strcspn_loop_cstr)

text \<open>\<open>strcspn\<close> returns the length of the longest prefix with no character of \<open>reject\<close>: no
  character before that position is in \<open>reject\<close>, and the one at it, if the string goes on, is.\<close>

lemma strcspn_correct:
  assumes "cstr m a xs" and "cstr_at m r ys"
  shows "\<exists>k. strcspn m a r = Some (of_nat k) \<and> k \<le> length xs \<and>
             (\<forall>i < k. xs ! i \<notin> set ys) \<and> (k < length xs \<longrightarrow> xs ! k \<in> set ys)"
proof -
  let ?k = "strcspn_abs xs ys"
  have "?k \<le> length xs" by (simp add: strcspn_abs_def length_takeWhile_le)
  moreover have "\<forall>i < ?k. xs ! i \<notin> set ys"
    unfolding strcspn_abs_def by (metis nth_mem set_takeWhileD takeWhile_nth)
  moreover have "?k < length xs \<longrightarrow> xs ! ?k \<in> set ys"
    using nth_length_takeWhile [of "\<lambda>x. x \<notin> set ys" xs] by (simp add: strcspn_abs_def)
  ultimately show ?thesis using strcspn_cstr [OF assms] by blast
qed

subsection \<open>strncmp\<close>

lemma strncmp_loop_eq: "strncmp_loop m a b i n = 0 \<longleftrightarrow> n \<le> i \<or> m a = m b"
proof (induction m a b i n rule: strncmp_loop.induct)
  case (1 m a b i n)
  show ?case
    using 1 by (subst strncmp_loop.simps) (auto simp: not_less)
qed

text \<open>\<open>strncmp\<close> never looks past the first character: for any count other than 0 it reports
  equality exactly when the first bytes agree, whatever follows them.\<close>

lemma strncmp_first_byte_only:
  assumes "n \<noteq> 0"
  shows "strncmp m a b n = 0 \<longleftrightarrow> m a = m b"
  using assms by (simp add: strncmp_def strncmp_loop_eq word_le_0_iff)

end
