(* ===== verification/Frame_Interface.thy ===== *)
theory Frame_Interface
  imports Prelude
begin

text \<open>
  What the rest of the kernel relies on when it asks for page frames (\<open>pfa_allocate\<close>,
  \<open>pfa_free\<close>): a contract over the set of free frames, and what follows from it for any client,
  whatever the allocator's representation is.
\<close>

text \<open>The frames of a block of \<open>n\<close> frames from \<open>p\<close> on.\<close>

definition frame_block :: "u32 \<Rightarrow> u32 \<Rightarrow> u32 set" where
  "frame_block p n = (\<lambda>i. p + 4096 * of_nat i) ` {..<unat n}"

lemma frame_block_one: "frame_block p 1 = {p}"
  by (simp add: frame_block_def lessThan_Suc)

text \<open>A sequence of requests to an allocator: the blocks handed out, failures left out.\<close>

fun allocate_seq :: "('s \<Rightarrow> u32 \<Rightarrow> 's \<times> u32) \<Rightarrow> 's \<Rightarrow> u32 list \<Rightarrow> 's \<times> (u32 \<times> u32) list" where
  "allocate_seq alloc s [] = (s, [])"
| "allocate_seq alloc s (n # ns) =
     (let (s', p) = alloc s n; (s'', bs) = allocate_seq alloc s' ns
      in (s'', if p = 0 then bs else (p, n) # bs))"

locale frame_allocator =
  fixes inv :: "'s \<Rightarrow> bool"
    and managed :: "'s \<Rightarrow> u32 set"
    and avail :: "'s \<Rightarrow> u32 set"
    and allocate :: "'s \<Rightarrow> u32 \<Rightarrow> 's \<times> u32"
    and release :: "'s \<Rightarrow> u32 \<Rightarrow> 's"
  assumes avail_managed: "inv s \<Longrightarrow> avail s \<subseteq> managed s"
    and managed_nonnull: "inv s \<Longrightarrow> p \<in> managed s \<Longrightarrow> p \<noteq> 0 \<and> 4096 dvd unat p"
    and allocate_inv: "inv s \<Longrightarrow> allocate s n = (s', p) \<Longrightarrow> inv s'"
    and allocate_managed: "inv s \<Longrightarrow> allocate s n = (s', p) \<Longrightarrow> managed s' = managed s"
    and allocate_failed: "inv s \<Longrightarrow> allocate s n = (s', 0) \<Longrightarrow> s' = s"
    and allocate_block: "inv s \<Longrightarrow> allocate s n = (s', p) \<Longrightarrow> p \<noteq> 0 \<Longrightarrow>
        n \<noteq> 0 \<and> frame_block p n \<subseteq> avail s \<and> avail s' = avail s - frame_block p n"
    and allocate_one: "inv s \<Longrightarrow> avail s \<noteq> {} \<Longrightarrow> snd (allocate s 1) \<noteq> 0"
    and release_inv: "inv s \<Longrightarrow> p \<in> managed s \<Longrightarrow> inv (release s p)"
    and release_managed: "inv s \<Longrightarrow> p \<in> managed s \<Longrightarrow> managed (release s p) = managed s"
    and release_used: "inv s \<Longrightarrow> p \<in> managed s \<Longrightarrow> p \<notin> avail s \<Longrightarrow>
        avail (release s p) = insert p (avail s)"
begin

lemma allocate_first:
  assumes "inv s" and "allocate s n = (s', p)" and "p \<noteq> 0"
  shows "p \<in> frame_block p n"
proof -
  have "0 < unat n" using allocate_block [OF assms] by (simp add: unat_gt_0)
  then show ?thesis unfolding frame_block_def by (intro image_eqI [of _ _ 0]) simp_all
qed

lemma allocated_not_avail:
  assumes "inv s" and "allocate s n = (s', p)" and "p \<noteq> 0"
  shows "frame_block p n \<inter> avail s' = {}"
  using allocate_block [OF assms] by blast

lemma allocate_release_one:
  assumes "inv s" and "allocate s 1 = (s', p)" and "p \<noteq> 0"
  shows "avail (release s' p) = avail s" and "inv (release s' p)"
proof -
  have b: "p \<in> avail s" "avail s' = avail s - {p}"
    using allocate_block [OF assms] by (simp_all add: frame_block_one)
  have i: "inv s'" by (rule allocate_inv [OF assms(1,2)])
  have m: "p \<in> managed s'"
    using allocate_managed [OF assms(1,2)] avail_managed [OF assms(1)] b(1) by auto
  show "inv (release s' p)" by (rule release_inv [OF i m])
  have "p \<notin> avail s'" using b(2) by simp
  from release_used [OF i m this] b show "avail (release s' p) = avail s" by auto
qed

lemma allocate_seq_inv:
  "inv s \<Longrightarrow> inv (fst (allocate_seq allocate s ns)) \<and> avail (fst (allocate_seq allocate s ns)) \<subseteq> avail s \<and>
     (\<forall>(p, n) \<in> set (snd (allocate_seq allocate s ns)). frame_block p n \<subseteq> avail s)"
proof (induction ns arbitrary: s)
  case Nil
  then show ?case by simp
next
  case (Cons n ns)
  obtain s' p where a: "allocate s n = (s', p)" by fastforce
  have i: "inv s'" using Cons.prems a by (rule allocate_inv)
  have sub: "avail s' \<subseteq> avail s"
    using allocate_block [OF Cons.prems a] allocate_failed [OF Cons.prems, of n s'] a by (cases "p = 0") auto
  obtain t bs where t: "allocate_seq allocate s' ns = (t, bs)" by fastforce
  have IH: "inv t" "avail t \<subseteq> avail s'" "\<forall>(q, m) \<in> set bs. frame_block q m \<subseteq> avail s'"
    using Cons.IH [OF i] t by auto
  have hd: "p \<noteq> 0 \<Longrightarrow> frame_block p n \<subseteq> avail s" using allocate_block [OF Cons.prems a] by blast
  have tl: "\<forall>(q, m) \<in> set bs. frame_block q m \<subseteq> avail s" using IH(3) sub by blast
  have "fst (allocate_seq allocate s (n # ns)) = t" "snd (allocate_seq allocate s (n # ns)) = (if p = 0 then bs else (p, n) # bs)"
    using a t by simp_all
  with IH(1,2) sub hd tl show ?case by auto
qed

text \<open>Frames are never handed out twice: the blocks of a sequence of requests are pairwise
  disjoint.\<close>

lemma allocate_seq_disjoint:
  "inv s \<Longrightarrow> i < j \<Longrightarrow> j < length (snd (allocate_seq allocate s ns)) \<Longrightarrow>
   case_prod frame_block (snd (allocate_seq allocate s ns) ! i) \<inter>
   case_prod frame_block (snd (allocate_seq allocate s ns) ! j) = {}"
proof (induction ns arbitrary: s i j)
  case Nil
  then show ?case by simp
next
  case (Cons n ns)
  obtain s' p where a: "allocate s n = (s', p)" by fastforce
  have i: "inv s'" using Cons.prems(1) a by (rule allocate_inv)
  obtain t bs where t: "allocate_seq allocate s' ns = (t, bs)" by fastforce
  show ?case
  proof (cases "p = 0")
    case True
    with Cons.IH [OF i, of i j] Cons.prems a t show ?thesis by simp
  next
    case False
    have "frame_block p n \<inter> avail s' = {}" by (rule allocated_not_avail [OF Cons.prems(1) a False])
    moreover have "case_prod frame_block b \<subseteq> avail s'" if "b \<in> set bs" for b
      using allocate_seq_inv [OF i, of ns] t that by auto
    ultimately have hd: "frame_block p n \<inter> case_prod frame_block b = {}" if "b \<in> set bs" for b
      using that by blast
    obtain j' where j': "j = Suc j'" "j' < length bs"
      using Cons.prems a t False by (cases j) auto
    show ?thesis
    proof (cases i)
      case 0
      with hd [of "bs ! j'"] j' a t False show ?thesis by simp
    next
      case (Suc i')
      with Cons.IH [OF i, of i' j'] Cons.prems j' a t False show ?thesis by simp
    qed
  qed
qed

end

end
