(* ===== verification/Page_Frame_Allocator.thy ===== *)
theory Page_Frame_Allocator
  imports Kmath Cmem Frame_Interface
begin

text \<open>
  The page frame allocator (\<open>page_frame_allocator.c\<close>) without its initialisation: a bitmap in
  memory, one bit per 4 kB frame, most significant bit of a 32-bit cell first, 1 for a free
  frame; and the table \<open>mmap\<close> of memory regions the bits stand for, in order. The
  initialisation, which needs paging, is in theory \<open>Pfa_Init\<close>.
\<close>

section \<open>State\<close>

record memory_map =
  mm_addr :: u32
  mm_len :: u32

text \<open>The static variables \<open>page_frames\<close> (start and length in bits), \<open>mmap\<close> and \<open>mmap_len\<close>,
  and the memory that holds the bitmap.\<close>

record pfa_state =
  pf_start :: u32
  pf_len :: u32
  mmap :: "memory_map list"
  mmap_len :: u32
  pf_mem :: mem

definition mmap_used :: "pfa_state \<Rightarrow> memory_map list" where
  "mmap_used s = take (unat (mmap_len s)) (mmap s)"

section \<open>Bits\<close>

definition bitmap_cell :: "pfa_state \<Rightarrow> u32 \<Rightarrow> u32" where
  "bitmap_cell s i = load32 (pf_mem s) (pf_start s + 4 * i)"

definition toggle_bit :: "pfa_state \<Rightarrow> u32 \<Rightarrow> pfa_state" where
  "toggle_bit s bit_idx =
     s\<lparr>pf_mem := store32 (pf_mem s) (pf_start s + 4 * (bit_idx div 32))
         (bitmap_cell s (bit_idx div 32) XOR push_bit (31 - unat (bit_idx mod 32)) 1)\<rparr>"

function toggle_bits_loop :: "pfa_state \<Rightarrow> u32 \<Rightarrow> u32 \<Rightarrow> pfa_state" where
  "toggle_bits_loop s i e = (if i < e then toggle_bits_loop (toggle_bit s i) (i + 1) e else s)"
  by pat_completeness auto
termination
  by (relation "measure (\<lambda>(s, i, e). unat e - unat i)") (auto intro: loop_measure)

declare toggle_bits_loop.simps [simp del]

definition toggle_bits :: "pfa_state \<Rightarrow> u32 \<Rightarrow> u32 \<Rightarrow> pfa_state" where
  "toggle_bits s bit_idx num_bits = toggle_bits_loop s bit_idx (bit_idx + num_bits)"

section \<open>Frame addresses\<close>

fun paddr_for_idx_loop :: "memory_map list \<Rightarrow> u32 \<Rightarrow> u32 \<Rightarrow> u32" where
  "paddr_for_idx_loop [] current_offset offset = 0"
| "paddr_for_idx_loop (e # es) current_offset offset =
     (if current_offset + mm_len e \<le> offset
      then paddr_for_idx_loop es (current_offset + mm_len e) offset
      else mm_addr e + (offset - current_offset))"

definition paddr_for_idx :: "pfa_state \<Rightarrow> u32 \<Rightarrow> u32" where
  "paddr_for_idx s bit_idx = paddr_for_idx_loop (mmap_used s) 0 (bit_idx * FOUR_KB)"

fun idx_for_paddr_loop :: "u32 \<Rightarrow> memory_map list \<Rightarrow> u32 \<Rightarrow> u32 \<Rightarrow> u32" where
  "idx_for_paddr_loop len [] byte_offset paddr = len"
| "idx_for_paddr_loop len (e # es) byte_offset paddr =
     (if paddr < mm_addr e + mm_len e
      then (byte_offset + (paddr - mm_addr e)) div FOUR_KB
      else idx_for_paddr_loop len es (byte_offset + mm_len e) paddr)"

definition idx_for_paddr :: "pfa_state \<Rightarrow> u32 \<Rightarrow> u32" where
  "idx_for_paddr s paddr = idx_for_paddr_loop (pf_len s) (mmap_used s) 0 paddr"

fun fits_in_one_mmap_entry_loop :: "memory_map list \<Rightarrow> u32 \<Rightarrow> u32 \<Rightarrow> u32 \<Rightarrow> bool" where
  "fits_in_one_mmap_entry_loop [] current_offset offset pfs = False"
| "fits_in_one_mmap_entry_loop (e # es) current_offset offset pfs =
     (if current_offset + mm_len e \<le> offset
      then fits_in_one_mmap_entry_loop es (current_offset + mm_len e) offset pfs
      else offset - current_offset + pfs * FOUR_KB \<le> mm_len e)"

definition fits_in_one_mmap_entry :: "pfa_state \<Rightarrow> u32 \<Rightarrow> u32 \<Rightarrow> bool" where
  "fits_in_one_mmap_entry s bit_idx pfs =
     fits_in_one_mmap_entry_loop (mmap_used s) 0 (bit_idx * FOUR_KB) pfs"

section \<open>Allocation and release\<close>

text \<open>The two nested loops of \<open>pfa_allocate\<close>. The inner loop runs over the bits of one cell and
  either finds a run that fits or goes on with its counters \<open>frames_found\<close> and \<open>bit_idx\<close>.
  \<open>bit_idx\<close> starts out uninitialised in the source and is written before it is read; the model
  starts it at 0.\<close>

datatype scan_result = Found u32 | Continue u32 u32

function pfa_scan_cell :: "pfa_state \<Rightarrow> u32 \<Rightarrow> u32 \<Rightarrow> u32 \<Rightarrow> u32 \<Rightarrow> u32 \<Rightarrow> u32 \<Rightarrow> scan_result" where
  "pfa_scan_cell s num_page_frames cell i j frames_found bit_idx =
     (if j < 32 then
        (if drop_bit (31 - unat j) cell AND 1 = 1 then
           (let bit_idx = (if frames_found = 0 then i * 32 + j else bit_idx);
                frames_found = frames_found + 1
            in if frames_found = num_page_frames then
                 (if fits_in_one_mmap_entry s bit_idx num_page_frames then Found bit_idx
                  else pfa_scan_cell s num_page_frames cell i (j + 1) 0 bit_idx)
               else pfa_scan_cell s num_page_frames cell i (j + 1) frames_found bit_idx)
         else pfa_scan_cell s num_page_frames cell i (j + 1) 0 bit_idx)
      else Continue frames_found bit_idx)"
  by pat_completeness auto
termination
  by (relation "measure (\<lambda>(s, num, cell, i, j, found, b). 32 - unat j)")
     (auto intro: loop_measure)

declare pfa_scan_cell.simps [simp del]

function pfa_scan :: "pfa_state \<Rightarrow> u32 \<Rightarrow> u32 \<Rightarrow> u32 \<Rightarrow> u32 \<Rightarrow> u32 \<Rightarrow> u32 option" where
  "pfa_scan s num_page_frames i n frames_found bit_idx =
     (if i < n then
        (let cell = bitmap_cell s i in
         if cell \<noteq> 0 then
           (case pfa_scan_cell s num_page_frames cell i 0 frames_found bit_idx of
              Found b \<Rightarrow> Some b
            | Continue f b \<Rightarrow> pfa_scan s num_page_frames (i + 1) n f b)
         else pfa_scan s num_page_frames (i + 1) n 0 bit_idx)
      else None)"
  by pat_completeness auto
termination
  by (relation "measure (\<lambda>(s, num, i, n, found, b). unat n - unat i)")
     (auto intro: loop_measure)

declare pfa_scan.simps [simp del]

definition pfa_allocate :: "pfa_state \<Rightarrow> u32 \<Rightarrow> pfa_state \<times> u32" where
  "pfa_allocate s num_page_frames =
     (case pfa_scan s num_page_frames 0 (div_ceil (pf_len s) 32) 0 0 of
        Some bit_idx \<Rightarrow> (toggle_bits s bit_idx num_page_frames, paddr_for_idx s bit_idx)
      | None \<Rightarrow> (s, 0))"

definition pfa_free :: "pfa_state \<Rightarrow> u32 \<Rightarrow> pfa_state" where
  "pfa_free s paddr =
     (let bit_idx = idx_for_paddr s paddr in
      if bit_idx = pf_len s then s else toggle_bit s bit_idx)"

function pfa_free_cont_loop :: "pfa_state \<Rightarrow> u32 \<Rightarrow> u32 \<Rightarrow> u32 \<Rightarrow> pfa_state" where
  "pfa_free_cont_loop s paddr i n =
     (if i < n then pfa_free_cont_loop (pfa_free s (paddr + i * FOUR_KB)) paddr (i + 1) n else s)"
  by pat_completeness auto
termination
  by (relation "measure (\<lambda>(s, paddr, i, n). unat n - unat i)")
     (auto intro: loop_measure)

declare pfa_free_cont_loop.simps [simp del]

definition pfa_free_cont :: "pfa_state \<Rightarrow> u32 \<Rightarrow> u32 \<Rightarrow> pfa_state" where
  "pfa_free_cont s paddr n = pfa_free_cont_loop s paddr 0 n"

section \<open>The bitmap as a set of bits\<close>

definition frame_bit :: "pfa_state \<Rightarrow> u32 \<Rightarrow> bool" where
  "frame_bit s i = bit (bitmap_cell s (i div 32)) (31 - unat (i mod 32))"

lemma unat_mod_32: "unat (i mod 32 :: u32) = unat i mod 32"
  by (simp add: unat_mod)

lemma div_32_small: "(i :: u32) div 32 < 0x40000000"
proof -
  have "unat i div 32 < 0x40000000" using unat_lt_u32 [of i] by linarith
  then show ?thesis by (simp add: word_less_nat_alt unat_div)
qed

lemma toggle_bit_fields [simp, frame_simps]:
  "pf_start (toggle_bit s i) = pf_start s" "pf_len (toggle_bit s i) = pf_len s"
  "mmap (toggle_bit s i) = mmap s" "mmap_len (toggle_bit s i) = mmap_len s"
  by (simp_all add: toggle_bit_def)

lemma bitmap_cell_toggle_bit:
  assumes "c < 0x40000000"
  shows "bitmap_cell (toggle_bit s i) c =
     (if c = i div 32 then bitmap_cell s c XOR push_bit (31 - unat (i mod 32)) 1
      else bitmap_cell s c)"
  using load32_store32_other [OF apart32_array [OF _ div_32_small assms]]
  by (auto simp: bitmap_cell_def toggle_bit_def load32_store32)

lemma bit_position_eq:
  assumes "i div 32 = j div 32" and "31 - unat (i mod 32) = 31 - unat (j mod 32)"
  shows "i = (j :: u32)"
proof -
  have "unat i div 32 = unat j div 32"
    using arg_cong [OF assms(1), of unat] by (simp add: unat_div)
  moreover have "unat i mod 32 = unat j mod 32"
    using assms(2) by (simp add: unat_mod_32)
  ultimately have "unat i = unat j" by (metis div_mult_mod_eq)
  then show ?thesis by (rule word_unat_eq_iff [THEN iffD2])
qed

lemma bit_single_iff: "m < 32 \<Longrightarrow> bit (push_bit n 1 :: u32) m \<longleftrightarrow> m = n"
  by (auto simp: bit_exp_iff)

lemma frame_bit_toggle_bit:
  "frame_bit (toggle_bit s i) j = (if i = j then \<not> frame_bit s j else frame_bit s j)"
proof (cases "j div 32 = i div 32")
  case True
  have "unat (j mod 32) < 32" by (simp add: unat_mod_32)
  then have lt: "31 - unat (j mod 32) < 32" by linarith
  have pos: "31 - unat (j mod 32) = 31 - unat (i mod 32) \<longleftrightarrow> i = j"
    using bit_position_eq [OF True] by auto
  have cell: "bitmap_cell (toggle_bit s i) (j div 32) =
      bitmap_cell s (j div 32) XOR push_bit (31 - unat (i mod 32)) 1"
    by (subst bitmap_cell_toggle_bit [OF div_32_small]) (simp only: True if_True refl)
  show ?thesis
    unfolding frame_bit_def cell bit_xor_iff bit_single_iff [OF lt] pos by (cases "i = j") simp_all
next
  case False
  then show ?thesis by (auto simp: frame_bit_def bitmap_cell_toggle_bit div_32_small)
qed

lemma toggle_bits_loop_fields [simp, frame_simps]:
  "pf_start (toggle_bits_loop s i e) = pf_start s" "pf_len (toggle_bits_loop s i e) = pf_len s"
  "mmap (toggle_bits_loop s i e) = mmap s" "mmap_len (toggle_bits_loop s i e) = mmap_len s"
  by (induction s i e rule: toggle_bits_loop.induct; subst toggle_bits_loop.simps; simp)+

lemma toggle_bits_fields [simp, frame_simps]:
  "pf_start (toggle_bits s i n) = pf_start s" "pf_len (toggle_bits s i n) = pf_len s"
  "mmap (toggle_bits s i n) = mmap s" "mmap_len (toggle_bits s i n) = mmap_len s"
  by (simp_all add: toggle_bits_def)

lemma frame_bit_toggle_bits_loop:
  "frame_bit (toggle_bits_loop s i e) j =
     (if i \<le> j \<and> j < e then \<not> frame_bit s j else frame_bit s j)"
proof (induction s i e rule: toggle_bits_loop.induct)
  case (1 s i e)
  show ?case
  proof (cases "i < e")
    case True
    have "i + 1 \<le> j \<longleftrightarrow> i < j"
      using unat_inc [OF True] by (simp add: word_le_nat_alt word_less_nat_alt Suc_le_eq)
    with 1 [OF True] True show ?thesis
      by (subst toggle_bits_loop.simps) (auto simp: frame_bit_toggle_bit)
  next
    case False
    then show ?thesis by (subst toggle_bits_loop.simps) auto
  qed
qed

lemma frame_bit_toggle_bits:
  "frame_bit (toggle_bits s i n) j =
     (if i \<le> j \<and> j < i + n then \<not> frame_bit s j else frame_bit s j)"
  by (simp add: toggle_bits_def frame_bit_toggle_bits_loop)

lemma frame_bit_in_cell:
  assumes "i < 0x8000000" and "j < 32"
  shows "frame_bit s (i * 32 + j) \<longleftrightarrow> drop_bit (31 - unat j) (bitmap_cell s i) AND 1 = 1"
proof -
  have u: "unat i < 0x8000000" "unat j < 32" using assms by (simp_all add: word_less_nat_alt)
  have m: "unat (i * 32) = unat i * 32"
    using u unat_mult_nowrap [of i 32] by simp
  have v: "unat (i * 32 + j) = unat i * 32 + unat j"
    using u m unat_add_nowrap [of "i * 32" j] by simp
  have d: "(i * 32 + j) div 32 = i"
    using u by (intro word_unat_eq_iff [THEN iffD2]) (simp add: unat_div v)
  have r: "unat ((i * 32 + j) mod 32) = unat j"
    using u by (simp add: unat_mod_32 v)
  show ?thesis
    by (simp add: frame_bit_def d r and_one_eq bit_iff_odd_drop_bit odd_iff_mod_2_eq_one)
qed

section \<open>The scan without the cells\<close>

text \<open>The reference for the two nested loops: one pass over the bit indices, with no grouping in
  cells and no shortcut for a cell of zeros. \<open>r\<close> bits remain from index \<open>k\<close> on.\<close>

fun bit_scan :: "(nat \<Rightarrow> bool) \<Rightarrow> (nat \<Rightarrow> bool) \<Rightarrow> nat \<Rightarrow> nat \<Rightarrow> nat \<Rightarrow> nat \<Rightarrow> nat \<Rightarrow> nat option" where
  "bit_scan isfree fits num 0 k found start = None"
| "bit_scan isfree fits num (Suc r) k found start =
     (if isfree k then
        (let start' = (if found = 0 then k else start) in
         if Suc found = num then
           (if fits start' then Some start' else bit_scan isfree fits num r (Suc k) 0 start')
         else bit_scan isfree fits num r (Suc k) (Suc found) start')
      else bit_scan isfree fits num r (Suc k) 0 start)"

abbreviation free_at :: "pfa_state \<Rightarrow> nat \<Rightarrow> bool" where
  "free_at s k \<equiv> frame_bit s (of_nat k)"

abbreviation fits_at :: "pfa_state \<Rightarrow> u32 \<Rightarrow> nat \<Rightarrow> bool" where
  "fits_at s num k \<equiv> fits_in_one_mmap_entry s (of_nat k) num"

lemma bit_scan_none_free:
  "(\<And>k'. k \<le> k' \<Longrightarrow> k' < k + c \<Longrightarrow> \<not> isfree k') \<Longrightarrow> c \<noteq> 0 \<Longrightarrow>
   bit_scan isfree fits num (c + r) k found start = bit_scan isfree fits num r (k + c) 0 start"
proof (induction c arbitrary: k found)
  case (Suc c)
  show ?case
  proof (cases "c = 0")
    case True
    with Suc.prems(1) [of k] show ?thesis by simp
  next
    case False
    have "bit_scan isfree fits num (c + r) (Suc k) 0 start = bit_scan isfree fits num r (Suc k + c) 0 start"
      by (rule Suc.IH) (use Suc.prems False in auto)
    with Suc.prems(1) [of k] show ?thesis by simp
  qed
qed simp

lemma of_nat_unat_u32: "of_nat (unat x) = (x :: u32)"
  by simp

lemma unat_cell_index:
  assumes "i < 0x8000000" and "j < 32"
  shows "unat (i * 32 + j :: u32) = 32 * unat i + unat j"
proof -
  have u: "unat i < 0x8000000" "unat j < 32" using assms by (simp_all add: word_less_nat_alt)
  have "unat (i * 32) = unat i * 32" using u unat_mult_nowrap [of i 32] by simp
  then show ?thesis using u unat_add_nowrap [of "i * 32" j] by simp
qed

text \<open>The inner loop from bit \<open>j\<close> of cell \<open>i\<close> does what the reference does up to the end of the
  cell. \<open>found\<close> never passes the number of bits seen, so it does not wrap.\<close>

lemma scan_cell_refines:
  assumes "i < 0x7FFFFFF" and "j \<le> 32" and "unat found \<le> 32 * unat i + unat j"
    and "cell = bitmap_cell s i"
  shows "bit_scan (free_at s) (fits_at s num) (unat num) (32 - unat j + r) (32 * unat i + unat j)
           (unat found) (unat b) =
         (case pfa_scan_cell s num cell i j found b of
            Found b' \<Rightarrow> Some (unat b')
          | Continue f b' \<Rightarrow> bit_scan (free_at s) (fits_at s num) (unat num) r (32 * unat i + 32) (unat f) (unat b'))
         \<and> (\<forall>f b'. pfa_scan_cell s num cell i j found b = Continue f b' \<longrightarrow> unat f \<le> 32 * unat i + 32)"
  using assms
proof (induction s num cell i j found b rule: pfa_scan_cell.induct)
  case (1 s num cell i j found b)
  show ?case
  proof (cases "j < 32")
    case False
    with "1.prems"(2) have "j = 32" by simp
    with "1.prems"(3) show ?thesis by (subst (1 2) pfa_scan_cell.simps) simp
  next
    case True
    have i: "i < 0x8000000" using "1.prems"(1) by (rule less_trans) simp
    have ui: "unat i < 0x7FFFFFF" and uj: "unat j < 32"
      using "1.prems"(1) True by (simp_all add: word_less_nat_alt)
    have j': "j + 1 \<le> 32" "unat (j + 1) = Suc (unat j)"
      using unat_inc [OF True] uj by (simp_all add: word_le_nat_alt)
    have rem: "32 - unat j + r = Suc (32 - unat (j + 1) + r)" using uj j' by simp
    have idx: "of_nat (32 * unat i + unat j) = i * 32 + j" "unat (i * 32 + j) = 32 * unat i + unat j"
      using unat_cell_index [OF i True] by (metis of_nat_unat_u32, simp)
    have free: "free_at s (32 * unat i + unat j) \<longleftrightarrow> drop_bit (31 - unat j) cell AND 1 = 1"
      unfolding idx(1) "1.prems"(4) by (rule frame_bit_in_cell [OF i True])
    have ff: "unat found + 1 < 2 ^ 32" using "1.prems"(3) ui uj by simp
    have f': "unat (found + 1) = Suc (unat found)"
      using ff unat_add_nowrap [of found 1] by simp
    have le: "unat (0::u32) \<le> 32 * unat i + unat (j + 1)" "unat (found + 1) \<le> 32 * unat i + unat (j + 1)"
      using "1.prems"(3) f' j' by simp_all
    let ?b = "if found = 0 then i * 32 + j else b"
    have b': "unat ?b = (if unat found = 0 then 32 * unat i + unat j else unat b)"
      using idx(2) by (simp add: unat_eq_zero)
    have num: "found + 1 = num \<longleftrightarrow> Suc (unat found) = unat num"
      using f' by (metis word_unat_eq_iff)
    have step: "bit_scan (free_at s) (fits_at s num) (unat num) (32 - unat j + r) (32 * unat i + unat j) (unat found) (unat b)
        = (if free_at s (32 * unat i + unat j) then
             (if found + 1 = num then
                (if fits_in_one_mmap_entry s ?b num then Some (unat ?b)
                 else bit_scan (free_at s) (fits_at s num) (unat num) (32 - unat (j + 1) + r) (32 * unat i + unat (j + 1)) (unat (0::u32)) (unat ?b))
              else bit_scan (free_at s) (fits_at s num) (unat num) (32 - unat (j + 1) + r) (32 * unat i + unat (j + 1)) (unat (found + 1)) (unat ?b))
           else bit_scan (free_at s) (fits_at s num) (unat num) (32 - unat (j + 1) + r) (32 * unat i + unat (j + 1)) (unat (0::u32)) (unat b))"
      unfolding rem bit_scan.simps Let_def b' [symmetric] num f' j'(2) of_nat_unat_u32
      by (simp only: unat_0 add_Suc_right)
    note IH = "1.IH" [OF True]
    have unfold: "pfa_scan_cell s num cell i j found b =
        (if free_at s (32 * unat i + unat j) then
           (if found + 1 = num then
              (if fits_in_one_mmap_entry s ?b num then Found ?b
               else pfa_scan_cell s num cell i (j + 1) 0 ?b)
            else pfa_scan_cell s num cell i (j + 1) (found + 1) ?b)
         else pfa_scan_cell s num cell i (j + 1) 0 b)"
      by (subst pfa_scan_cell.simps) (simp only: True free if_True Let_def)
    show ?thesis
    proof (cases "free_at s (32 * unat i + unat j)")
      case bf: False
      have "\<not> (drop_bit (31 - unat j) cell AND 1 = 1)" using bf free by blast
      from IH(3) [OF this "1.prems"(1) j'(1) le(1) "1.prems"(4)] show ?thesis
        unfolding step unfold if_not_P [OF bf] .
    next
      case bt: True
      have bit: "drop_bit (31 - unat j) cell AND 1 = 1" using bt free by blast
      show ?thesis
      proof (cases "found + 1 = num")
        case nt: False
        from IH(2) [OF bit refl refl nt "1.prems"(1) j'(1) le(2) "1.prems"(4)] show ?thesis
          unfolding step unfold if_P [OF bt] if_not_P [OF nt] .
      next
        case nt: True
        show ?thesis
        proof (cases "fits_in_one_mmap_entry s ?b num")
          case fits: True
          show ?thesis unfolding step unfold if_P [OF bt] if_P [OF nt] if_P [OF fits] by simp
        next
          case fits: False
          from IH(1) [OF bit refl refl nt fits "1.prems"(1) j'(1) le(1) "1.prems"(4)]
          show ?thesis unfolding step unfold if_P [OF bt] if_P [OF nt] if_not_P [OF fits] .
        qed
      qed
    qed
  qed
qed

lemma cell_zero_bits:
  assumes "bitmap_cell s i = 0" and "i < 0x8000000" and "32 * unat i \<le> k" and "k < 32 * unat i + 32"
  shows "\<not> free_at s k"
proof -
  let ?j = "of_nat (k - 32 * unat i) :: u32"
  have uj: "unat ?j = k - 32 * unat i" using assms(3,4) by (intro unat_of_nat_small) simp
  then have j: "?j < 32" using assms(3,4) by (simp add: word_less_nat_alt)
  have "unat (i * 32 + ?j) = k" using unat_cell_index [OF assms(2) j] uj assms(3) by simp
  then have "of_nat k = i * 32 + ?j" by (metis of_nat_unat_u32)
  then show ?thesis using frame_bit_in_cell [OF assms(2) j, of s] assms(1) by simp
qed

lemma pfa_scan_refines:
  assumes "n \<le> 0x7FFFFFF" and "i \<le> n" and "unat found \<le> 32 * unat i"
  shows "map_option unat (pfa_scan s num i n found b) =
         bit_scan (free_at s) (fits_at s num) (unat num) (32 * (unat n - unat i)) (32 * unat i)
           (unat found) (unat b)"
  using assms
proof (induction s num i n found b rule: pfa_scan.induct)
  case (1 s num i n found b)
  show ?case
  proof (cases "i < n")
    case False
    with "1.prems"(2) have "i = n" by simp
    then show ?thesis by (subst pfa_scan.simps) simp
  next
    case True
    have i: "i < 0x7FFFFFF" using True "1.prems"(1) by (rule less_le_trans)
    then have i': "i < 0x8000000" by (rule less_trans) simp
    have inc: "unat (i + 1) = Suc (unat i)" by (rule unat_inc [OF True])
    then have n': "i + 1 \<le> n" using True by (simp add: word_le_nat_alt word_less_nat_alt)
    define r where "r = 32 * (unat n - unat (i + 1))"
    have rem: "32 * (unat n - unat i) = 32 + r" using True inc by (simp add: r_def word_less_nat_alt)
    have nxt: "32 * unat i + 32 = 32 * unat (i + 1)" using inc by simp
    show ?thesis
    proof (cases "bitmap_cell s i = 0")
      case True
      have "bit_scan (free_at s) (fits_at s num) (unat num) (32 + r) (32 * unat i) (unat found) (unat b)
          = bit_scan (free_at s) (fits_at s num) (unat num) r (32 * unat i + 32) 0 (unat b)"
        by (rule bit_scan_none_free) (use cell_zero_bits [OF True i'] in auto)
      with "1.IH"(2) [OF \<open>i < n\<close> refl _ "1.prems"(1) n'] True \<open>i < n\<close> show ?thesis
        unfolding rem nxt r_def by (subst pfa_scan.simps) simp
    next
      case False
      have le: "unat found \<le> 32 * unat i + unat (0::u32)" using "1.prems"(3) by simp
      note cellr = scan_cell_refines [OF i _ le refl, of s num r b, simplified]
      show ?thesis
      proof (cases "pfa_scan_cell s num (bitmap_cell s i) i 0 found b")
        case (Found b')
        with cellr False \<open>i < n\<close> show ?thesis
          unfolding rem by (subst pfa_scan.simps) simp
      next
        case (Continue f b')
        then have "unat f \<le> 32 * unat (i + 1)" using cellr nxt by simp
        from "1.IH"(1) [OF \<open>i < n\<close> refl False Continue "1.prems"(1) n' this] Continue cellr False \<open>i < n\<close>
        show ?thesis unfolding rem nxt r_def by (subst pfa_scan.simps) simp
      qed
    qed
  qed
qed

text \<open>What the reference scan finds: \<open>num\<close> free bits in a row that fit, from the given index on or
  continuing the run it was given; and for \<open>num = 1\<close> it misses no free bit that fits.\<close>

lemma bit_scan_sound:
  assumes "bit_scan isfree fits num r k found start = Some b"
    and "found \<noteq> 0 \<Longrightarrow> start + found = k" and "found \<noteq> 0 \<Longrightarrow> \<forall>i. start \<le> i \<and> i < k \<longrightarrow> isfree i"
  shows "fits b \<and> b + num \<le> k + r \<and> (\<forall>i. b \<le> i \<and> i < b + num \<longrightarrow> isfree i)"
  using assms
proof (induction r arbitrary: k found start)
  case 0
  then show ?case by simp
next
  case (Suc r)
  let ?s = "if found = 0 then k else start"
  show ?case
  proof (cases "isfree k")
    case False
    with Suc.prems(1) have "bit_scan isfree fits num r (Suc k) 0 start = Some b" by simp
    from Suc.IH [OF this] show ?thesis by simp
  next
    case True
    have run: "?s + Suc found = Suc k" "\<forall>i. ?s \<le> i \<and> i < Suc k \<longrightarrow> isfree i"
      using Suc.prems(2,3) True by (auto simp: less_Suc_eq)
    show ?thesis
    proof (cases "Suc found = num \<and> fits ?s")
      case True
      with Suc.prems(1) \<open>isfree k\<close> have "b = ?s" by (simp add: Let_def)
      with True run show ?thesis by (auto simp: Let_def)
    next
      case False
      with Suc.prems(1) \<open>isfree k\<close>
      consider "bit_scan isfree fits num r (Suc k) 0 ?s = Some b"
        | "bit_scan isfree fits num r (Suc k) (Suc found) ?s = Some b"
        by (cases "Suc found = num") (simp_all add: Let_def)
      then show ?thesis
      proof cases
        case 1
        from Suc.IH [OF this] show ?thesis by simp
      next
        case 2
        from Suc.IH [OF this] run show ?thesis by simp
      qed
    qed
  qed
qed

lemma bit_scan_single_complete:
  "bit_scan isfree fits 1 r k 0 start = None \<Longrightarrow> k \<le> i \<Longrightarrow> i < k + r \<Longrightarrow> isfree i \<Longrightarrow> \<not> fits i"
proof (induction r arbitrary: k start)
  case (Suc r)
  show ?case
  proof (cases "i = k")
    case True
    with Suc.prems show ?thesis by (auto simp: Let_def split: if_splits)
  next
    case False
    with Suc show ?thesis by (auto simp: Let_def split: if_splits)
  qed
qed simp

section \<open>The frames behind the bits\<close>

text \<open>The physical addresses of the frames of the regions, in the order of their bits.\<close>

definition region_frames :: "memory_map \<Rightarrow> nat list" where
  "region_frames e = map (\<lambda>k. unat (mm_addr e) + 4096 * k) [0..<unat (mm_len e) div 4096]"

definition frames :: "memory_map list \<Rightarrow> nat list" where
  "frames es = concat (map region_frames es)"

text \<open>The table after \<open>pfa_init\<close>: page-aligned regions in ascending order that do not overlap and
  do not reach the top of the address space.\<close>

fun mmap_ok :: "nat \<Rightarrow> memory_map list \<Rightarrow> bool" where
  "mmap_ok lo [] \<longleftrightarrow> True"
| "mmap_ok lo (e # es) \<longleftrightarrow>
     lo \<le> unat (mm_addr e) \<and> 4096 dvd unat (mm_addr e) \<and> 4096 dvd unat (mm_len e) \<and>
     unat (mm_addr e) + unat (mm_len e) < 2 ^ 32 \<and>
     mmap_ok (unat (mm_addr e) + unat (mm_len e)) es"

lemma frames_simps [simp]:
  "frames [] = []" "frames (e # es) = region_frames e @ frames es"
  by (simp_all add: frames_def)

lemma length_region_frames: "4096 dvd unat (mm_len e) \<Longrightarrow> 4096 * length (region_frames e) = unat (mm_len e)"
  by (simp add: region_frames_def)

lemma length_frames_bound: "mmap_ok lo es \<Longrightarrow> lo < 2 ^ 32 \<Longrightarrow> lo + 4096 * length (frames es) < 2 ^ 32"
proof (induction es arbitrary: lo)
  case (Cons e es)
  from Cons.prems have "unat (mm_addr e) + unat (mm_len e) + 4096 * length (frames es) < 2 ^ 32"
    using Cons.IH [of "unat (mm_addr e) + unat (mm_len e)"] by simp
  with Cons.prems length_region_frames [of e] show ?case by (simp add: algebra_simps)
qed simp

lemma region_frames_bounds:
  assumes "p \<in> set (region_frames e)" and "4096 dvd unat (mm_addr e)"
  shows "unat (mm_addr e) \<le> p" and "p + 4096 \<le> unat (mm_addr e) + unat (mm_len e)" and "4096 dvd p"
proof -
  from assms(1) obtain k where k: "p = unat (mm_addr e) + 4096 * k" "k < unat (mm_len e) div 4096"
    by (auto simp: region_frames_def)
  then show "unat (mm_addr e) \<le> p" and "4096 dvd p" using assms(2) by simp_all
  have "Suc k * 4096 \<le> unat (mm_len e) div 4096 * 4096" using k(2) by (intro mult_le_mono1) simp
  also have "\<dots> \<le> unat (mm_len e)" by simp
  finally show "p + 4096 \<le> unat (mm_addr e) + unat (mm_len e)" using k(1) by simp
qed

lemma frames_bounds:
  "mmap_ok lo es \<Longrightarrow> p \<in> set (frames es) \<Longrightarrow> lo \<le> p \<and> p + 4096 < 2 ^ 32 \<and> 4096 dvd p"
proof (induction es arbitrary: lo)
  case (Cons e es)
  show ?case
  proof (cases "p \<in> set (region_frames e)")
    case True
    with Cons.prems region_frames_bounds [of p e] show ?thesis by simp
  next
    case False
    with Cons.prems Cons.IH [of "unat (mm_addr e) + unat (mm_len e)"] show ?thesis by simp
  qed
qed simp

lemma distinct_region_frames: "distinct (region_frames e)"
  by (simp add: region_frames_def distinct_map inj_on_def)

lemma distinct_frames: "mmap_ok lo es \<Longrightarrow> distinct (frames es)"
proof (induction es arbitrary: lo)
  case (Cons e es)
  have "set (region_frames e) \<inter> set (frames es) = {}"
  proof (rule equals0I)
    fix p assume p: "p \<in> set (region_frames e) \<inter> set (frames es)"
    then have "p + 4096 \<le> unat (mm_addr e) + unat (mm_len e)"
      using Cons.prems region_frames_bounds [of p e] by simp
    moreover have "unat (mm_addr e) + unat (mm_len e) \<le> p"
      using p Cons.prems frames_bounds [of "unat (mm_addr e) + unat (mm_len e)" es p] by simp
    ultimately show False by simp
  qed
  with Cons.IH [of "unat (mm_addr e) + unat (mm_len e)"] Cons.prems show ?case
    by (simp add: distinct_region_frames)
qed simp

lemma paddr_for_idx_loop_eq:
  assumes "mmap_ok lo es" and "unat cur + 4096 * length (frames es) < 2 ^ 32"
    and "unat off = unat cur + 4096 * k"
  shows "paddr_for_idx_loop es cur off = (if k < length (frames es) then of_nat (frames es ! k) else 0)"
  using assms
proof (induction es arbitrary: lo cur k)
  case Nil
  then show ?case by simp
next
  case (Cons e es)
  let ?n = "length (region_frames e)"
  have len: "4096 * ?n = unat (mm_len e)" using Cons.prems(1) by (simp add: length_region_frames)
  have cl: "unat (cur + mm_len e) = unat cur + 4096 * ?n"
    using Cons.prems(2) len by (subst unat_add_nowrap) simp_all
  have guard: "cur + mm_len e \<le> off \<longleftrightarrow> ?n \<le> k"
    using Cons.prems(3) cl by (simp add: word_le_nat_alt)
  show ?case
  proof (cases "?n \<le> k")
    case True
    have "paddr_for_idx_loop es (cur + mm_len e) off =
        (if k - ?n < length (frames es) then of_nat (frames es ! (k - ?n)) else 0)"
      by (rule Cons.IH [of "unat (mm_addr e) + unat (mm_len e)"]) (use Cons.prems cl True in simp_all)
    moreover have "k - ?n < length (frames es) \<longleftrightarrow> k < length (frames (e # es))" using True by auto
    ultimately show ?thesis using True guard by (simp add: nth_append)
  next
    case False
    have "unat (off - cur) = 4096 * k" using Cons.prems(3) by (simp add: unat_sub_nowrap)
    then have "off - cur = of_nat (4096 * k)" using of_nat_unat_u32 [of "off - cur"] by simp
    moreover have "region_frames e ! k = unat (mm_addr e) + 4096 * k"
      using False by (simp add: region_frames_def)
    ultimately have "mm_addr e + (off - cur) = of_nat (region_frames e ! k)" by simp
    with False guard show ?thesis by (simp add: nth_append)
  qed
qed

lemma idx_for_paddr_loop_eq:
  assumes "mmap_ok lo es" and "unat off + 4096 * length (frames es) < 2 ^ 32"
    and "4096 dvd unat off" and "k < length (frames es)" and "unat p = frames es ! k"
  shows "unat (idx_for_paddr_loop l es off p) = unat off div 4096 + k"
  using assms
proof (induction es arbitrary: lo off k)
  case Nil
  then show ?case by simp
next
  case (Cons e es)
  let ?n = "length (region_frames e)"
  have len: "4096 * ?n = unat (mm_len e)" using Cons.prems(1) by (simp add: length_region_frames)
  have endp: "unat (mm_addr e + mm_len e) = unat (mm_addr e) + unat (mm_len e)"
    using Cons.prems(1) by (subst unat_add_nowrap) simp_all
  show ?case
  proof (cases "k < ?n")
    case True
    then have p: "unat p = unat (mm_addr e) + 4096 * k"
      using Cons.prems(5) by (simp add: nth_append) (simp add: region_frames_def)
    have guard: "p < mm_addr e + mm_len e"
      using True p len endp by (simp add: word_less_nat_alt)
    have d: "unat (p - mm_addr e) = 4096 * k" using p by (simp add: unat_sub_nowrap)
    have "unat (off + (p - mm_addr e)) = unat off + 4096 * k"
      using Cons.prems(2) True d by (subst unat_add_nowrap) simp_all
    with guard show ?thesis using Cons.prems(3) by (simp add: unat_div)
  next
    case False
    then have k': "k - ?n < length (frames es)" "unat p = frames es ! (k - ?n)"
      using Cons.prems(4,5) by (simp_all add: nth_append)
    then have "unat (mm_addr e) + unat (mm_len e) \<le> unat p"
      using Cons.prems(1) frames_bounds [of "unat (mm_addr e) + unat (mm_len e)" es "unat p"] by simp
    then have guard: "\<not> p < mm_addr e + mm_len e" using endp by (simp add: word_less_nat_alt)
    have off: "unat (off + mm_len e) = unat off + 4096 * ?n"
      using Cons.prems(2) len by (subst unat_add_nowrap) simp_all
    have "unat (idx_for_paddr_loop l es (off + mm_len e) p) = unat (off + mm_len e) div 4096 + (k - ?n)"
      by (rule Cons.IH) (use Cons.prems off k' in auto)
    with guard False off show ?thesis by simp
  qed
qed

lemma fits_loop_eq:
  assumes "mmap_ok lo es" and "unat cur + 4096 * length (frames es) < 2 ^ 32"
    and "unat off = unat cur + 4096 * k" and "0 < unat n" and "k + unat n < 2 ^ 20"
    and "fits_in_one_mmap_entry_loop es cur off n"
  shows "k + unat n \<le> length (frames es) \<and>
         (\<forall>i < unat n. frames es ! (k + i) = frames es ! k + 4096 * i)"
  using assms
proof (induction es arbitrary: lo cur k)
  case Nil
  then show ?case by simp
next
  case (Cons e es)
  let ?n = "length (region_frames e)"
  have len: "4096 * ?n = unat (mm_len e)" using Cons.prems(1) by (simp add: length_region_frames)
  have cl: "unat (cur + mm_len e) = unat cur + 4096 * ?n"
    using Cons.prems(2) len by (subst unat_add_nowrap) simp_all
  have guard: "cur + mm_len e \<le> off \<longleftrightarrow> ?n \<le> k"
    using Cons.prems(3) cl by (simp add: word_le_nat_alt)
  show ?case
  proof (cases "?n \<le> k")
    case True
    have "k - ?n + unat n \<le> length (frames es) \<and>
         (\<forall>i < unat n. frames es ! (k - ?n + i) = frames es ! (k - ?n) + 4096 * i)"
      by (rule Cons.IH [of _ "cur + mm_len e"]) (use Cons.prems cl True guard in auto)
    with True show ?thesis by (auto simp: nth_append)
  next
    case False
    have oc: "unat (off - cur) = 4096 * k" using Cons.prems(3) by (simp add: unat_sub_nowrap)
    have nm: "unat (n * 4096) = unat n * 4096"
      using Cons.prems(5) by (subst unat_mult_nowrap) simp_all
    have "unat (off - cur + n * 4096) = 4096 * k + unat n * 4096"
      using Cons.prems(5) oc nm by (subst unat_add_nowrap) simp_all
    then have le: "k + unat n \<le> ?n"
      using Cons.prems(6) False guard len by (simp add: word_le_nat_alt)
    then have "frames (e # es) ! (k + i) = unat (mm_addr e) + 4096 * (k + i)" if "i < unat n" for i
      using that by (simp add: nth_append) (simp add: region_frames_def)
    from this [of 0] this le Cons.prems(4) show ?thesis by simp
  qed
qed

lemma fits_loop_single:
  assumes "mmap_ok lo es" and "unat cur + 4096 * length (frames es) < 2 ^ 32"
    and "unat off = unat cur + 4096 * k" and "k < length (frames es)"
  shows "fits_in_one_mmap_entry_loop es cur off 1"
  using assms
proof (induction es arbitrary: lo cur k)
  case (Cons e es)
  let ?n = "length (region_frames e)"
  have len: "4096 * ?n = unat (mm_len e)" using Cons.prems(1) by (simp add: length_region_frames)
  have cl: "unat (cur + mm_len e) = unat cur + 4096 * ?n"
    using Cons.prems(2) len by (subst unat_add_nowrap) simp_all
  have guard: "cur + mm_len e \<le> off \<longleftrightarrow> ?n \<le> k"
    using Cons.prems(3) cl by (simp add: word_le_nat_alt)
  show ?case
  proof (cases "?n \<le> k")
    case True
    have "fits_in_one_mmap_entry_loop es (cur + mm_len e) off 1"
      by (rule Cons.IH [of _ _ "k - ?n"]) (use Cons.prems cl True in auto)
    with True guard show ?thesis by simp
  next
    case False
    have "unat (off - cur) = 4096 * k" using Cons.prems(3) by (simp add: unat_sub_nowrap)
    then have "unat (off - cur + 4096) = 4096 * k + 4096"
      using Cons.prems(2,4) False len by (subst unat_add_nowrap) simp_all
    with False guard len show ?thesis by (simp add: word_le_nat_alt)
  qed
qed simp

section \<open>Invariant and abstraction\<close>

definition pfa_inv :: "pfa_state \<Rightarrow> bool" where
  "pfa_inv s \<longleftrightarrow> mmap_ok 0x100000 (mmap_used s) \<and> pf_len s \<noteq> 0 \<and>
     unat (pf_len s) = length (frames (mmap_used s))"

definition frame_addr :: "pfa_state \<Rightarrow> nat \<Rightarrow> u32" where
  "frame_addr s k = of_nat (frames (mmap_used s) ! k)"

definition managed_frames :: "pfa_state \<Rightarrow> u32 set" where
  "managed_frames s = frame_addr s ` {..<unat (pf_len s)}"

definition free_frames :: "pfa_state \<Rightarrow> u32 set" where
  "free_frames s = frame_addr s ` {k. k < unat (pf_len s) \<and> free_at s k}"

lemma pfa_len_bound: "pfa_inv s \<Longrightarrow> unat (pf_len s) < 2 ^ 20 - 256"
  using length_frames_bound [of "0x100000" "mmap_used s"] by (simp add: pfa_inv_def)

lemma unat_frame_addr:
  assumes "pfa_inv s" and "k < unat (pf_len s)"
  shows "unat (frame_addr s k) = frames (mmap_used s) ! k" and "frame_addr s k \<noteq> 0"
    and "4096 dvd unat (frame_addr s k)"
proof -
  have "frames (mmap_used s) ! k \<in> set (frames (mmap_used s))"
    using assms by (simp add: pfa_inv_def)
  with assms(1) have b: "0x100000 \<le> frames (mmap_used s) ! k" "frames (mmap_used s) ! k + 4096 < 2 ^ 32"
      "4096 dvd frames (mmap_used s) ! k"
    using frames_bounds unfolding pfa_inv_def by blast+
  show u: "unat (frame_addr s k) = frames (mmap_used s) ! k"
    unfolding frame_addr_def using b by (intro unat_of_nat_small) simp
  show "4096 dvd unat (frame_addr s k)" using u b by simp
  show "frame_addr s k \<noteq> 0" using u b by (auto simp: unat_eq_zero [symmetric])
qed

lemma frame_addr_inj:
  "pfa_inv s \<Longrightarrow> i < unat (pf_len s) \<Longrightarrow> j < unat (pf_len s) \<Longrightarrow> frame_addr s i = frame_addr s j \<longleftrightarrow> i = j"
  using distinct_frames [of "0x100000" "mmap_used s"] unat_frame_addr(1) [of s]
  by (metis nth_eq_iff_index_eq pfa_inv_def)

lemma idx_offset: "k < 2 ^ 20 \<Longrightarrow> unat (of_nat k * 4096 :: u32) = 4096 * k"
  using unat_mult_nowrap [of "of_nat k :: u32" 4096] by (simp add: unat_of_nat_small)

lemma paddr_for_idx_eq:
  assumes "pfa_inv s" and "k < 2 ^ 20"
  shows "paddr_for_idx s (of_nat k) = (if k < unat (pf_len s) then frame_addr s k else 0)"
proof -
  have "4096 * length (frames (mmap_used s)) < 2 ^ 32"
    using assms(1) pfa_len_bound [OF assms(1)] by (simp add: pfa_inv_def)
  with paddr_for_idx_loop_eq [of "0x100000" "mmap_used s" 0 "of_nat k * 4096" k] assms idx_offset [OF assms(2)]
  show ?thesis by (simp add: paddr_for_idx_def frame_addr_def pfa_inv_def)
qed

lemma idx_for_paddr_eq:
  assumes "pfa_inv s" and "k < unat (pf_len s)"
  shows "idx_for_paddr s (frame_addr s k) = of_nat k"
proof -
  have "4096 * length (frames (mmap_used s)) < 2 ^ 32"
    using assms(1) pfa_len_bound [OF assms(1)] by (simp add: pfa_inv_def)
  then have "unat (idx_for_paddr s (frame_addr s k)) = k"
    using idx_for_paddr_loop_eq [of "0x100000" "mmap_used s" 0 k "frame_addr s k" "pf_len s"] assms
      unat_frame_addr(1) [OF assms]
    by (simp add: idx_for_paddr_def pfa_inv_def)
  then show ?thesis by (metis of_nat_unat_u32)
qed

lemma fits_at_block:
  assumes "pfa_inv s" and "num \<noteq> 0" and "b + unat num < 2 ^ 20" and "fits_at s num b"
  shows "b + unat num \<le> unat (pf_len s)"
    and "i < unat num \<Longrightarrow> frame_addr s (b + i) = frame_addr s b + 4096 * of_nat i"
proof -
  have "4096 * length (frames (mmap_used s)) < 2 ^ 32"
    using assms(1) pfa_len_bound [OF assms(1)] by (simp add: pfa_inv_def)
  moreover have "0 < unat num" using assms(2) by (simp add: unat_gt_0)
  moreover have "unat (of_nat b * 4096 :: u32) = 4096 * b" using assms(3) by (intro idx_offset) simp
  ultimately have *: "b + unat num \<le> length (frames (mmap_used s)) \<and>
       (\<forall>i < unat num. frames (mmap_used s) ! (b + i) = frames (mmap_used s) ! b + 4096 * i)"
    using fits_loop_eq [of "0x100000" "mmap_used s" 0 "of_nat b * 4096" b num] assms
    by (simp add: fits_in_one_mmap_entry_def pfa_inv_def)
  then show "b + unat num \<le> unat (pf_len s)" using assms(1) by (simp add: pfa_inv_def)
  show "i < unat num \<Longrightarrow> frame_addr s (b + i) = frame_addr s b + 4096 * of_nat i"
    using * by (simp add: frame_addr_def)
qed

lemma fits_at_single:
  assumes "pfa_inv s" and "k < unat (pf_len s)"
  shows "fits_at s 1 k"
proof -
  have "4096 * length (frames (mmap_used s)) < 2 ^ 32" "k < 2 ^ 20"
    using assms pfa_len_bound [OF assms(1)] by (simp_all add: pfa_inv_def)
  then show ?thesis
    using fits_loop_single [of "0x100000" "mmap_used s" 0 "of_nat k * 4096" k] assms idx_offset [of k]
    by (simp add: fits_in_one_mmap_entry_def pfa_inv_def)
qed

lemma same_table_simps:
  assumes "mmap s' = mmap s" and "mmap_len s' = mmap_len s" and "pf_len s' = pf_len s"
  shows "mmap_used s' = mmap_used s" "frame_addr s' k = frame_addr s k"
    "managed_frames s' = managed_frames s" "pfa_inv s' = pfa_inv s"
  using assms by (simp_all add: mmap_used_def frame_addr_def managed_frames_def pfa_inv_def)

lemmas toggle_table_simps [simp] =
  same_table_simps [of "toggle_bit s i" s for s i, simplified]
  same_table_simps [of "toggle_bits s i n" s for s i n, simplified]

section \<open>Allocation\<close>

lemma bit_scan_zero: "bit_scan isfree fits 0 r k found start = None"
  by (induction r arbitrary: k found start) (auto simp: Let_def)

lemma cells_bound:
  assumes "pfa_inv s"
  shows "div_ceil (pf_len s) 32 \<le> 0x7FFFFFF" and "32 * unat (div_ceil (pf_len s) 32) < 2 ^ 20"
    and "unat (pf_len s) \<le> 32 * unat (div_ceil (pf_len s) 32)"
proof -
  have u: "unat (div_ceil (pf_len s) 32) = (unat (pf_len s) + 31) div 32"
    using assms unat_div_ceil [of "pf_len s" 32] by (simp add: pfa_inv_def)
  with pfa_len_bound [OF assms]
  show "div_ceil (pf_len s) 32 \<le> 0x7FFFFFF" "32 * unat (div_ceil (pf_len s) 32) < 2 ^ 20"
    "unat (pf_len s) \<le> 32 * unat (div_ceil (pf_len s) 32)"
    by (simp_all add: word_le_nat_alt)
qed

lemma allocate_scan:
  assumes "pfa_inv s"
  shows "map_option unat (pfa_scan s num 0 (div_ceil (pf_len s) 32) 0 0) =
         bit_scan (free_at s) (fits_at s num) (unat num) (32 * unat (div_ceil (pf_len s) 32)) 0 0 0"
  using pfa_scan_refines [OF cells_bound(1) [OF assms], of 0 0 s num 0] by simp

text \<open>The two outcomes of an allocation: no run was found and nothing changed, or a run of
  frames that were free, lie in one region and are marked used.\<close>

lemma pfa_allocate_cases:
  assumes "pfa_inv s"
  obtains (failed) "pfa_allocate s num = (s, 0)"
      "bit_scan (free_at s) (fits_at s num) (unat num) (32 * unat (div_ceil (pf_len s) 32)) 0 0 0 = None"
  | (block) b where "pfa_allocate s num = (toggle_bits s (of_nat b) num, frame_addr s b)"
      "num \<noteq> 0" "b + unat num \<le> unat (pf_len s)"
      "\<And>i. b \<le> i \<Longrightarrow> i < b + unat num \<Longrightarrow> free_at s i"
      "\<And>i. i < unat num \<Longrightarrow> frame_addr s (b + i) = frame_addr s b + 4096 * of_nat i"
proof (cases "pfa_scan s num 0 (div_ceil (pf_len s) 32) 0 0")
  case None
  with allocate_scan [OF assms, of num] show ?thesis by (intro failed) (simp_all add: pfa_allocate_def)
next
  case (Some w)
  with allocate_scan [OF assms, of num]
  have sc: "bit_scan (free_at s) (fits_at s num) (unat num) (32 * unat (div_ceil (pf_len s) 32)) 0 0 0 = Some (unat w)"
    by simp
  then have num: "num \<noteq> 0" by (auto simp: bit_scan_zero)
  from bit_scan_sound [OF sc] have w: "fits_at s num (unat w)"
      "unat w + unat num \<le> 32 * unat (div_ceil (pf_len s) 32)"
      "\<forall>i. unat w \<le> i \<and> i < unat w + unat num \<longrightarrow> free_at s i" by simp_all
  then have lt: "unat w + unat num < 2 ^ 20" using cells_bound(2) [OF assms] by simp
  note blk = fits_at_block [OF assms num lt w(1)]
  have "paddr_for_idx s w = frame_addr s (unat w)"
    using paddr_for_idx_eq [OF assms, of "unat w"] blk(1) lt num unat_gt_0 [of num] by simp
  with Some have "pfa_allocate s num = (toggle_bits s (of_nat (unat w)) num, frame_addr s (unat w))"
    by (simp add: pfa_allocate_def)
  with num blk w(3) show ?thesis by (intro block) auto
qed

lemma unat_of_nat_idx: "k < 2 ^ 20 \<Longrightarrow> unat (of_nat k :: u32) = k"
  by (rule unat_of_nat_small) simp

lemma free_at_toggle_bits:
  assumes "pfa_inv s" and "b + unat num \<le> unat (pf_len s)" and "k < unat (pf_len s)"
  shows "free_at (toggle_bits s (of_nat b) num) k =
         (if b \<le> k \<and> k < b + unat num then \<not> free_at s k else free_at s k)"
proof -
  have u: "unat (of_nat b :: u32) = b" "unat (of_nat k :: u32) = k"
    using assms pfa_len_bound [OF assms(1)] by (simp_all add: unat_of_nat_idx)
  have "unat (of_nat b + num) = b + unat num"
    using assms u pfa_len_bound [OF assms(1)] by (subst unat_add_nowrap) simp_all
  with u show ?thesis by (simp add: frame_bit_toggle_bits word_le_nat_alt word_less_nat_alt)
qed

lemma free_frames_toggle_block:
  assumes "pfa_inv s" and "b + unat num \<le> unat (pf_len s)"
    and free: "\<And>i. b \<le> i \<Longrightarrow> i < b + unat num \<Longrightarrow> free_at s i"
    and addr: "\<And>i. i < unat num \<Longrightarrow> frame_addr s (b + i) = frame_addr s b + 4096 * of_nat i"
  shows "frame_block (frame_addr s b) num \<subseteq> free_frames s"
    and "free_frames (toggle_bits s (of_nat b) num) = free_frames s - frame_block (frame_addr s b) num"
proof -
  have blk: "frame_block (frame_addr s b) num = frame_addr s ` {b..<b + unat num}"
  proof -
    have "frame_block (frame_addr s b) num = (\<lambda>i. frame_addr s (b + i)) ` {..<unat num}"
      unfolding frame_block_def using addr by (intro image_cong) simp_all
    also have "\<dots> = frame_addr s ` ((\<lambda>i. b + i) ` {..<unat num})" by (simp add: image_image)
    finally show ?thesis by (simp add: lessThan_atLeast0 image_add_atLeastLessThan add.commute)
  qed
  show "frame_block (frame_addr s b) num \<subseteq> free_frames s"
    unfolding blk free_frames_def using assms(2) free by (intro image_mono) auto
  have "{k. k < unat (pf_len s) \<and> free_at (toggle_bits s (of_nat b) num) k} =
        {k. k < unat (pf_len s) \<and> free_at s k} - {b..<b + unat num}"
    using free_at_toggle_bits [OF assms(1,2)] free by (auto split: if_splits)
  moreover have "inj_on (frame_addr s) {..<unat (pf_len s)}"
    using frame_addr_inj [OF assms(1)] by (auto simp: inj_on_def)
  ultimately show "free_frames (toggle_bits s (of_nat b) num) = free_frames s - frame_block (frame_addr s b) num"
    unfolding blk free_frames_def using assms(2)
    by (simp add: inj_on_image_set_diff [of _ "{..<unat (pf_len s)}"] subset_eq)
qed

lemma pfa_allocate_spec:
  assumes "pfa_inv s" and "pfa_allocate s num = (s', p)"
  shows "pfa_inv s'" and "managed_frames s' = managed_frames s"
    and "p = 0 \<Longrightarrow> s' = s"
    and "p \<noteq> 0 \<Longrightarrow> num \<noteq> 0 \<and> frame_block p num \<subseteq> free_frames s \<and>
           free_frames s' = free_frames s - frame_block p num"
proof -
  have "pfa_inv s' \<and> managed_frames s' = managed_frames s \<and> (p = 0 \<longrightarrow> s' = s) \<and>
    (p \<noteq> 0 \<longrightarrow> num \<noteq> 0 \<and> frame_block p num \<subseteq> free_frames s \<and>
           free_frames s' = free_frames s - frame_block p num)"
    using assms(1)
  proof (cases rule: pfa_allocate_cases [of s num])
    case failed
    with assms show ?thesis by simp
  next
    case (block b)
    have "b < unat (pf_len s)" using block(2,3) unat_gt_0 [of num] by linarith
    then have "frame_addr s b \<noteq> 0" by (rule unat_frame_addr(2) [OF assms(1)])
    with block assms free_frames_toggle_block [OF assms(1) block(3-5)] show ?thesis by simp
  qed
  then show "pfa_inv s'" "managed_frames s' = managed_frames s" "p = 0 \<Longrightarrow> s' = s"
    "p \<noteq> 0 \<Longrightarrow> num \<noteq> 0 \<and> frame_block p num \<subseteq> free_frames s \<and>
           free_frames s' = free_frames s - frame_block p num" by simp_all
qed

lemma pfa_allocate_one_complete:
  assumes "pfa_inv s" and "free_frames s \<noteq> {}"
  shows "snd (pfa_allocate s 1) \<noteq> 0"
  using assms(1)
proof (cases rule: pfa_allocate_cases [of s 1])
  case failed
  from assms(2) obtain k where k: "k < unat (pf_len s)" "free_at s k" by (auto simp: free_frames_def)
  have "\<not> fits_at s 1 k"
    by (rule bit_scan_single_complete [of "free_at s" _ "32 * unat (div_ceil (pf_len s) 32)" 0 0])
       (use failed(2) k cells_bound(3) [OF assms(1)] in auto)
  with fits_at_single [OF assms(1) k(1)] show ?thesis by simp
next
  case (block b)
  then show ?thesis using unat_frame_addr(2) [OF assms(1), of b] by simp
qed

lemma pfa_free_frame:
  assumes "pfa_inv s" and "k < unat (pf_len s)"
  shows "pfa_free s (frame_addr s k) = toggle_bit s (of_nat k)"
proof -
  have "(of_nat k :: u32) \<noteq> pf_len s"
    using assms pfa_len_bound [OF assms(1)] unat_of_nat_idx [of k] by auto
  then show ?thesis by (simp add: pfa_free_def idx_for_paddr_eq [OF assms] Let_def)
qed

lemma free_frames_iff:
  "q \<in> free_frames s \<longleftrightarrow> (\<exists>i. i < unat (pf_len s) \<and> q = frame_addr s i \<and> free_at s i)"
  by (auto simp: free_frames_def)

lemma free_set_toggle:
  assumes "k < unat (pf_len s)" and "p = frame_addr s k"
    and inj: "\<And>i. i < unat (pf_len s) \<Longrightarrow> frame_addr s i = p \<longleftrightarrow> i = k"
    and bits: "\<And>i. i < unat (pf_len s) \<Longrightarrow>
        free_at (toggle_bit s (of_nat k)) i = (if i = k then \<not> free_at s k else free_at s i)"
  shows "free_frames (toggle_bit s (of_nat k)) =
         (if p \<in> free_frames s then free_frames s - {p} else insert p (free_frames s))"
proof -
  let ?t = "toggle_bit s (of_nat k)"
  have t: "frame_addr ?t i = frame_addr s i" "pf_len ?t = pf_len s" for i by simp_all
  have at: "q \<in> free_frames s \<longleftrightarrow> free_at s i" "q \<in> free_frames ?t \<longleftrightarrow> free_at ?t i"
    if "i < unat (pf_len s)" "q = frame_addr s i"
      "\<And>j. j < unat (pf_len s) \<Longrightarrow> frame_addr s j = q \<Longrightarrow> j = i" for i q
    unfolding free_frames_iff t using that by blast+
  show ?thesis
  proof (rule set_eqI)
    fix q
    show "q \<in> free_frames ?t \<longleftrightarrow>
        q \<in> (if p \<in> free_frames s then free_frames s - {p} else insert p (free_frames s))"
    proof (cases "q = p")
      case True
      from at [OF assms(1,2)] inj bits [OF assms(1)] have "p \<in> free_frames s \<longleftrightarrow> free_at s k"
        "p \<in> free_frames ?t \<longleftrightarrow> \<not> free_at s k" by simp_all
      with True show ?thesis by simp
    next
      case False
      have "q \<in> free_frames ?t \<longleftrightarrow> q \<in> free_frames s"
        unfolding free_frames_iff t
      proof (intro ex_cong1 conj_cong refl)
        fix i assume "i < unat (pf_len s)" "q = frame_addr s i"
        then have "i \<noteq> k" using False assms(2) by blast
        with bits [OF \<open>i < _\<close>] show "free_at ?t i = free_at s i" by simp
      qed
      with False show ?thesis by simp
    qed
  qed
qed

lemma free_frames_pfa_free:
  assumes "pfa_inv s" and "p \<in> managed_frames s"
  shows "free_frames (pfa_free s p) = (if p \<in> free_frames s then free_frames s - {p} else insert p (free_frames s))"
    and "pfa_inv (pfa_free s p)" and "managed_frames (pfa_free s p) = managed_frames s"
proof -
  from assms(2) obtain k where k: "k < unat (pf_len s)" "p = frame_addr s k"
    by (auto simp: managed_frames_def)
  have f: "pfa_free s p = toggle_bit s (of_nat k)" using pfa_free_frame [OF assms(1) k(1)] k(2) by simp
  show "pfa_inv (pfa_free s p)" "managed_frames (pfa_free s p) = managed_frames s"
    using assms(1) by (simp_all add: f)
  have inj: "frame_addr s i = p \<longleftrightarrow> i = k" if "i < unat (pf_len s)" for i
    using frame_addr_inj [OF assms(1) that k(1)] k(2) by simp
  have bits: "free_at (toggle_bit s (of_nat k)) i = (if i = k then \<not> free_at s k else free_at s i)"
    if "i < unat (pf_len s)" for i
  proof -
    have "(of_nat k = (of_nat i :: u32)) \<longleftrightarrow> i = k"
      using that k(1) pfa_len_bound [OF assms(1)] unat_of_nat_idx [of i] unat_of_nat_idx [of k] by auto
    then show ?thesis by (auto simp: frame_bit_toggle_bit)
  qed
  show "free_frames (pfa_free s p) = (if p \<in> free_frames s then free_frames s - {p} else insert p (free_frames s))"
    unfolding f by (rule free_set_toggle) (use k inj bits in auto)
qed

interpretation pfa: frame_allocator pfa_inv managed_frames free_frames pfa_allocate pfa_free
proof unfold_locales
  fix s n s' p
  assume "pfa_inv s"
  show "free_frames s \<subseteq> managed_frames s" by (auto simp: free_frames_def managed_frames_def)
  show "p \<in> managed_frames s \<Longrightarrow> p \<noteq> 0 \<and> 4096 dvd unat p"
    using unat_frame_addr [OF \<open>pfa_inv s\<close>] by (auto simp: managed_frames_def)
  show "free_frames s \<noteq> {} \<Longrightarrow> snd (pfa_allocate s 1) \<noteq> 0"
    by (rule pfa_allocate_one_complete [OF \<open>pfa_inv s\<close>])
qed (use pfa_allocate_spec free_frames_pfa_free in auto)

section \<open>Releasing a block\<close>

lemma block_offsets_inj:
  assumes "i < 2 ^ 20" and "j < 2 ^ 20" and "p + 4096 * of_nat i = p + 4096 * (of_nat j :: u32)"
  shows "i = j"
proof -
  have "unat (of_nat i * 4096 :: u32) = unat (of_nat j * 4096 :: u32)"
    using assms(3) by (simp add: mult.commute)
  then show ?thesis using idx_offset [OF assms(1)] idx_offset [OF assms(2)] by simp
qed

lemma pfa_free_cont_loop_block:
  assumes "pfa_inv s" and "i \<le> n" and "unat n < 2 ^ 20"
    and "\<And>k. unat i \<le> k \<Longrightarrow> k < unat n \<Longrightarrow>
           p + 4096 * of_nat k \<in> managed_frames s \<and> p + 4096 * of_nat k \<notin> free_frames s"
  shows "free_frames (pfa_free_cont_loop s p i n) =
           free_frames s \<union> (\<lambda>k. p + 4096 * of_nat k) ` {unat i..<unat n} \<and>
         pfa_inv (pfa_free_cont_loop s p i n)"
  using assms
proof (induction s p i n rule: pfa_free_cont_loop.induct)
  case (1 s p i n)
  show ?case
  proof (cases "i < n")
    case False
    with "1.prems" show ?thesis by (subst (1 2) pfa_free_cont_loop.simps) simp
  next
    case True
    let ?q = "p + 4096 * of_nat (unat i)" and ?s = "pfa_free s (p + i * 4096)"
    have lt: "unat i < unat n" using True by (simp add: word_less_nat_alt)
    have q: "p + i * 4096 = ?q" by (simp add: mult.commute)
    have m: "?q \<in> managed_frames s" "?q \<notin> free_frames s" using "1.prems"(4) [OF le_refl lt] by blast+
    have rel: "free_frames ?s = insert ?q (free_frames s)" "pfa_inv ?s" "managed_frames ?s = managed_frames s"
      unfolding q using free_frames_pfa_free [OF "1.prems"(1) m(1)] m(2) by simp_all
    have inc: "unat (i + 1) = Suc (unat i)" by (rule unat_inc [OF True])
    then have le: "i + 1 \<le> n" using lt by (simp add: word_le_nat_alt)
    have rest: "p + 4096 * of_nat k \<in> managed_frames ?s \<and> p + 4096 * of_nat k \<notin> free_frames ?s"
      if "unat (i + 1) \<le> k" "k < unat n" for k
    proof -
      have "p + 4096 * of_nat k \<noteq> ?q"
        using block_offsets_inj [of k "unat i" p] that inc "1.prems"(3) by auto
      with rel "1.prems"(4) [of k] that inc show ?thesis by simp
    qed
    have IH: "free_frames (pfa_free_cont_loop ?s p (i + 1) n) =
           free_frames ?s \<union> (\<lambda>k. p + 4096 * of_nat k) ` {unat (i + 1)..<unat n} \<and>
         pfa_inv (pfa_free_cont_loop ?s p (i + 1) n)"
      by (rule "1.IH" [OF True rel(2) le "1.prems"(3) rest])
    have "{unat i..<unat n} = insert (unat i) {unat (i + 1)..<unat n}" using lt inc by auto
    with IH rel(1) True show ?thesis
      by (subst (1 2) pfa_free_cont_loop.simps) simp
  qed
qed

lemma pfa_free_cont_block:
  assumes "pfa_inv s" and "unat n < 2 ^ 20" and "frame_block p n \<subseteq> managed_frames s - free_frames s"
  shows "free_frames (pfa_free_cont s p n) = free_frames s \<union> frame_block p n"
    and "pfa_inv (pfa_free_cont s p n)"
proof -
  have "p + 4096 * of_nat k \<in> managed_frames s \<and> p + 4096 * of_nat k \<notin> free_frames s"
    if "k < unat n" for k
    using assms(3) that unfolding frame_block_def by blast
  then have "free_frames (pfa_free_cont_loop s p 0 n) =
           free_frames s \<union> (\<lambda>k. p + 4096 * of_nat k) ` {unat (0::u32)..<unat n} \<and>
         pfa_inv (pfa_free_cont_loop s p 0 n)"
    using pfa_free_cont_loop_block [OF assms(1) _ assms(2), of 0 p] by simp
  then show "free_frames (pfa_free_cont s p n) = free_frames s \<union> frame_block p n"
    and "pfa_inv (pfa_free_cont s p n)"
    by (simp_all add: pfa_free_cont_def frame_block_def lessThan_atLeast0)
qed

section \<open>Properties\<close>

text \<open>An example: two regions of four and two frames, all free, with the bitmap in one cell.\<close>

definition example_pfa :: pfa_state where
  "example_pfa = \<lparr>pf_start = 0xC0500000, pf_len = 6,
     mmap = [\<lparr>mm_addr = 0x200000, mm_len = 0x4000\<rparr>, \<lparr>mm_addr = 0x400000, mm_len = 0x2000\<rparr>],
     mmap_len = 2, pf_mem = (\<lambda>_. 0)(0xC0500003 := 0xFC)\<rparr>"

lemma example_frames:
  "frames (mmap_used example_pfa) = [0x200000, 0x201000, 0x202000, 0x203000, 0x400000, 0x401000]"
  by (simp add: example_pfa_def mmap_used_def region_frames_def upt_conv_Cons)

lemma example_pfa_inv: "pfa_inv example_pfa"
  unfolding pfa_inv_def example_frames by (simp add: example_pfa_def mmap_used_def)

text \<open>C30. The cell-by-cell scan of \<open>pfa_allocate\<close>, with its shortcut for cells without a free
  frame, finds exactly what a scan bit by bit finds.\<close>

theorem pfa_scan_equivalent:
  assumes "pfa_inv s"
  shows "map_option unat (pfa_scan s num 0 (div_ceil (pf_len s) 32) 0 0) =
         bit_scan (\<lambda>k. frame_bit s (of_nat k)) (\<lambda>k. fits_in_one_mmap_entry s (of_nat k) num)
           (unat num) (32 * unat (div_ceil (pf_len s) 32)) 0 0 0"
  by (rule allocate_scan [OF assms])

theorem pfa_scan_equivalent_witness:
  "map_option unat (pfa_scan example_pfa 2 0 (div_ceil (pf_len example_pfa) 32) 0 0) =
   bit_scan (\<lambda>k. frame_bit example_pfa (of_nat k)) (\<lambda>k. fits_in_one_mmap_entry example_pfa (of_nat k) 2)
     (unat (2::u32)) (32 * unat (div_ceil (pf_len example_pfa) 32)) 0 0 0"
  by (rule pfa_scan_equivalent [OF example_pfa_inv])

text \<open>C10. \<open>pfa_allocate\<close> returns either 0 and leaves the allocator as it was, or the address of a
  block of frames that were all free and are exactly the frames it takes; the address is
  page-aligned; the invariant is kept; and a request for one frame fails only when none is free.\<close>

theorem pfa_allocate_correct:
  assumes "pfa_inv s" and "pfa_allocate s num = (s', p)"
  shows "pfa_inv s' \<and> (p = 0 \<longrightarrow> s' = s) \<and>
         (p \<noteq> 0 \<longrightarrow> frame_block p num \<subseteq> free_frames s \<and> free_frames s' = free_frames s - frame_block p num
            \<and> 4096 dvd unat p) \<and>
         (num = 1 \<and> p = 0 \<longrightarrow> free_frames s = {})"
proof (intro conjI impI)
  assume "p \<noteq> 0"
  then have "p \<in> managed_frames s"
    using pfa.allocate_first [OF assms] pfa.allocate_block [OF assms] pfa.avail_managed [OF assms(1)] by blast
  then show "4096 dvd unat p" using pfa.managed_nonnull [OF assms(1)] by blast
next
  assume "num = 1 \<and> p = 0"
  then show "free_frames s = {}" using pfa.allocate_one [OF assms(1)] assms(2) by auto
qed (use pfa_allocate_spec [OF assms] in auto)

theorem pfa_allocate_correct_witness:
  "\<exists>s' p. pfa_allocate example_pfa 1 = (s', p) \<and> pfa_inv s' \<and>
     (p \<noteq> 0 \<longrightarrow> frame_block p 1 \<subseteq> free_frames example_pfa)"
proof -
  obtain s' p where "pfa_allocate example_pfa 1 = (s', p)" by fastforce
  with pfa_allocate_correct [OF example_pfa_inv this] show ?thesis by blast
qed

text \<open>Bit indices and frame addresses correspond one to one: \<open>idx_for_paddr\<close> inverts
  \<open>paddr_for_idx\<close> on every index below the length of the bitmap, and an index past it has no
  frame.\<close>

lemma pfa_index_roundtrip:
  assumes "pfa_inv s" and "k < 2 ^ 20"
  shows "if k < unat (pf_len s) then idx_for_paddr s (paddr_for_idx s (of_nat k)) = of_nat k
         else paddr_for_idx s (of_nat k) = 0"
  using paddr_for_idx_eq [OF assms] idx_for_paddr_eq [OF assms(1)] by simp

text \<open>C29. No frame is handed out twice: in any sequence of allocation requests the blocks
  returned are pairwise disjoint.\<close>

theorem pfa_blocks_disjoint:
  assumes "pfa_inv s" and "i < j" and "j < length (snd (allocate_seq pfa_allocate s ns))"
  shows "case_prod frame_block (snd (allocate_seq pfa_allocate s ns) ! i) \<inter>
         case_prod frame_block (snd (allocate_seq pfa_allocate s ns) ! j) = {}"
  by (rule pfa.allocate_seq_disjoint [OF assms])

theorem pfa_blocks_disjoint_witness:
  "frame_block 0x200000 2 \<inter> frame_block 0x202000 1 = {}"
proof -
  have "snd (allocate_seq pfa_allocate example_pfa [2, 1]) = [(0x200000, 2), (0x202000, 1)]"
    by code_simp
  with pfa_blocks_disjoint [OF example_pfa_inv, of 0 1 "[2, 1]"] show ?thesis by simp
qed

text \<open>C31. Releasing a block right after its allocation with \<open>pfa_free_cont\<close> makes exactly the
  frames free that were free before.\<close>

theorem pfa_allocate_free_cont:
  assumes "pfa_inv s" and "pfa_allocate s num = (s', p)" and "p \<noteq> 0"
  shows "free_frames (pfa_free_cont s' p num) = free_frames s \<and> pfa_inv (pfa_free_cont s' p num)"
proof -
  have "unat num < 2 ^ 20"
    using assms(1)
  proof (cases rule: pfa_allocate_cases [of s num])
    case failed
    with assms show ?thesis by simp
  next
    case (block b)
    with pfa_len_bound [OF assms(1)] show ?thesis by simp
  qed
  moreover note sp = pfa_allocate_spec [OF assms(1,2)]
  moreover have "frame_block p num \<subseteq> managed_frames s' - free_frames s'"
    using sp assms(3) pfa.avail_managed [OF assms(1)] by auto
  ultimately show ?thesis using pfa_free_cont_block [of s' num p] assms(3) by auto
qed

theorem pfa_allocate_free_cont_witness:
  "\<exists>s'. pfa_allocate example_pfa 2 = (s', 0x200000) \<and>
     free_frames (pfa_free_cont s' 0x200000 2) = free_frames example_pfa"
proof -
  have "snd (pfa_allocate example_pfa 2) = 0x200000" by code_simp
  then obtain s' where a: "pfa_allocate example_pfa 2 = (s', 0x200000)" by (metis prod.collapse)
  with pfa_allocate_free_cont [OF example_pfa_inv a] show ?thesis by auto
qed

text \<open>\<open>pfa_free\<close> flips the state of a frame it manages: a used frame becomes free, but a
  frame that is already free becomes used, so releasing a frame twice takes it away from the
  allocator.\<close>

lemma pfa_free_toggles:
  assumes "pfa_inv s" and "p \<in> managed_frames s"
  shows "free_frames (pfa_free s p) =
           (if p \<in> free_frames s then free_frames s - {p} else insert p (free_frames s))"
  by (rule free_frames_pfa_free(1) [OF assms])

end
