(* ===== verification/Paging.thy ===== *)
theory Paging
  imports Page_Frame_Allocator
begin

text \<open>
  Two-level page tables (\<open>paging.c\<close>). A page directory is reached through a pointer (its kernel
  virtual address); a page table has no address of its own and is reached by its physical frame,
  after the kernel maps that frame into the last page of its own page table, the temporary
  window at \<open>KERNEL_TMP_VADDR\<close>. The model keeps exactly that: \<open>pdts\<close> holds directories by
  pointer, \<open>pts\<close> holds the entries of page-table frames by physical address, and a load or a store
  through a \<open>pte_t *\<close> first resolves the pointer: the window resolves through the entry that the
  kernel page table holds for it at that moment, any other pointer is kernel data at a fixed
  distance from its physical address (\<open>loader.s\<close>). TLB invalidations are recorded in \<open>invlpgs\<close>.
\<close>

section \<open>Entries\<close>

record pde =
  pde_config :: u8
  pde_low_addr :: u8
  pde_high_addr :: u16

record pte =
  pte_config :: u8
  pte_middle :: u8
  pte_high_addr :: u16

abbreviation (input) NUM_ENTRIES :: u32 where "NUM_ENTRIES \<equiv> 1024"
abbreviation (input) PDT_SIZE :: u32 where "PDT_SIZE \<equiv> 4096"
abbreviation (input) PT_ENTRY_SIZE :: u32 where "PT_ENTRY_SIZE \<equiv> 0x1000"
abbreviation (input) PDT_ENTRY_SIZE :: u32 where "PDT_ENTRY_SIZE \<equiv> 0x400000"
abbreviation (input) KERNEL_TMP_PT_IDX :: u32 where "KERNEL_TMP_PT_IDX \<equiv> 1023"
abbreviation (input) KERNEL_TMP_VADDR :: u32 where "KERNEL_TMP_VADDR \<equiv> 0xC03FF000"
abbreviation (input) KERNEL_PT_PDT_IDX :: u32 where "KERNEL_PT_PDT_IDX \<equiv> 768"
abbreviation (input) PAGING_READ_ONLY :: u8 where "PAGING_READ_ONLY \<equiv> 0"
abbreviation (input) PAGING_READ_WRITE :: u8 where "PAGING_READ_WRITE \<equiv> 1"
abbreviation (input) PAGING_PL0 :: u8 where "PAGING_PL0 \<equiv> 0"
abbreviation (input) PAGING_PL3 :: u8 where "PAGING_PL3 \<equiv> 1"
abbreviation (input) PS_4KB :: u8 where "PS_4KB \<equiv> 0"

definition VIRTUAL_TO_PDT_IDX :: "u32 \<Rightarrow> u32" where
  "VIRTUAL_TO_PDT_IDX a = drop_bit 22 a AND 0x3FF"

definition VIRTUAL_TO_PT_IDX :: "u32 \<Rightarrow> u32" where
  "VIRTUAL_TO_PT_IDX a = drop_bit 12 a AND 0x3FF"

definition PDT_IDX_TO_VIRTUAL :: "u32 \<Rightarrow> u32" where
  "PDT_IDX_TO_VIRTUAL a = push_bit 22 a"

definition PT_IDX_TO_VIRTUAL :: "u32 \<Rightarrow> u32" where
  "PT_IDX_TO_VIRTUAL a = push_bit 12 a"

text \<open>\<open>IS_ENTRY_PRESENT\<close> and \<open>IS_ENTRY_PAGE_TABLE\<close> use the logical \<open>&&\<close>, so both only ask
  whether the configuration byte is 0.\<close>

definition pde_present :: "pde \<Rightarrow> bool" where
  "pde_present e \<longleftrightarrow> pde_config e \<noteq> 0"

definition pte_present :: "pte \<Rightarrow> bool" where
  "pte_present e \<longleftrightarrow> pte_config e \<noteq> 0"

definition pde_is_page_table :: "pde \<Rightarrow> bool" where
  "pde_is_page_table e \<longleftrightarrow> pde_config e = 0"

definition get_pt_paddr :: "pde \<Rightarrow> u32" where
  "get_pt_paddr e = push_bit 16 (ucast (pde_high_addr e)) OR
                    push_bit 8 (ucast (pde_low_addr e AND 0xF0))"

definition get_pf_paddr :: "pte \<Rightarrow> u32" where
  "get_pf_paddr e = push_bit 16 (ucast (pte_high_addr e)) OR
                    push_bit 8 (ucast (pte_middle e AND 0xF0))"

definition make_pde :: "u32 \<Rightarrow> u8 \<Rightarrow> u8 \<Rightarrow> u8 \<Rightarrow> pde" where
  "make_pde addr ps rw pl =
     \<lparr>pde_config = push_bit 7 (ps AND 1) OR push_bit 3 1 OR push_bit 2 (pl AND 1) OR
                   push_bit 1 (rw AND 1) OR 1,
      pde_low_addr = ucast (push_bit 4 (drop_bit 12 addr AND 0xF)),
      pde_high_addr = ucast (drop_bit 16 addr AND 0xFFFF)\<rparr>"

definition make_pte :: "u32 \<Rightarrow> u8 \<Rightarrow> u8 \<Rightarrow> pte" where
  "make_pte addr rw pl =
     \<lparr>pte_config = push_bit 3 1 OR push_bit 2 (1 AND pl) OR push_bit 1 (1 AND rw) OR 1,
      pte_middle = ucast (push_bit 4 (drop_bit 12 addr AND 0xF)),
      pte_high_addr = ucast (drop_bit 16 addr AND 0xFFFF)\<rparr>"

definition zero_pte :: pte where
  "zero_pte = \<lparr>pte_config = 0, pte_middle = 0, pte_high_addr = 0\<rparr>"

definition zero_pde :: pde where
  "zero_pde = \<lparr>pde_config = 0, pde_low_addr = 0, pde_high_addr = 0\<rparr>"

text \<open>An entry read and written as one \<open>uint32_t\<close>.\<close>

definition pte_to_u32 :: "pte \<Rightarrow> u32" where
  "pte_to_u32 e = ucast (pte_config e) OR push_bit 8 (ucast (pte_middle e)) OR
                  push_bit 16 (ucast (pte_high_addr e))"

definition u32_to_pte :: "u32 \<Rightarrow> pte" where
  "u32_to_pte w = \<lparr>pte_config = ucast w, pte_middle = ucast (drop_bit 8 w),
                   pte_high_addr = ucast (drop_bit 16 w)\<rparr>"

section \<open>State and accesses\<close>

record paging =
  kernel_pdt :: u32
  kernel_pt :: u32
  pdts :: "u32 \<Rightarrow> u32 \<Rightarrow> pde"
  pts :: "u32 \<Rightarrow> u32 \<Rightarrow> pte"
  pfa_st :: pfa_state
  invlpgs :: "u32 list"
  cr3 :: u32

definition kernel_pt_frame :: "paging \<Rightarrow> u32" where
  "kernel_pt_frame s = kernel_pt s - KERNEL_START_VADDR"

definition pt_frame :: "paging \<Rightarrow> u32 \<Rightarrow> u32" where
  "pt_frame s pt =
     (if pt = KERNEL_TMP_VADDR then get_pf_paddr (pts s (kernel_pt_frame s) KERNEL_TMP_PT_IDX)
      else pt - KERNEL_START_VADDR)"

definition load_pte :: "paging \<Rightarrow> u32 \<Rightarrow> u32 \<Rightarrow> pte" where
  "load_pte s pt n = pts s (pt_frame s pt) n"

definition store_pte :: "paging \<Rightarrow> u32 \<Rightarrow> u32 \<Rightarrow> pte \<Rightarrow> paging" where
  "store_pte s pt n e = s\<lparr>pts := (pts s)(pt_frame s pt := (pts s (pt_frame s pt))(n := e))\<rparr>"

definition store_pde :: "paging \<Rightarrow> u32 \<Rightarrow> u32 \<Rightarrow> pde \<Rightarrow> paging" where
  "store_pde s pdt n e = s\<lparr>pdts := (pdts s)(pdt := (pdts s pdt)(n := e))\<rparr>"

definition invalidate_page_table_entry :: "paging \<Rightarrow> u32 \<Rightarrow> paging" where
  "invalidate_page_table_entry s vaddr = s\<lparr>invlpgs := vaddr # invlpgs s\<rparr>"

definition create_pdt_entry :: "paging \<Rightarrow> u32 \<Rightarrow> u32 \<Rightarrow> u32 \<Rightarrow> u8 \<Rightarrow> u8 \<Rightarrow> u8 \<Rightarrow> paging" where
  "create_pdt_entry s pdt n addr ps rw pl = store_pde s pdt n (make_pde addr ps rw pl)"

definition create_pt_entry :: "paging \<Rightarrow> u32 \<Rightarrow> u32 \<Rightarrow> u32 \<Rightarrow> u8 \<Rightarrow> u8 \<Rightarrow> paging" where
  "create_pt_entry s pt n addr rw pl = store_pte s pt n (make_pte addr rw pl)"

section \<open>The temporary window\<close>

definition kernel_map_temporary_memory :: "paging \<Rightarrow> u32 \<Rightarrow> paging \<times> u32" where
  "kernel_map_temporary_memory s paddr =
     (invalidate_page_table_entry
        (create_pt_entry s (kernel_pt s) KERNEL_TMP_PT_IDX paddr PAGING_READ_WRITE PAGING_PL0)
        KERNEL_TMP_VADDR,
      KERNEL_TMP_VADDR)"

definition kernel_get_temporary_entry :: "paging \<Rightarrow> u32" where
  "kernel_get_temporary_entry s = pte_to_u32 (load_pte s (kernel_pt s) KERNEL_TMP_PT_IDX)"

definition kernel_set_temporary_entry :: "paging \<Rightarrow> u32 \<Rightarrow> paging" where
  "kernel_set_temporary_entry s entry =
     invalidate_page_table_entry (store_pte s (kernel_pt s) KERNEL_TMP_PT_IDX (u32_to_pte entry))
       KERNEL_TMP_VADDR"

definition get_pdt_paddr :: "paging \<Rightarrow> u32 \<Rightarrow> paging \<times> u32" where
  "get_pdt_paddr s pdt =
     (let kpdt_idx = VIRTUAL_TO_PDT_IDX pdt;
          kpt_paddr = get_pt_paddr (pdts s (kernel_pdt s) kpdt_idx);
          kpt_idx = VIRTUAL_TO_PT_IDX pdt;
          prev_tmp_entry = kernel_get_temporary_entry s;
          (s, kpt) = kernel_map_temporary_memory s kpt_paddr;
          pdt_paddr = get_pf_paddr (load_pte s kpt kpt_idx);
          s = kernel_set_temporary_entry s prev_tmp_entry
      in (s, pdt_paddr))"

definition paging_init :: "paging \<Rightarrow> u32 \<Rightarrow> u32 \<Rightarrow> paging \<times> u32" where
  "paging_init s kernel_pdt_vaddr kernel_pt_vaddr =
     (s\<lparr>kernel_pdt := kernel_pdt_vaddr, kernel_pt := kernel_pt_vaddr\<rparr>, 0)"

section \<open>Finding kernel address space\<close>

text \<open>\<open>org_i\<close> is written before it is read; the model starts it at 0.\<close>

function pt_find_loop :: "paging \<Rightarrow> u32 \<Rightarrow> u32 \<Rightarrow> u32 \<Rightarrow> u32 \<Rightarrow> u32 \<Rightarrow> u32 \<Rightarrow> u32" where
  "pt_find_loop s pdt_idx pt num_to_find i num_found org_i =
     (if i < NUM_ENTRIES then
        (if pte_present (load_pte s pt i) \<or> (pdt_idx = KERNEL_PT_PDT_IDX \<and> i = KERNEL_TMP_PT_IDX)
         then pt_find_loop s pdt_idx pt num_to_find (i + 1) 0 org_i
         else
           (let org_i = (if num_found = 0 then i else org_i);
                num_found = num_found + 1
            in if num_found = num_to_find
               then PDT_IDX_TO_VIRTUAL pdt_idx OR PT_IDX_TO_VIRTUAL org_i
               else pt_find_loop s pdt_idx pt num_to_find (i + 1) num_found org_i))
      else 0)"
  by pat_completeness auto
termination
  by (relation "measure (\<lambda>(s, d, pt, n, i, f, org). 1024 - unat i)") (auto intro: loop_measure)

declare pt_find_loop.simps [simp del]

definition pt_kernel_find_next_vaddr :: "paging \<Rightarrow> u32 \<Rightarrow> u32 \<Rightarrow> u32 \<Rightarrow> u32" where
  "pt_kernel_find_next_vaddr s pdt_idx pt sz =
     pt_find_loop s pdt_idx pt (align_up sz FOUR_KB div FOUR_KB) 0 0 0"

function pdt_find_loop :: "paging \<Rightarrow> u32 \<Rightarrow> u32 \<Rightarrow> paging \<times> u32" where
  "pdt_find_loop s sz pdt_idx =
     (if pdt_idx < NUM_ENTRIES then
        (let (s, vaddr) =
           (if pde_present (pdts s (kernel_pdt s) pdt_idx) then
              (let tmp_entry = kernel_get_temporary_entry s;
                   pt_paddr = get_pt_paddr (pdts s (kernel_pdt s) pdt_idx);
                   (s, pt_vaddr) = kernel_map_temporary_memory s pt_paddr;
                   vaddr = pt_kernel_find_next_vaddr s pdt_idx pt_vaddr sz
               in (kernel_set_temporary_entry s tmp_entry, vaddr))
            else (s, PDT_IDX_TO_VIRTUAL pdt_idx))
         in if vaddr \<noteq> 0 then (s, vaddr) else pdt_find_loop s sz (pdt_idx + 1))
      else (s, 0))"
  by pat_completeness auto
termination
  by (relation "measure (\<lambda>(s, sz, i). 1024 - unat i)") (auto intro: loop_measure)

declare pdt_find_loop.simps [simp del]

definition pdt_kernel_find_next_vaddr :: "paging \<Rightarrow> u32 \<Rightarrow> paging \<times> u32" where
  "pdt_kernel_find_next_vaddr s sz = pdt_find_loop s sz (VIRTUAL_TO_PDT_IDX KERNEL_START_VADDR)"

section \<open>Mapping\<close>

function pt_map_loop :: "paging \<Rightarrow> u32 \<Rightarrow> u32 \<Rightarrow> u32 \<Rightarrow> u32 \<Rightarrow> u8 \<Rightarrow> u8 \<Rightarrow> u32 \<Rightarrow> u32 \<Rightarrow> paging \<times> u32" where
  "pt_map_loop s pt pdt_idx paddr sz rw pl pt_idx mapped_size =
     (if mapped_size < sz \<and> pt_idx < NUM_ENTRIES then
        (if pte_present (load_pte s pt pt_idx) then (s, mapped_size)
         else if pdt_idx = KERNEL_PT_PDT_IDX \<and> pt_idx = KERNEL_TMP_PT_IDX then (s, mapped_size)
         else pt_map_loop (create_pt_entry s pt pt_idx paddr rw pl) pt pdt_idx
                (paddr + PT_ENTRY_SIZE) sz rw pl (pt_idx + 1) (mapped_size + PT_ENTRY_SIZE))
      else (s, mapped_size))"
  by pat_completeness auto
termination
  by (relation "measure (\<lambda>(s, pt, d, paddr, sz, rw, pl, i, m). 1024 - unat i)")
     (auto intro: loop_measure)

declare pt_map_loop.simps [simp del]

definition pt_map_memory :: "paging \<Rightarrow> u32 \<Rightarrow> u32 \<Rightarrow> u32 \<Rightarrow> u32 \<Rightarrow> u32 \<Rightarrow> u8 \<Rightarrow> u8 \<Rightarrow> paging \<times> u32" where
  "pt_map_memory s pt pdt_idx paddr vaddr sz rw pl =
     pt_map_loop s pt pdt_idx paddr sz rw pl (VIRTUAL_TO_PT_IDX vaddr) 0"

text \<open>One round of the loop of \<open>pdt_map_memory\<close>: \<open>Inl\<close> is one of its two \<open>return 0\<close>, \<open>Inr\<close> the
  size mapped in this page table.\<close>

definition pdt_map_round :: "paging \<Rightarrow> u32 \<Rightarrow> u32 \<Rightarrow> u32 \<Rightarrow> u32 \<Rightarrow> u8 \<Rightarrow> u8 \<Rightarrow> paging + paging \<times> u32" where
  "pdt_map_round s pdt paddr vaddr sz rw pl =
     (let pdt_idx = VIRTUAL_TO_PDT_IDX vaddr;
          tmp_entry = kernel_get_temporary_entry s;
          (pa, pt_paddr) =
            (if \<not> pde_present (pdts s pdt pdt_idx) then pfa_allocate (pfa_st s) 1
             else (pfa_st s, get_pt_paddr (pdts s pdt pdt_idx)))
      in if \<not> pde_present (pdts s pdt pdt_idx) \<and> pt_paddr = 0 then Inl (s\<lparr>pfa_st := pa\<rparr>)
         else
           (let (s, pt) = kernel_map_temporary_memory (s\<lparr>pfa_st := pa\<rparr>) pt_paddr;
                s = (if \<not> pde_present (pdts s pdt pdt_idx)
                     then s\<lparr>pts := (pts s)(pt_frame s pt := (\<lambda>_. zero_pte))\<rparr> else s);
                (s, mapped_size) = pt_map_memory s pt pdt_idx paddr vaddr sz rw pl
            in if mapped_size = 0 then Inl (kernel_set_temporary_entry s tmp_entry)
               else
                 (let s = (if \<not> pde_present (pdts s pdt pdt_idx)
                           then create_pdt_entry s pdt pdt_idx pt_paddr PS_4KB rw pl else s)
                  in Inr (kernel_set_temporary_entry s tmp_entry, mapped_size))))"

partial_function (option) pdt_map_loop ::
  "paging \<Rightarrow> u32 \<Rightarrow> u32 \<Rightarrow> u32 \<Rightarrow> u32 \<Rightarrow> u8 \<Rightarrow> u8 \<Rightarrow> u32 \<Rightarrow> (paging \<times> u32) option" where
  "pdt_map_loop s pdt paddr vaddr sz rw pl total_mapped_size =
     (if sz \<noteq> 0 then
        (case pdt_map_round s pdt paddr vaddr sz rw pl of
           Inl s' \<Rightarrow> Some (s', 0)
         | Inr (s', mapped_size) \<Rightarrow>
             pdt_map_loop s' pdt (paddr + mapped_size) (vaddr + mapped_size) (sz - mapped_size)
               rw pl (total_mapped_size + mapped_size))
      else Some (s, total_mapped_size))"

declare pdt_map_loop.simps [code]

definition pdt_map_memory ::
  "paging \<Rightarrow> u32 \<Rightarrow> u32 \<Rightarrow> u32 \<Rightarrow> u32 \<Rightarrow> u8 \<Rightarrow> u8 \<Rightarrow> (paging \<times> u32) option" where
  "pdt_map_memory s pdt paddr vaddr sz rw pl =
     pdt_map_loop s pdt paddr vaddr (align_up sz PT_ENTRY_SIZE) rw pl 0"

definition pdt_map_kernel_memory ::
  "paging \<Rightarrow> u32 \<Rightarrow> u32 \<Rightarrow> u32 \<Rightarrow> u8 \<Rightarrow> u8 \<Rightarrow> (paging \<times> u32) option" where
  "pdt_map_kernel_memory s paddr vaddr sz rw pl = pdt_map_memory s (kernel_pdt s) paddr vaddr sz rw pl"

section \<open>Unmapping\<close>

function pt_unmap_loop :: "paging \<Rightarrow> u32 \<Rightarrow> u32 \<Rightarrow> u32 \<Rightarrow> u32 \<Rightarrow> u32 \<Rightarrow> u32 \<Rightarrow> paging \<times> u32" where
  "pt_unmap_loop s pt pdt_idx vaddr sz pt_idx freed_size =
     (if freed_size < sz \<and> pt_idx < NUM_ENTRIES then
        (if pdt_idx = KERNEL_PT_PDT_IDX \<and> pt_idx = KERNEL_TMP_PT_IDX then (s, freed_size)
         else
           (let s = (if pte_present (load_pte s pt pt_idx)
                     then invalidate_page_table_entry (store_pte s pt pt_idx zero_pte) vaddr else s)
            in pt_unmap_loop s pt pdt_idx (vaddr + PT_ENTRY_SIZE) sz (pt_idx + 1)
                 (freed_size + PT_ENTRY_SIZE)))
      else (s, freed_size))"
  by pat_completeness auto
termination
  by (relation "measure (\<lambda>(s, pt, d, v, sz, i, f). 1024 - unat i)") (auto intro: loop_measure)

declare pt_unmap_loop.simps [simp del]

definition pt_unmap_memory :: "paging \<Rightarrow> u32 \<Rightarrow> u32 \<Rightarrow> u32 \<Rightarrow> u32 \<Rightarrow> paging \<times> u32" where
  "pt_unmap_memory s pt pdt_idx vaddr sz =
     pt_unmap_loop s pt pdt_idx vaddr sz (VIRTUAL_TO_PT_IDX vaddr) 0"

text \<open>One page table of the loop of \<open>pdt_unmap_memory\<close>.\<close>

definition pdt_unmap_round :: "paging \<Rightarrow> u32 \<Rightarrow> u32 \<Rightarrow> u32 \<Rightarrow> paging \<times> u32" where
  "pdt_unmap_round s pdt vaddr sz =
     (let pdt_idx = VIRTUAL_TO_PDT_IDX vaddr;
          pt_paddr = get_pt_paddr (pdts s pdt pdt_idx);
          tmp_entry = kernel_get_temporary_entry s;
          (s, pt_vaddr) = kernel_map_temporary_memory s pt_paddr;
          (s, freed_size) = pt_unmap_memory s pt_vaddr pdt_idx vaddr sz;
          s = kernel_set_temporary_entry s tmp_entry;
          s = (if freed_size = PDT_ENTRY_SIZE \<and> pdt_idx \<noteq> KERNEL_PT_PDT_IDX
               then store_pde (s\<lparr>pfa_st := pfa_free (pfa_st s) pt_paddr\<rparr>) pdt pdt_idx zero_pde else s)
      in (s, freed_size))"

partial_function (option) pdt_unmap_loop ::
  "paging \<Rightarrow> u32 \<Rightarrow> u32 \<Rightarrow> u32 \<Rightarrow> u32 \<Rightarrow> u32 \<Rightarrow> (paging \<times> u32) option" where
  "pdt_unmap_loop s pdt vaddr end_vaddr sz freed_size =
     (if vaddr < end_vaddr then
        (if \<not> pde_present (pdts s pdt (VIRTUAL_TO_PDT_IDX vaddr))
         then pdt_unmap_loop s pdt (align_up vaddr PDT_ENTRY_SIZE) end_vaddr sz freed_size
         else
           (case pdt_unmap_round s pdt vaddr sz of
              (s', freed) \<Rightarrow> pdt_unmap_loop s' pdt (vaddr + freed) end_vaddr sz freed))
      else Some (s, freed_size))"

declare pdt_unmap_loop.simps [code]

definition pdt_unmap_memory :: "paging \<Rightarrow> u32 \<Rightarrow> u32 \<Rightarrow> u32 \<Rightarrow> (paging \<times> u32) option" where
  "pdt_unmap_memory s pdt vaddr sz =
     (let sz = align_up sz PT_ENTRY_SIZE in pdt_unmap_loop s pdt vaddr (vaddr + sz) sz 0)"

definition pdt_unmap_kernel_memory :: "paging \<Rightarrow> u32 \<Rightarrow> u32 \<Rightarrow> (paging \<times> u32) option" where
  "pdt_unmap_kernel_memory s vaddr sz = pdt_unmap_memory s (kernel_pdt s) vaddr sz"

section \<open>Directories\<close>

text \<open>\<open>pdt_create\<close> returns the pointer (0 for \<open>NULL\<close>) and writes the physical address.\<close>

definition pdt_create :: "paging \<Rightarrow> (paging \<times> u32 \<times> u32) option" where
  "pdt_create s =
     (let (pa, pdt_paddr) = pfa_allocate (pfa_st s) 1;
          (s, pdt_vaddr) = pdt_kernel_find_next_vaddr (s\<lparr>pfa_st := pa\<rparr>) PDT_SIZE
      in map_option (\<lambda>(s, sz).
           if sz < PDT_SIZE then (s\<lparr>pfa_st := pfa_free (pfa_st s) pdt_paddr\<rparr>, 0, 0)
           else (s\<lparr>pdts := (pdts s)(pdt_vaddr := (\<lambda>_. zero_pde))\<rparr>, pdt_vaddr, pdt_paddr))
         (pdt_map_kernel_memory s pdt_paddr pdt_vaddr PDT_SIZE PAGING_READ_WRITE PAGING_PL0))"

function pdt_delete_loop :: "paging \<Rightarrow> u32 \<Rightarrow> u32 \<Rightarrow> paging" where
  "pdt_delete_loop s pdt i =
     (if i < NUM_ENTRIES then
        pdt_delete_loop
          (if pde_present (pdts s pdt i) \<and> pde_is_page_table (pdts s pdt i)
           then s\<lparr>pfa_st := pfa_free (pfa_st s) (get_pt_paddr (pdts s pdt i))\<rparr> else s)
          pdt (i + 1)
      else s)"
  by pat_completeness auto
termination
  by (relation "measure (\<lambda>(s, pdt, i). 1024 - unat i)") (auto intro: loop_measure)

declare pdt_delete_loop.simps [simp del]

definition pdt_delete :: "paging \<Rightarrow> u32 \<Rightarrow> paging" where
  "pdt_delete s pdt =
     (let s = pdt_delete_loop s pdt 0;
          (s, pdt_paddr) = get_pdt_paddr s pdt
      in s\<lparr>pfa_st := pfa_free (pfa_st s) pdt_paddr\<rparr>)"

function pdt_copy_kernel_loop :: "paging \<Rightarrow> u32 \<Rightarrow> u32 \<Rightarrow> paging" where
  "pdt_copy_kernel_loop s pdt i =
     (if i < NUM_ENTRIES then
        pdt_copy_kernel_loop
          (if pde_present (pdts s (kernel_pdt s) i)
           then store_pde s pdt i (pdts s (kernel_pdt s) i) else s)
          pdt (i + 1)
      else s)"
  by pat_completeness auto
termination
  by (relation "measure (\<lambda>(s, pdt, i). 1024 - unat i)") (auto intro: loop_measure)

declare pdt_copy_kernel_loop.simps [simp del]

text \<open>\<open>pdt_set\<close> (\<open>paging_asm.s\<close>) loads \<open>cr3\<close> with the frame address and the write-through bit.\<close>

definition pdt_set :: "paging \<Rightarrow> u32 \<Rightarrow> paging" where
  "pdt_set s pdt_addr = s\<lparr>cr3 := (pdt_addr AND 0xFFFFF000) OR 0x08\<rparr>"

definition pdt_load_process_pdt :: "paging \<Rightarrow> u32 \<Rightarrow> u32 \<Rightarrow> paging" where
  "pdt_load_process_pdt s pdt pdt_paddr = pdt_set (pdt_copy_kernel_loop s pdt KERNEL_PDT_IDX) pdt_paddr"

section \<open>Entries hold frame addresses\<close>

lemma address_masks:
  "(0xFFFFF000 :: u32) = NOT (mask 12)" "(0xF :: u32) = mask 4" "(0xFFFF :: u32) = mask 16"
  "(0xF0 :: u8) = push_bit 4 (mask 4)"
  by (simp_all add: mask_eq_exp_minus_1 push_bit_eq_mult not_eq_complement)

lemma page_mask: "(a :: u32) AND 0xFFFFF000 = push_bit 12 (drop_bit 12 a)"
  unfolding address_masks by (rule bit_word_eqI) (auto simp: bit_simps)

text \<open>A page-directory entry and a page-table entry are two encodings of a frame address with
  permissions. What the walk of the tables needs of either is the same contract.\<close>

locale frame_entry =
  fixes make :: "u32 \<Rightarrow> 'e" and addr_of :: "'e \<Rightarrow> u32" and present :: "'e \<Rightarrow> bool"
  assumes addr_make: "addr_of (make a) = a AND 0xFFFFF000"
    and present_make: "present (make a)"
begin

lemma aligned_mask: "a AND 0xFFFFF000 = a" if "4096 dvd unat a" for a :: u32
proof -
  have "a AND 0xFFFFF000 = push_bit 12 (drop_bit 12 a)"
    by (rule page_mask)
  then have "unat (a AND 0xFFFFF000) = unat a div 4096 * 4096" if "unat (drop_bit 12 a) * 4096 < 2 ^ 32"
    using that by (simp add: push_bit_eq_mult drop_bit_eq_div unat_div unat_mult_nowrap mult.commute)
  moreover have "unat (drop_bit 12 a) * 4096 < 2 ^ 32"
    using unat_lt_u32 [of a] by (simp add: drop_bit_eq_div unat_div)
  ultimately show ?thesis using that by (simp add: word_unat_eq_iff [THEN iffD2])
qed

lemma addr_make_aligned: "4096 dvd unat a \<Longrightarrow> addr_of (make a) = a"
  by (simp add: addr_make aligned_mask)

lemma make_inj: "4096 dvd unat a \<Longrightarrow> 4096 dvd unat b \<Longrightarrow> make a = make b \<Longrightarrow> a = b"
  using addr_make_aligned by metis

end

lemma split_address:
  "push_bit 16 (ucast (ucast (drop_bit 16 a AND 0xFFFF) :: u16)) OR
   push_bit 8 (ucast (ucast (push_bit 4 (drop_bit 12 a AND 0xF)) AND 0xF0 :: u8)) = a AND 0xFFFFF000"
  for a :: u32
  unfolding address_masks
proof (rule bit_word_eqI, goal_cases)
  case (1 n)
  then consider "n < 16" | "16 \<le> n" "n < 32" by fastforce
  then show ?case by cases (auto simp: bit_simps)
qed

lemma get_pf_paddr_make: "get_pf_paddr (make_pte a rw pl) = a AND 0xFFFFF000"
  unfolding get_pf_paddr_def make_pte_def pte.select_convs by (rule split_address)

lemma get_pt_paddr_make: "get_pt_paddr (make_pde a ps rw pl) = a AND 0xFFFFF000"
  unfolding get_pt_paddr_def make_pde_def pde.select_convs by (rule split_address)

lemma odd_config: "x OR 1 \<noteq> (0 :: u8)"
proof
  assume "x OR 1 = 0"
  then have "bit (x OR 1) 0 = bit (0 :: u8) 0" by (rule arg_cong)
  then show False by (simp add: bit_simps)
qed

lemma present_make_entries: "pte_present (make_pte a rw pl)" "pde_present (make_pde a ps rw pl)"
  unfolding pte_present_def pde_present_def make_pte_def make_pde_def pte.select_convs pde.select_convs
    or.assoc [symmetric] by (rule odd_config)+

interpretation pte: frame_entry "\<lambda>a. make_pte a rw pl" get_pf_paddr pte_present for rw pl
  by unfold_locales (rule get_pf_paddr_make, rule present_make_entries)

interpretation pde: frame_entry "\<lambda>a. make_pde a ps rw pl" get_pt_paddr pde_present for ps rw pl
  by unfold_locales (rule get_pt_paddr_make, rule present_make_entries)

lemma u32_to_pte_to_u32 [simp]: "u32_to_pte (pte_to_u32 e) = e"
proof (cases e)
  case (fields c m h)
  have "ucast (pte_to_u32 e) = c" "ucast (drop_bit 8 (pte_to_u32 e)) = m" "ucast (drop_bit 16 (pte_to_u32 e)) = h"
    by (rule bit_word_eqI; auto simp: fields pte_to_u32_def bit_simps dest: bit_imp_le_length)+
  then show ?thesis by (simp add: u32_to_pte_def fields)
qed

lemma zero_entries [simp]: "\<not> pte_present zero_pte" "\<not> pde_present zero_pde"
  by (simp_all add: pte_present_def pde_present_def zero_pte_def zero_pde_def)

section \<open>The temporary window\<close>

text \<open>The kernel page table itself is never reached through the window's address.\<close>

definition window_ok :: "paging \<Rightarrow> bool" where
  "window_ok s \<longleftrightarrow> kernel_pt s \<noteq> KERNEL_TMP_VADDR"

definition window_entry :: "paging \<Rightarrow> pte" where
  "window_entry s = pts s (kernel_pt_frame s) KERNEL_TMP_PT_IDX"

lemma kernel_pt_frame_resolve [simp]: "window_ok s \<Longrightarrow> pt_frame s (kernel_pt s) = kernel_pt_frame s"
  by (simp add: window_ok_def pt_frame_def kernel_pt_frame_def)

lemma get_temporary_entry_eq: "window_ok s \<Longrightarrow> kernel_get_temporary_entry s = pte_to_u32 (window_entry s)"
  by (simp add: kernel_get_temporary_entry_def load_pte_def window_entry_def)

text \<open>The state with another entry in the window and two more TLB invalidations is what a
  use of the window leaves behind.\<close>

definition put_window :: "paging \<Rightarrow> pte \<Rightarrow> paging" where
  "put_window s e = s\<lparr>pts := (pts s)(kernel_pt_frame s := (pts s (kernel_pt_frame s))(KERNEL_TMP_PT_IDX := e)),
                     invlpgs := KERNEL_TMP_VADDR # invlpgs s\<rparr>"

lemma put_window_fields [simp]:
  "kernel_pdt (put_window s e) = kernel_pdt s" "kernel_pt (put_window s e) = kernel_pt s"
  "pdts (put_window s e) = pdts s" "pfa_st (put_window s e) = pfa_st s" "cr3 (put_window s e) = cr3 s"
  "kernel_pt_frame (put_window s e) = kernel_pt_frame s"
  "window_ok (put_window s e) = window_ok s" "window_entry (put_window s e) = e"
  "invlpgs (put_window s e) = KERNEL_TMP_VADDR # invlpgs s"
  by (simp_all add: put_window_def kernel_pt_frame_def window_ok_def window_entry_def)

lemma pts_put_window:
  "pts (put_window s e) f j =
     (if f = kernel_pt_frame s \<and> j = KERNEL_TMP_PT_IDX then e else pts s f j)"
  by (simp add: put_window_def)

lemma map_temporary_eq:
  "window_ok s \<Longrightarrow> kernel_map_temporary_memory s paddr =
     (put_window s (make_pte paddr PAGING_READ_WRITE PAGING_PL0), KERNEL_TMP_VADDR)"
  by (simp add: kernel_map_temporary_memory_def create_pt_entry_def store_pte_def
      invalidate_page_table_entry_def put_window_def)

lemma set_temporary_eq:
  "window_ok s \<Longrightarrow> kernel_set_temporary_entry s (pte_to_u32 e) = put_window s e"
  by (simp add: kernel_set_temporary_entry_def store_pte_def invalidate_page_table_entry_def put_window_def)

lemma pt_frame_window [simp]:
  "pt_frame s KERNEL_TMP_VADDR = get_pf_paddr (window_entry s)"
  by (simp add: pt_frame_def window_entry_def)

text \<open>Restoring the entry saved before: the tables are as before.\<close>

lemma pts_window_restored: "pts (put_window (put_window s e) (window_entry s)) = pts s"
  by (rule ext, rule ext) (simp add: pts_put_window window_entry_def)

lemma window_restored:
  "put_window (put_window s e) (window_entry s) =
   s\<lparr>invlpgs := KERNEL_TMP_VADDR # KERNEL_TMP_VADDR # invlpgs s\<rparr>"
  by (rule paging.equality) (simp_all add: pts_window_restored)

end
