(* ===== verification/Paging_Map.thy ===== *)
theory Paging_Map
  imports Paging
begin

text \<open>
  Mapping is correct. The tables of a directory are read as one function from virtual pages to
  entries (\<open>page_entry\<close>, the walk the processor does); under a well-formedness invariant on the
  directory and the frame allocator, \<open>pdt_map_memory\<close> returns, and adds exactly the requested
  pages to that function, or runs out of page frames.
\<close>

section \<open>Virtual page numbers\<close>

definition vpn :: "u32 \<Rightarrow> nat" where
  "vpn v = unat v div 4096"

lemma vpn_bound: "vpn v < 2 ^ 20"
  using unat_lt_u32 [of v] by (simp add: vpn_def)

lemma unat_and_0x3FF: "unat (x AND 0x3FF :: u32) = unat x mod 1024"
proof -
  have "x AND 0x3FF = take_bit 10 x" by (simp add: take_bit_eq_mask mask_eq_exp_minus_1)
  then show ?thesis by (simp add: take_bit_eq_mod unat_mod)
qed

lemma unat_pt_idx: "unat (VIRTUAL_TO_PT_IDX v) = vpn v mod 1024"
  by (simp add: VIRTUAL_TO_PT_IDX_def unat_and_0x3FF drop_bit_eq_div unat_div vpn_def)

lemma unat_pdt_idx: "unat (VIRTUAL_TO_PDT_IDX v) = vpn v div 1024"
proof -
  have "unat v div 4194304 < 1024" using unat_lt_u32 [of v] by linarith
  moreover have "unat v div 4194304 = vpn v div 1024" by (simp add: vpn_def div_mult2_eq [symmetric])
  ultimately show ?thesis
    by (simp add: VIRTUAL_TO_PDT_IDX_def unat_and_0x3FF drop_bit_eq_div unat_div)
qed

lemma idx_bounds: "VIRTUAL_TO_PT_IDX v < 1024" "VIRTUAL_TO_PDT_IDX v < 1024"
  using vpn_bound [of v] by (simp_all add: word_less_nat_alt unat_pt_idx unat_pdt_idx)

lemma vpn_split: "vpn v = 1024 * unat (VIRTUAL_TO_PDT_IDX v) + unat (VIRTUAL_TO_PT_IDX v)"
  by (simp add: unat_pt_idx unat_pdt_idx)

lemma vpn_add_pages:
  assumes "vpn v + k < 2 ^ 20"
  shows "vpn (v + 4096 * of_nat k) = vpn v + k"
proof -
  have k: "k < 2 ^ 20" using assms by simp
  have "unat (4096 * of_nat k :: u32) = 4096 * k"
    using idx_offset [OF k] by (simp add: mult.commute)
  moreover have "unat v + 4096 * k < 2 ^ 32" using assms by (simp add: vpn_def)
  ultimately have "unat (v + 4096 * of_nat k) = unat v + 4096 * k"
    by (subst unat_add_nowrap) simp_all
  then show ?thesis by (simp add: vpn_def)
qed

text \<open>The pages one round of mapping covers: those of one directory entry.\<close>

lemma page_range_iff:
  assumes "unat (VIRTUAL_TO_PT_IDX v0) + k \<le> 1024"
  shows "VIRTUAL_TO_PDT_IDX v = VIRTUAL_TO_PDT_IDX v0 \<and> VIRTUAL_TO_PT_IDX v0 \<le> VIRTUAL_TO_PT_IDX v \<and>
           unat (VIRTUAL_TO_PT_IDX v) < unat (VIRTUAL_TO_PT_IDX v0) + k
     \<longleftrightarrow> vpn v0 \<le> vpn v \<and> vpn v < vpn v0 + k"
proof -
  have "unat (VIRTUAL_TO_PT_IDX v) < 1024" "unat (VIRTUAL_TO_PT_IDX v0) < 1024"
    using idx_bounds [of v] idx_bounds [of v0] by (simp_all add: word_less_nat_alt)
  moreover have "VIRTUAL_TO_PDT_IDX v = VIRTUAL_TO_PDT_IDX v0 \<longleftrightarrow>
      unat (VIRTUAL_TO_PDT_IDX v) = unat (VIRTUAL_TO_PDT_IDX v0)" by (simp add: word_unat_eq_iff)
  ultimately show ?thesis
    using assms by (auto simp: vpn_split [of v] vpn_split [of v0] word_le_nat_alt)
qed

section \<open>Filling one page table\<close>

definition map_pages :: "(u32 \<Rightarrow> pte) \<Rightarrow> u32 \<Rightarrow> nat \<Rightarrow> u32 \<Rightarrow> u8 \<Rightarrow> u8 \<Rightarrow> u32 \<Rightarrow> pte" where
  "map_pages tbl i k paddr rw pl j =
     (if i \<le> j \<and> unat j < unat i + k then make_pte (paddr + 4096 * (j - i)) rw pl else tbl j)"

lemma map_pages_0: "map_pages tbl i 0 paddr rw pl = tbl"
  by (rule ext) (auto simp: map_pages_def word_le_nat_alt)

lemma map_pages_Suc:
  assumes "i < 1024"
  shows "map_pages (tbl(i := make_pte paddr rw pl)) (i + 1) k (paddr + 4096) rw pl =
         map_pages tbl i (Suc k) paddr rw pl"
proof
  fix j
  have u: "unat (i + 1) = Suc (unat i)" by (rule unat_inc [OF assms])
  have a: "paddr + 4096 + 4096 * (j - (i + 1)) = paddr + 4096 * (j - i)" by (simp add: algebra_simps)
  consider "j = i" | "j \<noteq> i" "unat j \<noteq> unat i"
    by (auto simp: word_unat_eq_iff)
  then show "map_pages (tbl(i := make_pte paddr rw pl)) (i + 1) k (paddr + 4096) rw pl j =
         map_pages tbl i (Suc k) paddr rw pl j"
  proof cases
    case 1
    then show ?thesis by (simp add: map_pages_def word_le_nat_alt u)
  next
    case 2
    then have "i + 1 \<le> j \<longleftrightarrow> i \<le> j" by (auto simp: word_le_nat_alt u)
    with 2 show ?thesis by (simp add: map_pages_def u a)
  qed
qed

text \<open>What stops the loop before the requested size: the end of the table, an entry in use, or
  the kernel's window.\<close>

definition pt_blocked :: "(u32 \<Rightarrow> pte) \<Rightarrow> u32 \<Rightarrow> u32 \<Rightarrow> bool" where
  "pt_blocked tbl pdt_idx i \<longleftrightarrow>
     \<not> i < NUM_ENTRIES \<or> pte_present (tbl i) \<or> pdt_idx = KERNEL_PT_PDT_IDX \<and> i = KERNEL_TMP_PT_IDX"

lemma store_through_window:
  assumes "window_ok s" and "\<not> (get_pf_paddr (window_entry s) = kernel_pt_frame s \<and> n = KERNEL_TMP_PT_IDX)"
  shows "window_ok (store_pte s KERNEL_TMP_VADDR n e)"
    and "window_entry (store_pte s KERNEL_TMP_VADDR n e) = window_entry s"
    and "kernel_pt_frame (store_pte s KERNEL_TMP_VADDR n e) = kernel_pt_frame s"
proof -
  show k: "kernel_pt_frame (store_pte s KERNEL_TMP_VADDR n e) = kernel_pt_frame s"
    by (simp add: store_pte_def kernel_pt_frame_def)
  show "window_ok (store_pte s KERNEL_TMP_VADDR n e)"
    using assms(1) by (simp add: store_pte_def window_ok_def)
  show "window_entry (store_pte s KERNEL_TMP_VADDR n e) = window_entry s"
    using assms(2) k by (auto simp: window_entry_def [of "store_pte _ _ _ _"] store_pte_def window_entry_def [of s, symmetric])
       (simp_all add: window_entry_def)
qed

lemma pages_left:
  assumes "4096 dvd unat sz" and "4096 dvd unat m" and "m < (sz :: u32)"
  shows "unat (m + 4096) = unat m + 4096" and "m + 4096 \<le> sz" and "4096 dvd unat (m + 4096)"
proof -
  from assms(1,2) obtain a b where ab: "unat sz = 4096 * a" "unat m = 4096 * b" by (auto elim!: dvdE)
  with assms(3) have "b < a" by (simp add: word_less_nat_alt)
  then have "unat m + 4096 \<le> unat sz" using ab by simp
  moreover then have u: "unat (m + 4096) = unat m + 4096"
    using unat_lt_u32 [of sz] by (subst unat_add_nowrap) simp_all
  ultimately show "unat (m + 4096) = unat m + 4096" "m + 4096 \<le> sz" "4096 dvd unat (m + 4096)"
    using ab by (simp_all add: word_le_nat_alt)
qed

lemma pt_map_loop_result:
  assumes "window_ok s" and "f = get_pf_paddr (window_entry s)" and "pt = KERNEL_TMP_VADDR"
    and "f = kernel_pt_frame s \<Longrightarrow> d = KERNEL_PT_PDT_IDX"
    and "4096 dvd unat sz" and "4096 dvd unat m" and "m \<le> sz" and "i \<le> 1024"
  shows "\<exists>k. pt_map_loop s pt d paddr sz rw pl i m =
               (s\<lparr>pts := (pts s)(f := map_pages (pts s f) i k paddr rw pl)\<rparr>, m + 4096 * of_nat k) \<and>
             unat i + k \<le> 1024 \<and> unat m + 4096 * k \<le> unat sz \<and>
             (\<forall>j<k. \<not> pt_blocked (pts s f) d (i + of_nat j)) \<and>
             (unat m + 4096 * k = unat sz \<or> pt_blocked (pts s f) d (i + of_nat k))"
  using assms
proof (induction s pt d paddr sz rw pl i m rule: pt_map_loop.induct)
  case (1 s pt d paddr sz rw pl i m)
  note [simp] = load_pte_def "1.prems"(2) [symmetric] "1.prems"(3)
  show ?case
  proof (cases "m < sz \<and> \<not> pt_blocked (pts s f) d i")
    case False
    then have "pt_map_loop s pt d paddr sz rw pl i m = (s, m)"
      by (subst pt_map_loop.simps) (auto simp: pt_blocked_def)
    moreover have "unat m = unat sz \<or> pt_blocked (pts s f) d i"
      using False "1.prems"(7) by (auto simp: not_less)
    ultimately show ?thesis
      using "1.prems"(7,8) by (intro exI [of _ 0]) (simp add: map_pages_0 word_le_nat_alt)
  next
    case True
    then have lt: "m < sz" "i < 1024" and nb: "\<not> pte_present (pts s f i)"
      "\<not> (d = KERNEL_PT_PDT_IDX \<and> i = KERNEL_TMP_PT_IDX)" by (auto simp: pt_blocked_def)
    let ?s = "create_pt_entry s pt i paddr rw pl"
    have nw: "\<not> (get_pf_paddr (window_entry s) = kernel_pt_frame s \<and> i = KERNEL_TMP_PT_IDX)"
      using "1.prems"(2,4) nb(2) by auto
    note st = store_through_window [OF "1.prems"(1) nw, of "make_pte paddr rw pl", folded create_pt_entry_def]
    have s: "?s = s\<lparr>pts := (pts s)(f := (pts s f)(i := make_pte paddr rw pl))\<rparr>"
      by (simp add: create_pt_entry_def store_pte_def)
    have inc: "unat (i + 1) = Suc (unat i)" by (rule unat_inc [OF lt(2)])
    note left = pages_left [OF "1.prems"(5,6) lt(1)]
    have le: "i + 1 \<le> 1024" using lt(2) inc by (simp add: word_le_nat_alt word_less_nat_alt)
    have c: "m < sz \<and> i < NUM_ENTRIES" "\<not> pte_present (load_pte s pt i)" using lt nb by simp_all
    have f: "window_ok ?s" "f = get_pf_paddr (window_entry ?s)"
      "f = kernel_pt_frame ?s \<Longrightarrow> d = KERNEL_PT_PDT_IDX"
      using st "1.prems"(4) by simp_all
    obtain k where
      k: "pt_map_loop ?s pt d (paddr + 4096) sz rw pl (i + 1) (m + 4096) =
            (?s\<lparr>pts := (pts ?s)(f := map_pages (pts ?s f) (i + 1) k (paddr + 4096) rw pl)\<rparr>, m + 4096 + 4096 * of_nat k)"
         "unat (i + 1) + k \<le> 1024" "unat (m + 4096) + 4096 * k \<le> unat sz"
         "\<forall>j<k. \<not> pt_blocked (pts ?s f) d (i + 1 + of_nat j)"
         "unat (m + 4096) + 4096 * k = unat sz \<or> pt_blocked (pts ?s f) d (i + 1 + of_nat k)"
      using "1.IH" [OF c nb(2) f(1,2) "1.prems"(3) f(3) "1.prems"(5) left(3,2) le] by blast
    have step: "pt_map_loop s pt d paddr sz rw pl i m =
        pt_map_loop ?s pt d (paddr + 4096) sz rw pl (i + 1) (m + 4096)"
      using lt nb by (subst pt_map_loop.simps) auto
    have "pts ?s f = (pts s f)(i := make_pte paddr rw pl)" unfolding s by simp
    then have pages: "map_pages (pts ?s f) (i + 1) k (paddr + 4096) rw pl = map_pages (pts s f) i (Suc k) paddr rw pl"
      using map_pages_Suc [OF lt(2)] by simp
    have bl: "pt_blocked (pts ?s f) d (i + 1 + of_nat j) = pt_blocked (pts s f) d (i + of_nat (Suc j))"
      if "unat (i + 1) + j \<le> 1024" for j
    proof -
      have "unat (i + 1 + of_nat j) = Suc (unat i) + j"
        using that inc by (subst unat_add_nowrap) (simp_all add: unat_of_nat_small)
      then have "unat (i + 1 + of_nat j) \<noteq> unat i" by linarith
      then have "i + 1 + of_nat j \<noteq> i" by metis
      then show ?thesis unfolding s by (simp add: pt_blocked_def add.assoc)
    qed
    show ?thesis
    proof (intro exI [of _ "Suc k"] conjI allI impI)
      show "pt_map_loop s pt d paddr sz rw pl i m =
               (s\<lparr>pts := (pts s)(f := map_pages (pts s f) i (Suc k) paddr rw pl)\<rparr>, m + 4096 * of_nat (Suc k))"
        unfolding step k(1) pages unfolding s by simp
      fix j assume "j < Suc k"
      then show "\<not> pt_blocked (pts s f) d (i + of_nat j)"
        using True k(2,4) bl by (cases j) auto
    qed (use k left inc bl [of k] in auto)
  qed
qed

section \<open>The directory as a map from pages to entries\<close>

definition lookup :: "(u32 \<Rightarrow> pte) \<Rightarrow> u32 \<Rightarrow> pte option" where
  "lookup tbl j = (if pte_present (tbl j) then Some (tbl j) else None)"

definition page_entry :: "paging \<Rightarrow> u32 \<Rightarrow> u32 \<Rightarrow> pte option" where
  "page_entry s pdt v =
     (let e = pdts s pdt (VIRTUAL_TO_PDT_IDX v)
      in if pde_present e then lookup (pts s (get_pt_paddr e)) (VIRTUAL_TO_PT_IDX v) else None)"

definition tables :: "paging \<Rightarrow> u32 \<Rightarrow> u32 set" where
  "tables s pdt = {get_pt_paddr (pdts s pdt i) | i. i < NUM_ENTRIES \<and> pde_present (pdts s pdt i)}"

text \<open>The frames of the tables in use are not free, belong to one directory entry each, and the
  kernel's own page table is entered in slot 768 only.\<close>

definition pdt_wf :: "paging \<Rightarrow> u32 \<Rightarrow> bool" where
  "pdt_wf s pdt \<longleftrightarrow> window_ok s \<and> pfa_inv (pfa_st s) \<and> kernel_pt_frame s \<notin> free_frames (pfa_st s) \<and>
     (\<forall>i<NUM_ENTRIES. pde_present (pdts s pdt i) \<longrightarrow>
        get_pt_paddr (pdts s pdt i) \<notin> free_frames (pfa_st s) \<and>
        (get_pt_paddr (pdts s pdt i) = kernel_pt_frame s \<longrightarrow> i = KERNEL_PT_PDT_IDX) \<and>
        (\<forall>j<NUM_ENTRIES. pde_present (pdts s pdt j) \<and>
           get_pt_paddr (pdts s pdt j) = get_pt_paddr (pdts s pdt i) \<longrightarrow> j = i))"

lemma pdt_wfD:
  assumes "pdt_wf s pdt"
  shows "window_ok s" and "pfa_inv (pfa_st s)" and "kernel_pt_frame s \<notin> free_frames (pfa_st s)"
    and "i < NUM_ENTRIES \<Longrightarrow> pde_present (pdts s pdt i) \<Longrightarrow>
           get_pt_paddr (pdts s pdt i) \<notin> free_frames (pfa_st s)"
    and "i < NUM_ENTRIES \<Longrightarrow> pde_present (pdts s pdt i) \<Longrightarrow>
           get_pt_paddr (pdts s pdt i) = kernel_pt_frame s \<Longrightarrow> i = KERNEL_PT_PDT_IDX"
    and "i < NUM_ENTRIES \<Longrightarrow> pde_present (pdts s pdt i) \<Longrightarrow> j < NUM_ENTRIES \<Longrightarrow>
           pde_present (pdts s pdt j) \<Longrightarrow> get_pt_paddr (pdts s pdt j) = get_pt_paddr (pdts s pdt i) \<Longrightarrow> j = i"
  using assms unfolding pdt_wf_def by blast+

text \<open>\<open>maps_to s pdt v k paddr rw pl s'\<close>: from \<open>s\<close> to \<open>s'\<close> exactly \<open>k\<close> pages from \<open>v\<close> on are entered
  in \<open>pdt\<close>, for the frames from \<open>paddr\<close> on; everything else stays.\<close>

definition maps_to :: "paging \<Rightarrow> u32 \<Rightarrow> u32 \<Rightarrow> nat \<Rightarrow> u32 \<Rightarrow> u8 \<Rightarrow> u8 \<Rightarrow> paging \<Rightarrow> bool" where
  "maps_to s pdt v k paddr rw pl s' \<longleftrightarrow>
     (\<forall>x. page_entry s' pdt x =
        (if vpn v \<le> vpn x \<and> vpn x < vpn v + k
         then Some (make_pte (paddr + 4096 * of_nat (vpn x - vpn v)) rw pl) else page_entry s pdt x)) \<and>
     (\<forall>q. q \<noteq> pdt \<longrightarrow> pdts s' q = pdts s q) \<and>
     (\<forall>f. f \<notin> tables s pdt \<union> free_frames (pfa_st s) \<longrightarrow> pts s' f = pts s f) \<and>
     tables s' pdt \<union> free_frames (pfa_st s') \<subseteq> tables s pdt \<union> free_frames (pfa_st s) \<and>
     kernel_pdt s' = kernel_pdt s \<and> kernel_pt s' = kernel_pt s \<and>
     managed_frames (pfa_st s') = managed_frames (pfa_st s)"

lemma maps_to_refl: "maps_to s pdt v 0 paddr rw pl s"
  by (auto simp: maps_to_def)

lemma maps_to_page:
  assumes "maps_to s pdt v k paddr rw pl s'"
  shows "vpn v \<le> vpn x \<Longrightarrow> vpn x < vpn v + k \<Longrightarrow>
           page_entry s' pdt x = Some (make_pte (paddr + 4096 * of_nat (vpn x - vpn v)) rw pl)"
    and "\<not> (vpn v \<le> vpn x \<and> vpn x < vpn v + k) \<Longrightarrow> page_entry s' pdt x = page_entry s pdt x"
  using assms unfolding maps_to_def by auto

lemma maps_to_trans:
  assumes "maps_to s pdt v k paddr rw pl s'"
    and "maps_to s' pdt (v + 4096 * of_nat k) k' (paddr + 4096 * of_nat k) rw pl s''"
    and "vpn v + k < 2 ^ 20"
  shows "maps_to s pdt v (k + k') paddr rw pl s''"
proof -
  have v: "vpn (v + 4096 * of_nat k) = vpn v + k" by (rule vpn_add_pages [OF assms(3)])
  have a: "paddr + 4096 * of_nat k + 4096 * of_nat (vpn x - (vpn v + k)) =
           paddr + 4096 * of_nat (vpn x - vpn v)" if "vpn v + k \<le> vpn x" for x
  proof -
    have "vpn x - vpn v = k + (vpn x - (vpn v + k))" using that by linarith
    then have "of_nat (vpn x - vpn v) = (of_nat k + of_nat (vpn x - (vpn v + k)) :: u32)"
      by (metis of_nat_add)
    then show ?thesis by (simp add: distrib_left add.assoc)
  qed
  have "page_entry s'' pdt x = (if vpn v \<le> vpn x \<and> vpn x < vpn v + (k + k')
      then Some (make_pte (paddr + 4096 * of_nat (vpn x - vpn v)) rw pl) else page_entry s pdt x)" for x
  proof (cases "vpn v + k \<le> vpn x \<and> vpn x < vpn v + k + k'")
    case True
    with a [of x] maps_to_page(1) [OF assms(2), of x] v show ?thesis by simp
  next
    case False
    then have "page_entry s'' pdt x = page_entry s' pdt x" using maps_to_page(2) [OF assms(2)] v by metis
    with False maps_to_page [OF assms(1), of x] show ?thesis by auto
  qed
  with assms(1,2) show ?thesis unfolding maps_to_def by (auto simp: subset_iff)
qed

section \<open>One round\<close>

lemma pt_idx_offset:
  assumes "VIRTUAL_TO_PDT_IDX x = VIRTUAL_TO_PDT_IDX v" and "VIRTUAL_TO_PT_IDX v \<le> VIRTUAL_TO_PT_IDX x"
  shows "VIRTUAL_TO_PT_IDX x - VIRTUAL_TO_PT_IDX v = of_nat (vpn x - vpn v)"
proof -
  have "vpn x - vpn v = unat (VIRTUAL_TO_PT_IDX x) - unat (VIRTUAL_TO_PT_IDX v)"
    using assms by (simp add: vpn_split [of x] vpn_split [of v])
  also have "\<dots> = unat (VIRTUAL_TO_PT_IDX x - VIRTUAL_TO_PT_IDX v)"
    using assms(2) by (simp add: unat_sub_nowrap word_le_nat_alt)
  finally show ?thesis by simp
qed

lemma lookup_map_pages:
  assumes "unat (VIRTUAL_TO_PT_IDX v) + k \<le> 1024" and d: "VIRTUAL_TO_PDT_IDX x = VIRTUAL_TO_PDT_IDX v"
  shows "lookup (map_pages tbl (VIRTUAL_TO_PT_IDX v) k paddr rw pl) (VIRTUAL_TO_PT_IDX x) =
     (if vpn v \<le> vpn x \<and> vpn x < vpn v + k
      then Some (make_pte (paddr + 4096 * of_nat (vpn x - vpn v)) rw pl)
      else lookup tbl (VIRTUAL_TO_PT_IDX x))"
proof (cases "vpn v \<le> vpn x \<and> vpn x < vpn v + k")
  case True
  then have "VIRTUAL_TO_PT_IDX v \<le> VIRTUAL_TO_PT_IDX x \<and>
     unat (VIRTUAL_TO_PT_IDX x) < unat (VIRTUAL_TO_PT_IDX v) + k" using page_range_iff [OF assms(1), of x] by simp
  then show ?thesis
    using True pt_idx_offset [OF d] by (simp add: lookup_def map_pages_def present_make_entries)
next
  case False
  then have "\<not> (VIRTUAL_TO_PT_IDX v \<le> VIRTUAL_TO_PT_IDX x \<and>
     unat (VIRTUAL_TO_PT_IDX x) < unat (VIRTUAL_TO_PT_IDX v) + k)" using page_range_iff [OF assms(1), of x] d by simp
  then have "map_pages tbl (VIRTUAL_TO_PT_IDX v) k paddr rw pl (VIRTUAL_TO_PT_IDX x) = tbl (VIRTUAL_TO_PT_IDX x)"
    unfolding map_pages_def by (rule if_not_P)
  then show ?thesis unfolding lookup_def if_not_P [OF False] by simp
qed

text \<open>A table \<open>f\<close> entered (or already entered) for the directory slot of \<open>v\<close>, with \<open>k\<close> pages filled
  in: the two ways a round ends differ only in where the table came from.\<close>

lemma table_filled:
  assumes wf: "pdt_wf s pdt" and k: "unat (VIRTUAL_TO_PT_IDX v) + k \<le> 1024"
    and pd: "pdts s' = (pdts s)(pdt := (pdts s pdt)(VIRTUAL_TO_PDT_IDX v := e))"
    and e: "pde_present e" "get_pt_paddr e = f"
    and pt: "pts s' = (pts s)(f := map_pages tbl (VIRTUAL_TO_PT_IDX v) k paddr rw pl)"
    and old: "\<And>x. VIRTUAL_TO_PDT_IDX x = VIRTUAL_TO_PDT_IDX v \<Longrightarrow>
        page_entry s pdt x = lookup tbl (VIRTUAL_TO_PT_IDX x)"
    and other: "\<And>i. i < NUM_ENTRIES \<Longrightarrow> i \<noteq> VIRTUAL_TO_PDT_IDX v \<Longrightarrow> pde_present (pdts s pdt i) \<Longrightarrow>
        get_pt_paddr (pdts s pdt i) \<noteq> f"
    and f: "f \<in> tables s pdt \<union> free_frames (pfa_st s)" "f \<notin> free_frames (pfa_st s')"
      "f = kernel_pt_frame s \<Longrightarrow> VIRTUAL_TO_PDT_IDX v = KERNEL_PT_PDT_IDX"
    and pfa: "pfa_inv (pfa_st s')" "free_frames (pfa_st s') \<subseteq> free_frames (pfa_st s)"
      "managed_frames (pfa_st s') = managed_frames (pfa_st s)"
    and fields: "kernel_pdt s' = kernel_pdt s" "kernel_pt s' = kernel_pt s"
  shows "pdt_wf s' pdt \<and> maps_to s pdt v k paddr rw pl s'"
proof
  let ?d = "VIRTUAL_TO_PDT_IDX v"
  have kf: "kernel_pt_frame s' = kernel_pt_frame s" "window_ok s' = window_ok s"
    by (simp_all add: kernel_pt_frame_def window_ok_def fields)
  have pde: "pdts s' pdt i = (if i = ?d then e else pdts s pdt i)" for i by (simp add: pd)
  have other': "i = ?d" if "i < NUM_ENTRIES" "pde_present (pdts s pdt i)" "get_pt_paddr (pdts s pdt i) = f" for i
    using other that by blast
  show "pdt_wf s' pdt"
    unfolding pdt_wf_def kf pde
  proof (intro conjI allI impI)
    fix i assume i: "i < NUM_ENTRIES" "pde_present (if i = ?d then e else pdts s pdt i)"
    show "get_pt_paddr (if i = ?d then e else pdts s pdt i) \<notin> free_frames (pfa_st s')"
      using pdt_wfD(4) [OF wf i(1)] i(2) f(2) pfa(2) by (cases "i = ?d") (simp_all add: e(2) subset_iff, blast)
    show "i = KERNEL_PT_PDT_IDX" if "get_pt_paddr (if i = ?d then e else pdts s pdt i) = kernel_pt_frame s"
    proof (cases "i = ?d")
      case True
      then have "f = kernel_pt_frame s" using that e(2) by simp
      from f(3) [OF this] True show ?thesis by (simp only:)
    next
      case False
      with that i pdt_wfD(5) [OF wf, of i] show ?thesis by (simp only: if_False)
    qed
    fix j assume j: "j < NUM_ENTRIES" "pde_present (if j = ?d then e else pdts s pdt j) \<and>
      get_pt_paddr (if j = ?d then e else pdts s pdt j) = get_pt_paddr (if i = ?d then e else pdts s pdt i)"
    show "j = i"
    proof -
      consider "i = ?d" "j = ?d" | "i = ?d" "j \<noteq> ?d" | "i \<noteq> ?d" "j = ?d" | "i \<noteq> ?d" "j \<noteq> ?d" by blast
      then show ?thesis
      proof cases
        case 2
        then have "pde_present (pdts s pdt j)" "get_pt_paddr (pdts s pdt j) = f" using j(2) e(2) by simp_all
        then show ?thesis using other' [OF j(1)] 2 by blast
      next
        case 3
        then have "pde_present (pdts s pdt i)" "get_pt_paddr (pdts s pdt i) = f" using i(2) j(2) e(2) by simp_all
        then show ?thesis using other' [OF i(1)] 3 by blast
      next
        case 4
        then show ?thesis
          using pdt_wfD(6) [OF wf i(1) _ j(1)] i(2) j(2) unfolding if_not_P [OF 4(1)] if_not_P [OF 4(2)] by blast
      qed (simp only:)
    qed
  qed (use pdt_wfD [OF wf] pfa in blast)+
  have "page_entry s' pdt x = (if vpn v \<le> vpn x \<and> vpn x < vpn v + k
      then Some (make_pte (paddr + 4096 * of_nat (vpn x - vpn v)) rw pl) else page_entry s pdt x)" for x
  proof (cases "VIRTUAL_TO_PDT_IDX x = ?d")
    case True
    then have "page_entry s' pdt x = lookup (map_pages tbl (VIRTUAL_TO_PT_IDX v) k paddr rw pl) (VIRTUAL_TO_PT_IDX x)"
      by (simp add: page_entry_def pde e pt)
    with lookup_map_pages [OF k True] old [OF True] show ?thesis by simp
  next
    case False
    then have "\<not> (vpn v \<le> vpn x \<and> vpn x < vpn v + k)" using page_range_iff [OF k, of x] by blast
    moreover have "page_entry s' pdt x = page_entry s pdt x"
      using False other [OF idx_bounds(2) False] by (simp add: page_entry_def pde pt Let_def)
    ultimately show ?thesis by (simp only: if_False)
  qed
  moreover have "tables s' pdt \<subseteq> insert f (tables s pdt)"
    unfolding tables_def pde using e by (auto split: if_splits)
  ultimately show "maps_to s pdt v k paddr rw pl s'"
    unfolding maps_to_def using f(1) pfa fields by (auto simp: pd pt)
qed

lemma get_pt_paddr_masked: "get_pt_paddr e AND 0xFFFFF000 = get_pt_paddr e"
  unfolding address_masks get_pt_paddr_def by (rule bit_word_eqI) (auto simp: bit_simps)

text \<open>A use of the window around \<open>pt_map_memory\<close>.\<close>

lemma window_map:
  assumes "window_ok s" and f: "f AND 0xFFFFF000 = f"
    and kf: "f = kernel_pt_frame s \<Longrightarrow> d = KERNEL_PT_PDT_IDX" and "4096 dvd unat sz"
  obtains k s' where
    "pt_map_memory (put_window s (make_pte f PAGING_READ_WRITE PAGING_PL0)) KERNEL_TMP_VADDR d paddr v sz rw pl =
       (s', 4096 * of_nat k)"
    "pts (put_window s' (window_entry s)) = (pts s)(f := map_pages (pts s f) (VIRTUAL_TO_PT_IDX v) k paddr rw pl)"
    "window_ok s'" "pdts s' = pdts s" "pfa_st s' = pfa_st s" "kernel_pdt s' = kernel_pdt s" "kernel_pt s' = kernel_pt s"
    "unat (VIRTUAL_TO_PT_IDX v) + k \<le> 1024" "4096 * k \<le> unat sz"
    "4096 * k = unat sz \<or> pt_blocked (pts s f) d (VIRTUAL_TO_PT_IDX v + of_nat k)"
proof -
  let ?i = "VIRTUAL_TO_PT_IDX v"
  let ?w = "put_window s (make_pte f PAGING_READ_WRITE PAGING_PL0)"
  have fw: "f = get_pf_paddr (window_entry ?w)" by (simp add: get_pf_paddr_make f)
  have bl: "pt_blocked (pts ?w f) d j = pt_blocked (pts s f) d j" for j
    using kf by (auto simp: pt_blocked_def pts_put_window)
  have "?i \<le> 1024" using idx_bounds(1) [of v] by (rule less_imp_le)
  from pt_map_loop_result [of ?w f _ d sz 0 ?i paddr rw pl, OF _ fw refl _ assms(4) _ _ this] assms(1) kf
  obtain k where k: "pt_map_loop ?w KERNEL_TMP_VADDR d paddr sz rw pl ?i 0 =
        (?w\<lparr>pts := (pts ?w)(f := map_pages (pts ?w f) ?i k paddr rw pl)\<rparr>, 0 + 4096 * of_nat k)"
      "unat ?i + k \<le> 1024" "unat (0::u32) + 4096 * k \<le> unat sz"
      "\<forall>j<k. \<not> pt_blocked (pts ?w f) d (?i + of_nat j)"
      "unat (0::u32) + 4096 * k = unat sz \<or> pt_blocked (pts ?w f) d (?i + of_nat k)" by auto
  let ?s = "?w\<lparr>pts := (pts ?w)(f := map_pages (pts ?w f) ?i k paddr rw pl)\<rparr>"
  have kfs: "kernel_pt_frame ?s = kernel_pt_frame s" "window_ok ?s"
    using assms(1) by (simp_all add: kernel_pt_frame_def window_ok_def)
  have nw: "\<not> (?i \<le> KERNEL_TMP_PT_IDX \<and> unat KERNEL_TMP_PT_IDX < unat ?i + k)" if "f = kernel_pt_frame s"
  proof
    assume h: "?i \<le> KERNEL_TMP_PT_IDX \<and> unat KERNEL_TMP_PT_IDX < unat ?i + k"
    let ?j = "1023 - unat ?i"
    have "?j < k" using h by (auto simp: word_le_nat_alt)
    moreover have "?i + of_nat ?j = KERNEL_TMP_PT_IDX"
      using h by (simp add: word_le_nat_alt of_nat_diff)
    ultimately show False using k(4) kf [OF that] by (auto simp: pt_blocked_def)
  qed
  have p: "pts (put_window ?s (window_entry s)) g j =
       ((pts s)(f := map_pages (pts s f) ?i k paddr rw pl)) g j" for g j
    using nw by (auto simp: pts_put_window kfs map_pages_def window_entry_def)
  show thesis
  proof (rule that)
    show "pt_map_memory ?w KERNEL_TMP_VADDR d paddr v sz rw pl = (?s, 4096 * of_nat k)"
      using k(1) by (simp add: pt_map_memory_def)
    show "pts (put_window ?s (window_entry s)) = (pts s)(f := map_pages (pts s f) ?i k paddr rw pl)"
      by (intro ext p)
  qed (use k kfs bl in auto)
qed

lemma pages_nonzero: "k \<le> 1024 \<Longrightarrow> (4096 * of_nat k :: u32) = 0 \<longleftrightarrow> k = 0"
  using idx_offset [of k] by (auto simp: mult.commute unat_eq_zero [symmetric] simp del: unat_eq_zero)

lemma blocked_page:
  assumes "pt_blocked tbl (VIRTUAL_TO_PDT_IDX v) (VIRTUAL_TO_PT_IDX v)"
    and "page_entry s pdt v = lookup tbl (VIRTUAL_TO_PT_IDX v)"
  shows "page_entry s pdt v \<noteq> None \<or> vpn v = 0xC03FF"
  using assms idx_bounds(1) [of v] vpn_split [of v] by (auto simp: pt_blocked_def lookup_def)

lemma pdt_map_round_present:
  assumes wf: "pdt_wf s pdt" and pres: "pde_present (pdts s pdt (VIRTUAL_TO_PDT_IDX v))"
    and sz: "4096 dvd unat sz" "sz \<noteq> 0"
  obtains k s' where
    "pdt_map_round s pdt paddr v sz rw pl = (if k = 0 then Inl s' else Inr (s', 4096 * of_nat k))"
    "maps_to s pdt v k paddr rw pl s'" "pdt_wf s' pdt" "k \<le> 1024" "4096 * k \<le> unat sz"
    "k = 0 \<Longrightarrow> page_entry s pdt v \<noteq> None \<or> vpn v = 0xC03FF"
proof -
  let ?d = "VIRTUAL_TO_PDT_IDX v" and ?i = "VIRTUAL_TO_PT_IDX v"
  let ?f = "get_pt_paddr (pdts s pdt ?d)"
  note w = pdt_wfD [OF wf]
  obtain k s2 where k:
    "pt_map_memory (put_window s (make_pte ?f PAGING_READ_WRITE PAGING_PL0)) KERNEL_TMP_VADDR ?d paddr v sz rw pl =
       (s2, 4096 * of_nat k)"
    "pts (put_window s2 (window_entry s)) = (pts s)(?f := map_pages (pts s ?f) ?i k paddr rw pl)"
    "window_ok s2" "pdts s2 = pdts s" "pfa_st s2 = pfa_st s" "kernel_pdt s2 = kernel_pdt s" "kernel_pt s2 = kernel_pt s"
    "unat ?i + k \<le> 1024" "4096 * k \<le> unat sz"
    "4096 * k = unat sz \<or> pt_blocked (pts s ?f) ?d (?i + of_nat k)"
    by (rule window_map [OF w(1) get_pt_paddr_masked w(5) [OF idx_bounds(2) pres] sz(1)]) blast+
  have k1024: "k \<le> 1024" using k(8) by simp
  have old: "page_entry s pdt x = lookup (pts s ?f) (VIRTUAL_TO_PT_IDX x)" if "VIRTUAL_TO_PDT_IDX x = ?d" for x
    using that pres by (simp add: page_entry_def)
  let ?s = "put_window s2 (window_entry s)"
  have filled: "pdt_wf ?s pdt \<and> maps_to s pdt v k paddr rw pl ?s"
  proof (rule table_filled [OF wf k(8), where e = "pdts s pdt ?d" and tbl = "pts s ?f", OF _ pres refl k(2) old])
    show "?f \<in> tables s pdt \<union> free_frames (pfa_st s)" using pres idx_bounds(2) by (auto simp: tables_def)
    show "get_pt_paddr (pdts s pdt i) \<noteq> ?f" if "i < NUM_ENTRIES" "i \<noteq> ?d" "pde_present (pdts s pdt i)" for i
      using w(6) [OF idx_bounds(2) pres, of i] that by blast
  qed (use k w(2,4,5) pres idx_bounds(2) in simp_all)
  show thesis
  proof (rule that)
    show "pdt_map_round s pdt paddr v sz rw pl = (if k = 0 then Inl ?s else Inr (?s, 4096 * of_nat k))"
      using pres k(1) pages_nonzero [OF k1024]
      by (simp add: pdt_map_round_def Let_def map_temporary_eq [OF w(1)] get_temporary_entry_eq [OF w(1)]
          set_temporary_eq [OF k(3)] k(4))
    show "k = 0 \<Longrightarrow> page_entry s pdt v \<noteq> None \<or> vpn v = 0xC03FF"
      using blocked_page [OF _ old [OF refl]] k(10) sz(2) by (auto simp: unat_eq_zero)
  qed (use filled k1024 k in blast)+
qed

text \<open>A fresh frame that is not entered in the directory may hold anything.\<close>

lemma fresh_scribbled:
  assumes wf: "pdt_wf s pdt" and p: "p \<in> free_frames (pfa_st s)"
    and "pts s' = (pts s)(p := tbl)" and "pdts s' = pdts s"
    and pfa: "pfa_inv (pfa_st s')" "free_frames (pfa_st s') \<subseteq> free_frames (pfa_st s)"
      "managed_frames (pfa_st s') = managed_frames (pfa_st s)"
    and fields: "kernel_pdt s' = kernel_pdt s" "kernel_pt s' = kernel_pt s"
  shows "pdt_wf s' pdt \<and> maps_to s pdt v 0 paddr rw pl s'"
proof
  have kf: "kernel_pt_frame s' = kernel_pt_frame s" "window_ok s' = window_ok s"
    by (simp_all add: kernel_pt_frame_def window_ok_def fields)
  show "pdt_wf s' pdt"
    using wf pfa unfolding pdt_wf_def kf assms(4) by (meson subsetD)
  have "get_pt_paddr (pdts s pdt (VIRTUAL_TO_PDT_IDX x)) \<noteq> p"
    if "pde_present (pdts s pdt (VIRTUAL_TO_PDT_IDX x))" for x
    using pdt_wfD(4) [OF wf idx_bounds(2) that] p by blast
  then have "page_entry s' pdt x = page_entry s pdt x" for x
    by (simp add: page_entry_def assms(3,4) Let_def)
  then show "maps_to s pdt v 0 paddr rw pl s'"
    unfolding maps_to_def using p pfa by (auto simp: assms(3,4) fields tables_def)
qed

lemma put_window_zeroed:
  assumes "p \<noteq> kernel_pt_frame s"
  shows "(put_window s e)\<lparr>pts := (pts (put_window s e))(p := tbl)\<rparr> = put_window (s\<lparr>pts := (pts s)(p := tbl)\<rparr>) e"
  using assms by (simp add: put_window_def kernel_pt_frame_def fun_upd_twist)

lemma store_pde_fields [simp]:
  "window_ok (store_pde s q n x) = window_ok s" "pts (put_window (store_pde s q n x) e) = pts (put_window s e)"
  "pfa_st (store_pde s q n x) = pfa_st s" "kernel_pdt (store_pde s q n x) = kernel_pdt s"
  "kernel_pt (store_pde s q n x) = kernel_pt s"
  "pdts (store_pde s q n x) = (pdts s)(q := (pdts s q)(n := x))"
  by (simp_all add: store_pde_def put_window_def window_ok_def kernel_pt_frame_def)

lemma lookup_zero [simp]: "lookup (\<lambda>_. zero_pte) j = None"
  by (simp add: lookup_def)

lemma pdt_map_round_absent:
  assumes wf: "pdt_wf s pdt" and abs: "\<not> pde_present (pdts s pdt (VIRTUAL_TO_PDT_IDX v))"
    and sz: "4096 dvd unat sz" "sz \<noteq> 0" and al: "pfa_allocate (pfa_st s) 1 = (pa, p)" "p \<noteq> 0"
  obtains k s' where
    "pdt_map_round s pdt paddr v sz rw pl = (if k = 0 then Inl s' else Inr (s', 4096 * of_nat k))"
    "maps_to s pdt v k paddr rw pl s'" "pdt_wf s' pdt" "k \<le> 1024" "4096 * k \<le> unat sz"
    "k = 0 \<Longrightarrow> page_entry s pdt v \<noteq> None \<or> vpn v = 0xC03FF"
proof -
  let ?d = "VIRTUAL_TO_PDT_IDX v" and ?i = "VIRTUAL_TO_PT_IDX v"
  note w = pdt_wfD [OF wf]
  note pfa = pfa_allocate_spec [OF w(2) al(1)]
  have p: "p \<in> free_frames (pfa_st s)" "free_frames pa = free_frames (pfa_st s) - {p}"
    using pfa(4) [OF al(2)] by (auto simp: frame_block_one)
  have "4096 dvd unat p" using p(1) pfa.managed_nonnull [OF w(2)] pfa.avail_managed [OF w(2)] by blast
  then have m: "p AND 0xFFFFF000 = p" by (rule pte.aligned_mask)
  have pk: "p \<noteq> kernel_pt_frame s" using p(1) w(3) by blast
  let ?z = "s\<lparr>pfa_st := pa, pts := (pts s)(p := \<lambda>_. zero_pte)\<rparr>"
  have z: "window_ok ?z" "kernel_pt_frame ?z = kernel_pt_frame s" "window_entry ?z = window_entry s"
    using w(1) pk by (simp_all add: window_ok_def kernel_pt_frame_def window_entry_def)
  have zk: "p = kernel_pt_frame ?z \<Longrightarrow> ?d = KERNEL_PT_PDT_IDX" using z(2) pk by simp
  obtain k s2 where k:
    "pt_map_memory (put_window ?z (make_pte p PAGING_READ_WRITE PAGING_PL0)) KERNEL_TMP_VADDR ?d paddr v sz rw pl =
       (s2, 4096 * of_nat k)"
    "pts (put_window s2 (window_entry ?z)) = (pts ?z)(p := map_pages (pts ?z p) ?i k paddr rw pl)"
    "window_ok s2" "pdts s2 = pdts ?z" "pfa_st s2 = pfa_st ?z" "kernel_pdt s2 = kernel_pdt ?z" "kernel_pt s2 = kernel_pt ?z"
    "unat ?i + k \<le> 1024" "4096 * k \<le> unat sz"
    "4096 * k = unat sz \<or> pt_blocked (pts ?z p) ?d (?i + of_nat k)"
    by (rule window_map [OF z(1) m zk sz(1)]) blast+
  have k1024: "k \<le> 1024" using k(8) by simp
  have pts2: "pts (put_window s2 (window_entry s)) = (pts s)(p := map_pages (\<lambda>_. zero_pte) ?i k paddr rw pl)"
    using k(2) by (simp add: z)
  have old: "page_entry s pdt x = lookup (\<lambda>_. zero_pte) (VIRTUAL_TO_PT_IDX x)" if "VIRTUAL_TO_PDT_IDX x = ?d" for x
    using that abs by (simp add: page_entry_def)
  let ?e = "make_pde p PS_4KB rw pl"
  let ?s = "put_window (if k = 0 then s2 else store_pde s2 pdt ?d ?e) (window_entry s)"
  have filled: "pdt_wf ?s pdt \<and> maps_to s pdt v k paddr rw pl ?s"
  proof (cases "k = 0")
    case True
    then show ?thesis
      using fresh_scribbled [OF wf p(1), of ?s _ v paddr rw pl] k pts2 p pfa by simp
  next
    case False
    show ?thesis
    proof (rule table_filled [OF wf k(8), where e = ?e and tbl = "\<lambda>_. zero_pte" and f = p, OF _ _ _ _ old])
      show "get_pt_paddr (pdts s pdt i) \<noteq> p" if "i < NUM_ENTRIES" "i \<noteq> ?d" "pde_present (pdts s pdt i)" for i
        using w(4) that p(1) by blast
      show "pde_present ?e" by (rule present_make_entries)
      show "get_pt_paddr ?e = p" by (simp add: get_pt_paddr_make m)
    qed (use False k pts2 p pfa pk in auto)
  qed
  show thesis
  proof (rule that)
    have map: "kernel_map_temporary_memory (s\<lparr>pfa_st := pa\<rparr>) p =
        (put_window (s\<lparr>pfa_st := pa\<rparr>) (make_pte p PAGING_READ_WRITE PAGING_PL0), KERNEL_TMP_VADDR)"
      by (rule map_temporary_eq) (use w(1) in \<open>simp add: window_ok_def\<close>)
    have zero: "(put_window (s\<lparr>pfa_st := pa\<rparr>) (make_pte p PAGING_READ_WRITE PAGING_PL0))
        \<lparr>pts := (pts (put_window (s\<lparr>pfa_st := pa\<rparr>) (make_pte p PAGING_READ_WRITE PAGING_PL0)))(p := \<lambda>_. zero_pte)\<rparr> =
        put_window ?z (make_pte p PAGING_READ_WRITE PAGING_PL0)"
      using put_window_zeroed [of p "s\<lparr>pfa_st := pa\<rparr>"] pk by (simp add: kernel_pt_frame_def)
    show "pdt_map_round s pdt paddr v sz rw pl = (if k = 0 then Inl ?s else Inr (?s, 4096 * of_nat k))"
      using abs k(1) pages_nonzero [OF k1024] al set_temporary_eq [of "store_pde s2 pdt ?d ?e"]
      by (simp add: pdt_map_round_def Let_def map zero m get_pf_paddr_make get_temporary_entry_eq [OF w(1)]
          set_temporary_eq [OF k(3)] k(3,4) create_pdt_entry_def)
    show "k = 0 \<Longrightarrow> page_entry s pdt v \<noteq> None \<or> vpn v = 0xC03FF"
      using blocked_page [OF _ old [OF refl]] k(10) sz(2) by (auto simp: unat_eq_zero)
  qed (use filled k1024 k in blast)+
qed

lemma pdt_map_round_result:
  assumes wf: "pdt_wf s pdt" and sz: "4096 dvd unat sz" "sz \<noteq> 0"
  obtains (stuck) s' where "pdt_map_round s pdt paddr v sz rw pl = Inl s'"
      "maps_to s pdt v 0 paddr rw pl s'" "pdt_wf s' pdt"
      "free_frames (pfa_st s') = {} \<or> page_entry s pdt v \<noteq> None \<or> vpn v = 0xC03FF"
  | (mapped) k s' where "pdt_map_round s pdt paddr v sz rw pl = Inr (s', 4096 * of_nat k)" "0 < k"
      "maps_to s pdt v k paddr rw pl s'" "pdt_wf s' pdt" "4096 * k \<le> unat sz"
proof (cases "\<not> pde_present (pdts s pdt (VIRTUAL_TO_PDT_IDX v)) \<and> snd (pfa_allocate (pfa_st s) 1) = 0")
  case True
  note inv = pdt_wfD(2) [OF wf]
  from True obtain pa where pa: "pfa_allocate (pfa_st s) 1 = (pa, 0)" by (metis prod.collapse)
  with pfa.allocate_failed [OF inv] have "pa = pfa_st s" by blast
  with True pa have "pdt_map_round s pdt paddr v sz rw pl = Inl s" by (simp add: pdt_map_round_def Let_def)
  moreover have "free_frames (pfa_st s) = {}" using True pfa.allocate_one [OF inv] by blast
  ultimately show ?thesis using stuck wf maps_to_refl by blast
next
  case False
  obtain k s' where k: "pdt_map_round s pdt paddr v sz rw pl = (if k = 0 then Inl s' else Inr (s', 4096 * of_nat k))"
    "maps_to s pdt v k paddr rw pl s'" "pdt_wf s' pdt" "k \<le> 1024" "4096 * k \<le> unat sz"
    "k = 0 \<Longrightarrow> page_entry s pdt v \<noteq> None \<or> vpn v = 0xC03FF"
  proof (cases "pde_present (pdts s pdt (VIRTUAL_TO_PDT_IDX v))")
    case True
    show thesis by (rule pdt_map_round_present [OF wf True sz]) (rule that)
  next
    case absent: False
    obtain pa p where al: "pfa_allocate (pfa_st s) 1 = (pa, p)" "p \<noteq> 0"
      using False absent by (cases "pfa_allocate (pfa_st s) 1") auto
    show thesis by (rule pdt_map_round_absent [OF wf absent sz al]) (rule that)
  qed
  then show ?thesis by (cases "k = 0") (auto intro: stuck mapped)
qed

section \<open>The whole request\<close>

text \<open>What keeps page \<open>k\<close> of a request from being mapped.\<close>

definition map_obstacle :: "paging \<Rightarrow> u32 \<Rightarrow> u32 \<Rightarrow> paging \<Rightarrow> bool" where
  "map_obstacle s pdt v s' \<longleftrightarrow>
     free_frames (pfa_st s') = {} \<or> page_entry s pdt v \<noteq> None \<or> vpn v = 0xC03FF"

lemma map_obstacle_earlier:
  assumes "maps_to s pdt v k paddr rw pl s'" and "vpn v + k \<le> vpn x"
  shows "map_obstacle s' pdt x s'' \<Longrightarrow> map_obstacle s pdt x s''"
  using maps_to_page(2) [OF assms(1), of x] assms(2) by (simp add: map_obstacle_def)

lemma pdt_map_loop_result:
  assumes "pdt_wf s pdt" and "unat sz = 4096 * n" and "vpn v + n \<le> 2 ^ 20"
  shows "\<exists>k s' r. pdt_map_loop s pdt paddr v sz rw pl tot = Some (s', r) \<and> k \<le> n \<and>
      maps_to s pdt v k paddr rw pl s' \<and> pdt_wf s' pdt \<and>
      (k = n \<and> r = tot + sz \<or> k < n \<and> r = 0 \<and> map_obstacle s pdt (v + 4096 * of_nat k) s')"
  using assms
proof (induction n arbitrary: s sz v paddr tot rule: less_induct)
  case (less n)
  show ?case
  proof (cases "sz = 0")
    case True
    with less.prems(1,2) maps_to_refl show ?thesis by (subst pdt_map_loop.simps) auto
  next
    case False
    have "unat sz \<noteq> 0" using False by (simp add: unat_eq_zero)
    then have d: "4096 dvd unat sz" and n0: "0 < n" using less.prems(2) by simp_all
    from less.prems(1) d False show ?thesis
    proof (cases rule: pdt_map_round_result [where paddr = paddr and v = v and rw = rw and pl = pl])
      case (stuck s')
      then have "pdt_map_loop s pdt paddr v sz rw pl tot = Some (s', 0)"
        using False by (subst pdt_map_loop.simps) simp
      with stuck n0 show ?thesis by (intro exI [of _ 0] exI [of _ s'] exI [of _ 0]) (simp add: map_obstacle_def)
    next
      case (mapped k s')
      let ?m = "4096 * of_nat k :: u32"
      have step: "pdt_map_loop s pdt paddr v sz rw pl tot =
          pdt_map_loop s' pdt (paddr + ?m) (v + ?m) (sz - ?m) rw pl (tot + ?m)"
        using False mapped(1) by (subst pdt_map_loop.simps) simp
      have kn: "k \<le> n" using mapped(5) less.prems(2) by simp
      have um: "unat ?m = 4096 * k"
        using idx_offset [of k] kn less.prems(2) unat_lt_u32 [of sz] by (simp add: mult.commute)
      have usz: "unat (sz - ?m) = 4096 * (n - k)"
        using um mapped(5) less.prems(2) by (simp add: unat_sub_nowrap algebra_simps)
      show ?thesis
      proof (cases "k = n")
        case True
        then have "sz - ?m = 0" using usz by (simp add: unat_eq_zero [symmetric])
        then have "pdt_map_loop s pdt paddr v sz rw pl tot = Some (s', tot + ?m)" "tot + ?m = tot + sz"
          unfolding step by (subst pdt_map_loop.simps, simp, simp)
        with mapped True show ?thesis by blast
      next
        case False
        with kn have lt: "k < n" by simp
        have vk: "vpn (v + ?m) = vpn v + k" by (rule vpn_add_pages) (use lt less.prems(3) in simp)
        have b: "n - k < n" "vpn (v + ?m) + (n - k) \<le> 2 ^ 20" using mapped(2) vk lt less.prems(3) by simp_all
        obtain k' s'' r where IH: "pdt_map_loop s' pdt (paddr + ?m) (v + ?m) (sz - ?m) rw pl (tot + ?m) = Some (s'', r)"
            "k' \<le> n - k" "maps_to s' pdt (v + ?m) k' (paddr + ?m) rw pl s''" "pdt_wf s'' pdt"
            "k' = n - k \<and> r = tot + ?m + (sz - ?m) \<or>
             k' < n - k \<and> r = 0 \<and> map_obstacle s' pdt (v + ?m + 4096 * of_nat k') s''"
          using less.IH [OF b(1) mapped(4) usz b(2), of "paddr + ?m" "tot + ?m"] by blast
        have tr: "maps_to s pdt v (k + k') paddr rw pl s''"
          by (rule maps_to_trans [OF mapped(3) IH(3)]) (use lt less.prems(3) in simp)
        have ob: "map_obstacle s pdt (v + 4096 * of_nat (k + k')) s''"
          if "k' < n - k" "map_obstacle s' pdt (v + ?m + 4096 * of_nat k') s''"
        proof -
          have e: "v + ?m + 4096 * of_nat k' = v + 4096 * of_nat (k + k')" by (simp add: algebra_simps)
          have "vpn (v + 4096 * of_nat (k + k')) = vpn v + (k + k')"
            by (rule vpn_add_pages) (use that(1) less.prems(3) in simp)
          with that(2) e show ?thesis by (intro map_obstacle_earlier [OF mapped(3)]) simp_all
        qed
        have fin: "k + k' = n \<and> r = tot + sz \<or> k + k' < n \<and> r = 0 \<and> map_obstacle s pdt (v + 4096 * of_nat (k + k')) s''"
          using IH(5)
        proof
          assume "k' = n - k \<and> r = tot + ?m + (sz - ?m)"
          then have "k + k' = n \<and> r = tot + sz" using lt by simp
          then show ?thesis ..
        qed (use ob lt in auto)
        show ?thesis unfolding step using IH(1,2,4) tr fin kn
          by (intro exI [of _ "k + k'"] exI [of _ s''] exI [of _ r]) simp
      qed
    qed
  qed
qed

lemma pdt_map_memory_result:
  assumes "pdt_wf s pdt" and "sz \<le> 0xFFFFF000" and "n = unat (align_up sz 4096) div 4096" and "vpn v + n \<le> 2 ^ 20"
  shows "\<exists>k s' r. pdt_map_memory s pdt paddr v sz rw pl = Some (s', r) \<and> k \<le> n \<and>
      maps_to s pdt v k paddr rw pl s' \<and> pdt_wf s' pdt \<and>
      (k = n \<and> r = align_up sz 4096 \<or> k < n \<and> r = 0 \<and> map_obstacle s pdt (v + 4096 * of_nat k) s')"
  using pdt_map_loop_result [OF assms(1) _ assms(4), of "align_up sz 4096" paddr rw pl 0]
    align_up_page(1) [OF assms(2)] assms(3)
  by (simp add: pdt_map_memory_def)

section \<open>Properties\<close>

text \<open>An example: the kernel's directory with its own page table at \<open>0x102000\<close> in slot 768, and
  the six free frames of \<open>example_pfa\<close>.\<close>

definition example_paging :: paging where
  "example_paging = \<lparr>kernel_pdt = 0xC0101000, kernel_pt = 0xC0102000,
     pdts = (\<lambda>_ _. zero_pde)(0xC0101000 := (\<lambda>_. zero_pde)(768 := make_pde 0x102000 PS_4KB PAGING_READ_WRITE PAGING_PL0)),
     pts = (\<lambda>_ _. zero_pte)(0x102000 := (\<lambda>_. zero_pte)(0 := make_pte 0x100000 PAGING_READ_WRITE PAGING_PL0)),
     pfa_st = example_pfa, invlpgs = [], cr3 = 0x101000\<rparr>"

lemma example_free: "p \<in> free_frames example_pfa \<Longrightarrow> 0x200000 \<le> unat p"
proof -
  assume "p \<in> free_frames example_pfa"
  then obtain i where i: "i < unat (pf_len example_pfa)" "p = frame_addr example_pfa i"
    by (auto simp: free_frames_iff)
  then have "i < length (frames (mmap_used example_pfa))" using example_pfa_inv by (simp add: pfa_inv_def)
  then have "frames (mmap_used example_pfa) ! i \<in> set (frames (mmap_used example_pfa))" by (rule nth_mem)
  moreover have "unat p = frames (mmap_used example_pfa) ! i"
    using unat_frame_addr(1) [OF example_pfa_inv i(1)] i(2) by simp
  ultimately have "unat p \<in> {0x200000, 0x201000, 0x202000, 0x203000, 0x400000, 0x401000}"
    by (simp only: example_frames list.set)
  then show ?thesis by auto
qed

lemma example_paging_wf: "pdt_wf example_paging 0xC0101000"
proof -
  have "(0x102000 :: u32) \<notin> free_frames example_pfa" using example_free [of "0x102000"] by auto
  moreover have "get_pt_paddr (make_pde 0x102000 PS_4KB PAGING_READ_WRITE PAGING_PL0) = 0x102000"
    by (simp add: get_pt_paddr_make)
  ultimately show ?thesis
    using example_pfa_inv
    by (simp add: pdt_wf_def example_paging_def window_ok_def kernel_pt_frame_def present_make_entries)
qed

text \<open>C2. \<open>pdt_map_memory\<close> always returns, and its result tells what it did. For a request of \<open>n\<close>
  pages (the size rounded up) that stays inside the address space it enters the first \<open>k\<close> pages,
  read-write and privilege bits as asked, each at the next frame from \<open>paddr\<close> on, and no other page of
  the directory changes. It returns the rounded size when \<open>k = n\<close>; otherwise it returns 0, and page
  \<open>k\<close> was already mapped, or is the kernel's temporary window, or no frame was left for a page
  table. The invariant of directory and allocator is kept.\<close>

theorem pdt_map_memory_correct:
  assumes "pdt_wf s pdt" and "sz \<le> 0xFFFFF000" and "n = unat (align_up sz 4096) div 4096"
    and "vpn v + n \<le> 2 ^ 20"
  shows "\<exists>k s' r. pdt_map_memory s pdt paddr v sz rw pl = Some (s', r) \<and> k \<le> n \<and> pdt_wf s' pdt \<and>
      (\<forall>x. page_entry s' pdt x =
         (if vpn v \<le> vpn x \<and> vpn x < vpn v + k
          then Some (make_pte (paddr + 4096 * of_nat (vpn x - vpn v)) rw pl) else page_entry s pdt x)) \<and>
      (k = n \<and> r = align_up sz 4096 \<or>
       k < n \<and> r = 0 \<and> (free_frames (pfa_st s') = {} \<or>
         page_entry s pdt (v + 4096 * of_nat k) \<noteq> None \<or> vpn (v + 4096 * of_nat k) = 0xC03FF))"
proof -
  obtain k s' r where h: "pdt_map_memory s pdt paddr v sz rw pl = Some (s', r)" "k \<le> n"
      "maps_to s pdt v k paddr rw pl s'" "pdt_wf s' pdt"
      "k = n \<and> r = align_up sz 4096 \<or> k < n \<and> r = 0 \<and> map_obstacle s pdt (v + 4096 * of_nat k) s'"
    using pdt_map_memory_result [OF assms] by blast
  have "\<forall>x. page_entry s' pdt x = (if vpn v \<le> vpn x \<and> vpn x < vpn v + k
      then Some (make_pte (paddr + 4096 * of_nat (vpn x - vpn v)) rw pl) else page_entry s pdt x)"
    using h(3) unfolding maps_to_def by blast
  with h show ?thesis unfolding map_obstacle_def by blast
qed

theorem pdt_map_memory_correct_witness:
  "\<exists>k s' r. pdt_map_memory example_paging 0xC0101000 0x400000 0xC0400000 0x1800 1 0 = Some (s', r) \<and> k \<le> (2 :: nat) \<and>
     pdt_wf s' 0xC0101000"
proof -
  have "(0x1800 :: u32) \<le> 0xFFFFF000" "(2::nat) = unat (align_up 0x1800 4096) div 4096"
    "vpn 0xC0400000 + 2 \<le> 2 ^ 20"
    by (simp_all add: align_up_def vpn_def)
  from pdt_map_memory_correct [OF example_paging_wf this] show ?thesis by blast
qed



end
