(* ===== verification/Paging_Kernel.thy ===== *)
theory Paging_Kernel
  imports Paging_Map
begin

text \<open>
  The kernel's own address space: finding room in it (\<open>pdt_kernel_find_next_vaddr\<close>), mapping what
  was found, making a directory (\<open>pdt_create\<close>), switching to one (\<open>pdt_load_process_pdt\<close>), and
  \<open>pdt_delete\<close>.
\<close>

section \<open>A run of free entries in one table\<close>

definition run_at :: "(u32 \<Rightarrow> pte) \<Rightarrow> u32 \<Rightarrow> nat \<Rightarrow> nat \<Rightarrow> bool" where
  "run_at tbl d a n \<longleftrightarrow> (\<forall>j. a \<le> j \<and> j < a + n \<longrightarrow> \<not> pt_blocked tbl d (of_nat j))"

lemma run_at_0 [simp]: "run_at tbl d a 0"
  by (auto simp: run_at_def)

lemma run_at_extend: "run_at tbl d a n \<Longrightarrow> \<not> pt_blocked tbl d (of_nat (a + n)) \<Longrightarrow> run_at tbl d a (Suc n)"
  unfolding run_at_def by (metis add_Suc_right less_Suc_eq)

lemma pt_find_loop_result:
  assumes "tbl = pts s (pt_frame s pt)" and "i \<le> 1024" and "unat found < unat num" and "unat found \<le> unat i"
    and "run_at tbl d (unat i - unat found) (unat found)" and "found \<noteq> 0 \<Longrightarrow> unat org_i = unat i - unat found"
    and "\<And>a. a < unat i - unat found \<Longrightarrow> a + unat num \<le> 1024 \<Longrightarrow> \<not> run_at tbl d a (unat num)"
  shows "(\<exists>a. pt_find_loop s d pt num i found org_i = PDT_IDX_TO_VIRTUAL d OR PT_IDX_TO_VIRTUAL (of_nat a) \<and>
            a + unat num \<le> 1024 \<and> run_at tbl d a (unat num)) \<or>
         (pt_find_loop s d pt num i found org_i = 0 \<and>
            (\<forall>a. a + unat num \<le> 1024 \<longrightarrow> \<not> run_at tbl d a (unat num)))"
  using assms
proof (induction s d pt num i found org_i rule: pt_find_loop.induct)
  case (1 s d pt num i found org_i)
  note [simp] = load_pte_def "1.prems"(1) [symmetric]
  let ?i = "unat i" and ?f = "unat found" and ?n = "unat num"
  have ui: "of_nat ?i = i" by simp
  show ?case
  proof (cases "i < 1024")
    case False
    then have i: "i = 1024" using "1.prems"(2) by simp
    then have "pt_find_loop s d pt num i found org_i = 0" by (subst pt_find_loop.simps) simp
    moreover have "\<not> run_at tbl d a ?n" if "a + ?n \<le> 1024" for a
      using "1.prems"(7) [of a] that "1.prems"(3) i by simp
    ultimately show ?thesis by blast
  next
    case lt: True
    have inc: "unat (i + 1) = Suc ?i" by (rule unat_inc [OF lt])
    then have le: "i + 1 \<le> 1024" using lt by (simp add: word_le_nat_alt word_less_nat_alt)
    show ?thesis
    proof (cases "pt_blocked tbl d i")
      case True
      then have c: "pte_present (load_pte s pt i) \<or> (d = KERNEL_PT_PDT_IDX \<and> i = KERNEL_TMP_PT_IDX)"
        using lt by (simp add: pt_blocked_def)
      have step: "pt_find_loop s d pt num i found org_i = pt_find_loop s d pt num (i + 1) 0 org_i"
        using lt c by (subst pt_find_loop.simps) auto
      have none: "\<not> run_at tbl d a ?n" if "a < unat (i + 1) - unat (0::u32)" "a + ?n \<le> 1024" for a
      proof (cases "a < ?i - ?f")
        case True
        then show ?thesis using "1.prems"(7) that(2) by blast
      next
        case False
        then have "a \<le> ?i" "?i < a + ?n" using that inc "1.prems"(3,4) by simp_all
        with \<open>pt_blocked tbl d i\<close> show ?thesis unfolding run_at_def using ui by metis
      qed
      show ?thesis unfolding step
        by (rule "1.IH"(1) [OF lt c "1.prems"(1) le])
           (use none "1.prems"(3) in simp_all)
    next
      case False
      then have c: "\<not> (pte_present (load_pte s pt i) \<or> (d = KERNEL_PT_PDT_IDX \<and> i = KERNEL_TMP_PT_IDX))"
        by (auto simp: pt_blocked_def)
      let ?org = "if found = 0 then i else org_i"
      have f1: "unat (found + 1) = Suc ?f"
        by (rule unat_inc [of found num]) (use "1.prems"(3) in \<open>simp add: word_less_nat_alt\<close>)
      have org: "unat ?org = ?i - ?f" using "1.prems"(6) by simp
      have run: "run_at tbl d (?i - ?f) (Suc ?f)"
        using run_at_extend [OF "1.prems"(5)] False "1.prems"(4) by simp
      show ?thesis
      proof (cases "found + 1 = num")
        case True
        then have "pt_find_loop s d pt num i found org_i = PDT_IDX_TO_VIRTUAL d OR PT_IDX_TO_VIRTUAL ?org"
          by (subst pt_find_loop.simps) (simp only: if_P [OF lt] if_not_P [OF c] Let_def refl if_True)
        moreover have "?org = of_nat (?i - ?f)" unfolding org [symmetric] by (simp only: of_nat_unat_u32)
        moreover have "?n = Suc ?f" using f1 True by simp
        ultimately show ?thesis
          using run lt "1.prems"(4) by (intro disjI1 exI [of _ "?i - ?f"]) (simp add: word_less_nat_alt)
      next
        case ne: False
        have step: "pt_find_loop s d pt num i found org_i = pt_find_loop s d pt num (i + 1) (found + 1) ?org"
          by (subst pt_find_loop.simps) (simp only: if_P [OF lt] if_not_P [OF c] Let_def ne if_False)
        have lt': "unat (found + 1) < ?n"
          using ne f1 "1.prems"(3) by (metis Suc_lessI word_unat_eq_iff)
        show ?thesis unfolding step
        proof (rule "1.IH"(2) [OF lt c refl refl ne "1.prems"(1) le lt'])
          show "run_at tbl d (unat (i + 1) - unat (found + 1)) (unat (found + 1))" using run inc f1 by simp
          show "\<not> run_at tbl d a ?n" if "a < unat (i + 1) - unat (found + 1)" "a + ?n \<le> 1024" for a
            using "1.prems"(7) that inc f1 by simp
        qed (use org inc f1 "1.prems"(4) in simp_all)
      qed
    qed
  qed
qed

section \<open>A run of free pages of the kernel\<close>

definition page_addr :: "u32 \<Rightarrow> nat \<Rightarrow> u32" where
  "page_addr d a = PDT_IDX_TO_VIRTUAL d OR PT_IDX_TO_VIRTUAL (of_nat a)"

lemma unat_page_addr:
  assumes "d < 1024" and "a < 1024"
  shows "unat (page_addr d a) = 4194304 * unat d + 4096 * a"
proof -
  let ?x = "push_bit 22 d" and ?y = "push_bit 12 (of_nat a) :: u32"
  have ua: "unat (of_nat a :: u32) = a" using assms(2) by (simp add: unat_of_nat_small)
  have x: "unat ?x = 4194304 * unat d"
    using assms(1) by (simp add: push_bit_eq_mult unat_mult_nowrap word_less_nat_alt mult.commute)
  have y: "unat ?y = 4096 * a"
    using assms(2) ua by (simp add: push_bit_eq_mult unat_mult_nowrap mult.commute)
  have take: "take_bit 22 ?y = ?y"
    using y assms(2) by (intro word_unat_eq_iff [THEN iffD2]) (simp add: take_bit_eq_mod unat_mod)
  have "?x AND ?y = ?x AND take_bit 22 ?y" by (simp only: take)
  also have "\<dots> = 0" by (rule bit_word_eqI) (auto simp: bit_simps)
  finally have "?x OR ?y = ?x + ?y" using word_plus_and_or [of ?x ?y] by simp
  moreover have "unat (?x + ?y) = unat ?x + unat ?y"
    using x y assms by (intro unat_add_nowrap) (simp add: word_less_nat_alt)
  ultimately show ?thesis
    using x y unfolding page_addr_def PDT_IDX_TO_VIRTUAL_def PT_IDX_TO_VIRTUAL_def by simp
qed

lemma vpn_page_addr: "d < 1024 \<Longrightarrow> a < 1024 \<Longrightarrow> vpn (page_addr d a) = 1024 * unat d + a"
  by (simp add: vpn_def unat_page_addr)

definition same_tables :: "paging \<Rightarrow> paging \<Rightarrow> bool" where
  "same_tables s s' \<longleftrightarrow> (\<exists>l. s' = s\<lparr>invlpgs := l\<rparr>)"

lemma same_tables_refl [simp]: "same_tables s s"
  unfolding same_tables_def by (intro exI [of _ "invlpgs s"]) simp

lemma same_tables_trans: "same_tables s s' \<Longrightarrow> same_tables s' s'' \<Longrightarrow> same_tables s s''"
  by (auto simp: same_tables_def)

lemma same_tables_fields:
  assumes "same_tables s s'"
  shows "kernel_pdt s' = kernel_pdt s" "kernel_pt s' = kernel_pt s" "pdts s' = pdts s" "pts s' = pts s"
    "pfa_st s' = pfa_st s" "cr3 s' = cr3 s" "window_ok s' = window_ok s" "kernel_pt_frame s' = kernel_pt_frame s"
    "page_entry s' q x = page_entry s q x" "pdt_wf s' q = pdt_wf s q"
  using assms
  by (auto simp: same_tables_def window_ok_def kernel_pt_frame_def page_entry_def pdt_wf_def Let_def)

lemma same_tables_restored: "same_tables s (put_window (put_window s e) (window_entry s))"
  unfolding same_tables_def window_restored by blast

lemma blocked_put_window:
  assumes "f = kernel_pt_frame s \<Longrightarrow> d = KERNEL_PT_PDT_IDX"
  shows "pt_blocked (pts (put_window s e) f) d j = pt_blocked (pts s f) d j"
  using assms by (auto simp: pt_blocked_def pts_put_window)

text \<open>The room in one slot of the kernel's directory.\<close>

definition slot_run :: "paging \<Rightarrow> u32 \<Rightarrow> nat \<Rightarrow> nat \<Rightarrow> bool" where
  "slot_run s d a n \<longleftrightarrow>
     (let e = pdts s (kernel_pdt s) d
      in pde_present e \<longrightarrow> run_at (pts s (get_pt_paddr e)) d a n)"

lemma slot_found:
  assumes wf: "pdt_wf s (kernel_pdt s)" and d: "d < 1024" "pde_present (pdts s (kernel_pdt s) d)"
    and num: "num \<noteq> 0"
  defines "f \<equiv> get_pt_paddr (pdts s (kernel_pdt s) d)"
  shows "(\<exists>a. pt_find_loop (put_window s (make_pte f PAGING_READ_WRITE PAGING_PL0)) d KERNEL_TMP_VADDR num 0 0 0 =
              page_addr d a \<and> a + unat num \<le> 1024 \<and> slot_run s d a (unat num)) \<or>
         (pt_find_loop (put_window s (make_pte f PAGING_READ_WRITE PAGING_PL0)) d KERNEL_TMP_VADDR num 0 0 0 = 0 \<and>
              (\<forall>a. a + unat num \<le> 1024 \<longrightarrow> \<not> slot_run s d a (unat num)))"
proof -
  let ?w = "put_window s (make_pte f PAGING_READ_WRITE PAGING_PL0)"
  have fr: "pt_frame ?w KERNEL_TMP_VADDR = f" by (simp add: get_pf_paddr_make f_def get_pt_paddr_masked)
  have "f = kernel_pt_frame s \<Longrightarrow> d = KERNEL_PT_PDT_IDX" using pdt_wfD(5) [OF wf d] by (simp add: f_def)
  then have "run_at (pts ?w f) d a n = run_at (pts s f) d a n" for a n
    unfolding run_at_def by (simp add: blocked_put_window)
  then have run: "run_at (pts ?w f) d a n = slot_run s d a n" for a n
    using d(2) by (simp add: slot_run_def f_def)
  show ?thesis
    using pt_find_loop_result [of "pts ?w f" ?w KERNEL_TMP_VADDR 0 0 num d 0] num fr run
    by (simp add: unat_gt_0 page_addr_def)
qed

definition find_post :: "paging \<Rightarrow> u32 \<Rightarrow> u32 \<Rightarrow> paging \<Rightarrow> u32 \<Rightarrow> bool" where
  "find_post s num i s' v \<longleftrightarrow> same_tables s s' \<and>
     ((\<exists>d a. v = page_addr d a \<and> i \<le> d \<and> d < 1024 \<and> a + unat num \<le> 1024 \<and> slot_run s d a (unat num)) \<or>
      v = 0 \<and> (\<forall>d a. i \<le> d \<and> d < 1024 \<and> a + unat num \<le> 1024 \<longrightarrow> \<not> slot_run s d a (unat num)))"

lemma find_post_next:
  assumes same: "same_tables s t" and i: "i < 1024"
    and none: "\<And>a. a + unat num \<le> 1024 \<Longrightarrow> \<not> slot_run s i a (unat num)" and post: "find_post t num (i + 1) s' v"
  shows "find_post s num i s' v"
proof -
  have run: "slot_run t d a n = slot_run s d a n" for d a n
    unfolding slot_run_def same_tables_fields [OF same] by (rule refl)
  have ge: "i \<le> d \<longleftrightarrow> d = i \<or> i + 1 \<le> d" for d
    using unat_inc [OF i] by (auto simp: word_le_nat_alt word_unat_eq_iff)
  from post have "same_tables s s'" unfolding find_post_def using same_tables_trans [OF same] by blast
  moreover have "(\<exists>d a. v = page_addr d a \<and> i \<le> d \<and> d < 1024 \<and> a + unat num \<le> 1024 \<and> slot_run s d a (unat num)) \<or>
      v = 0 \<and> (\<forall>d a. i \<le> d \<and> d < 1024 \<and> a + unat num \<le> 1024 \<longrightarrow> \<not> slot_run s d a (unat num))"
    using post none unfolding find_post_def run ge by auto
  ultimately show ?thesis unfolding find_post_def by blast
qed

lemma page_addr_nonzero:
  assumes "768 \<le> d" and "d < 1024" and "a < 1024"
  shows "page_addr d a \<noteq> 0"
  using unat_page_addr [OF assms(2,3)] assms(1) by (auto simp: unat_eq_zero [symmetric] word_le_nat_alt)

lemma pdt_find_loop_result:
  assumes "pdt_wf s (kernel_pdt s)" and num: "num = align_up sz 4096 div 4096" "num \<noteq> 0" "unat num \<le> 1024"
    and "768 \<le> i" and "i \<le> 1024" and "pdt_find_loop s sz i = (s', v)"
  shows "find_post s num i s' v"
  using assms(1,5-7)
proof (induction "1024 - unat i" arbitrary: s i rule: less_induct)
  case (less i s)
  have small: "a < 1024" if "a + unat num \<le> 1024" for a
    using that num(2) unat_gt_0 [of num] by linarith
  show ?case
  proof (cases "i < 1024")
    case False
    with less.prems(3,4) show ?thesis
      by (subst (asm) pdt_find_loop.simps) (auto simp: find_post_def)
  next
    case lt: True
    let ?e = "pdts s (kernel_pdt s) i"
    show ?thesis
    proof (cases "pde_present ?e")
      case False
      have "page_addr i 0 = PDT_IDX_TO_VIRTUAL i" by (simp add: page_addr_def PT_IDX_TO_VIRTUAL_def)
      moreover have "page_addr i 0 \<noteq> 0" using page_addr_nonzero [OF less.prems(2) lt] by simp
      ultimately have "s' = s" "v = page_addr i 0"
        using less.prems(4) lt False by (simp_all add: pdt_find_loop.simps [of s] Let_def)
      moreover have "slot_run s i 0 (unat num)" using False by (simp add: slot_run_def)
      ultimately show ?thesis using lt num(3) unfolding find_post_def
        by (intro conjI disjI1 exI [of _ i] exI [of _ 0]) simp_all
    next
      case True
      let ?w = "put_window s (make_pte (get_pt_paddr ?e) PAGING_READ_WRITE PAGING_PL0)"
      let ?v = "pt_find_loop ?w i KERNEL_TMP_VADDR num 0 0 0"
      let ?s = "put_window ?w (window_entry s)"
      note w = pdt_wfD(1) [OF less.prems(1)]
      have step: "pdt_find_loop s sz i = (if ?v \<noteq> 0 then (?s, ?v) else pdt_find_loop ?s sz (i + 1))"
        using lt True w
        by (subst pdt_find_loop.simps)
           (simp add: Let_def map_temporary_eq get_temporary_entry_eq set_temporary_eq
             pt_kernel_find_next_vaddr_def num(1))
      have same: "same_tables s ?s" by (rule same_tables_restored)
      consider a where "?v = page_addr i a" "a + unat num \<le> 1024" "slot_run s i a (unat num)"
        | "?v = 0" "\<And>a. a + unat num \<le> 1024 \<Longrightarrow> \<not> slot_run s i a (unat num)"
        using slot_found [OF less.prems(1) lt True num(2)] by blast
      then show ?thesis
      proof cases
        case 1
        then have "s' = ?s" "v = ?v"
          using less.prems(4) step page_addr_nonzero [OF less.prems(2) lt small [OF 1(2)]] by simp_all
        with 1 same lt show ?thesis unfolding find_post_def by blast
      next
        case 2
        have ui: "unat (i + 1) = Suc (unat i)" by (rule unat_inc [OF lt])
        have le: "768 \<le> i + 1" "i + 1 \<le> 1024" "1024 - unat (i + 1) < 1024 - unat i"
          using less.prems(2) lt ui by (simp_all add: word_le_nat_alt word_less_nat_alt)
        have "find_post ?s num (i + 1) s' v"
          using less.hyps [OF le(3) _ le(1,2)] less.prems(1,4) step 2(1) same_tables_fields [OF same] by simp
        with 2(2) show ?thesis by (rule find_post_next [OF same lt])
      qed
    qed
  qed
qed

text \<open>The room found, in terms of pages.\<close>

definition free_range :: "paging \<Rightarrow> u32 \<Rightarrow> nat \<Rightarrow> nat \<Rightarrow> bool" where
  "free_range s pdt p n \<longleftrightarrow>
     (\<forall>x. p \<le> vpn x \<and> vpn x < p + n \<longrightarrow> page_entry s pdt x = None \<and> vpn x \<noteq> 0xC03FF)"

lemma slot_run_pages:
  assumes k: "pde_present (pdts s (kernel_pdt s) 768)" and d: "d < 1024" and "a + n \<le> 1024"
    and run: "slot_run s d a n"
  shows "free_range s (kernel_pdt s) (1024 * unat d + a) n"
  unfolding free_range_def
proof (intro allI impI)
  fix x assume x: "1024 * unat d + a \<le> vpn x \<and> vpn x < 1024 * unat d + a + n"
  have "vpn x div 1024 = unat d" by (rule div_nat_eqI) (use x assms(3) in simp_all)
  then have dx: "VIRTUAL_TO_PDT_IDX x = d"
    by (intro word_unat_eq_iff [THEN iffD2]) (simp add: unat_pdt_idx)
  let ?j = "unat (VIRTUAL_TO_PT_IDX x)"
  have vx: "vpn x = 1024 * unat d + ?j" using vpn_split [of x] dx by simp
  have nb: "\<not> pt_blocked (pts s (get_pt_paddr (pdts s (kernel_pdt s) d))) d (VIRTUAL_TO_PT_IDX x)"
    if "pde_present (pdts s (kernel_pdt s) d)"
  proof -
    from run that have "run_at (pts s (get_pt_paddr (pdts s (kernel_pdt s) d))) d a n" by (simp add: slot_run_def Let_def)
    moreover have "a \<le> ?j \<and> ?j < a + n" using x vx by simp
    ultimately have "\<not> pt_blocked (pts s (get_pt_paddr (pdts s (kernel_pdt s) d))) d (of_nat ?j)"
      unfolding run_at_def by blast
    then show ?thesis by simp
  qed
  have "page_entry s (kernel_pdt s) x = None"
    using nb dx by (auto simp: page_entry_def lookup_def pt_blocked_def Let_def)
  moreover have "vpn x \<noteq> 0xC03FF"
  proof
    assume "vpn x = 0xC03FF"
    moreover have "(1024 * unat d + ?j) div 1024 = unat d"
      using idx_bounds(1) [of x] by (simp add: word_less_nat_alt)
    ultimately have "unat d = 768" "?j = 1023" using vx by simp_all
    then have "d = 768" "VIRTUAL_TO_PT_IDX x = 1023" by (simp_all add: word_unat_eq_iff)
    then show False using nb k by (auto simp: pt_blocked_def)
  qed
  ultimately show "page_entry s (kernel_pdt s) x = None \<and> vpn x \<noteq> 0xC03FF" by blast
qed

lemma free_range_slot_run:
  assumes d: "d < 1024" and "a + n \<le> 1024" and fr: "free_range s (kernel_pdt s) (1024 * unat d + a) n"
  shows "slot_run s d a n"
  unfolding slot_run_def Let_def run_at_def
proof (intro impI allI)
  fix j assume pr: "pde_present (pdts s (kernel_pdt s) d)" and j: "a \<le> j \<and> j < a + n"
  then have j1024: "j < 1024" using assms(2) by linarith
  let ?x = "page_addr d j"
  have v: "vpn ?x = 1024 * unat d + j" by (rule vpn_page_addr [OF d j1024])
  have i: "VIRTUAL_TO_PDT_IDX ?x = d" "VIRTUAL_TO_PT_IDX ?x = of_nat j"
    using v j1024 by (simp_all add: word_unat_eq_iff unat_pdt_idx unat_pt_idx unat_of_nat_small)
  have "1024 * unat d + a \<le> vpn ?x \<and> vpn ?x < 1024 * unat d + a + n" using v j by simp
  with fr have "page_entry s (kernel_pdt s) ?x = None" "vpn ?x \<noteq> 0xC03FF"
    unfolding free_range_def by blast+
  moreover have "vpn ?x = 0xC03FF" if "d = 768" "(of_nat j :: u32) = 1023"
  proof -
    have "unat (of_nat j :: u32) = j" using j1024 by (simp add: unat_of_nat_small)
    with that have "j = 1023" by simp
    with that(1) v show ?thesis by simp
  qed
  moreover have "(of_nat j :: u32) < 1024" using j1024 by (simp add: word_less_nat_alt unat_of_nat_small)
  ultimately show "\<not> pt_blocked (pts s (get_pt_paddr (pdts s (kernel_pdt s) d))) d (of_nat j)"
    using pr i by (auto simp: pt_blocked_def page_entry_def lookup_def split: if_splits)
qed

lemma find_pages:
  assumes "sz \<noteq> 0" and "sz \<le> 0x400000"
  shows "unat (align_up sz 4096 div 4096) = unat (align_up sz 4096) div 4096"
    and "align_up sz 4096 div 4096 \<noteq> 0" and "unat (align_up sz 4096) div 4096 \<le> 1024"
proof -
  have "sz \<le> 0xFFFFF000" using assms(2) by (rule order_trans) simp
  note al = align_up_page [OF this]
  show u: "unat (align_up sz 4096 div 4096) = unat (align_up sz 4096) div 4096" by (simp add: unat_div)
  have "0 < unat sz" "unat sz \<le> 0x400000" using assms by (simp_all add: unat_gt_0 word_le_nat_alt)
  with al have b: "0 < unat (align_up sz 4096) div 4096" "unat (align_up sz 4096) div 4096 \<le> 1024"
    by (auto elim!: dvdE)
  then show "unat (align_up sz 4096) div 4096 \<le> 1024" by blast
  show "align_up sz 4096 div 4096 \<noteq> 0" using b(1) u by (metis less_irrefl unat_0)
qed

lemma kernel_find_result:
  assumes wf: "pdt_wf s (kernel_pdt s)" and k: "pde_present (pdts s (kernel_pdt s) 768)"
    and sz: "sz \<noteq> 0" "sz \<le> 0x400000" and n: "n = unat (align_up sz 4096) div 4096"
    and find: "pdt_kernel_find_next_vaddr s sz = (s', v)"
  shows "same_tables s s'"
    and "v \<noteq> 0 \<Longrightarrow> 0xC0000 \<le> vpn v \<and> vpn v + n \<le> 2 ^ 20 \<and> 4096 dvd unat v \<and> free_range s (kernel_pdt s) (vpn v) n"
    and "v = 0 \<Longrightarrow> 0xC0000 \<le> p \<Longrightarrow> p < 2 ^ 20 \<Longrightarrow> p mod 1024 + n \<le> 1024 \<Longrightarrow> \<not> free_range s (kernel_pdt s) p n"
proof -
  let ?num = "align_up sz 4096 div 4096"
  note fp = find_pages [OF sz, folded n]
  have "pdt_find_loop s sz 768 = (s', v)"
    using find by (simp add: pdt_kernel_find_next_vaddr_def VIRTUAL_TO_PDT_IDX_def)
  then have post: "find_post s ?num 768 s' v"
    using pdt_find_loop_result [OF wf refl fp(2), of 768] fp(1,3) by simp
  then show "same_tables s s'" unfolding find_post_def by blast
  have small: "a < 1024" if "a + n \<le> 1024" for a
    using that fp(1,2) unat_gt_0 [of ?num] by linarith
  have nz: "page_addr d a \<noteq> 0" if "768 \<le> d" "d < 1024" "a + n \<le> 1024" for d a
    using page_addr_nonzero that small by blast
  show "0xC0000 \<le> vpn v \<and> vpn v + n \<le> 2 ^ 20 \<and> 4096 dvd unat v \<and> free_range s (kernel_pdt s) (vpn v) n" if "v \<noteq> 0"
  proof -
    from post that fp(1) obtain d a where da: "v = page_addr d a" "768 \<le> d" "d < 1024" "a + n \<le> 1024" "slot_run s d a n"
      unfolding find_post_def by auto
    have "vpn v = 1024 * unat d + a" "4096 dvd unat v"
      using vpn_page_addr [OF da(3) small [OF da(4)]] unat_page_addr [OF da(3) small [OF da(4)]] da(1) by simp_all
    with da slot_run_pages [OF k da(3-5)] show ?thesis by (auto simp: word_le_nat_alt word_less_nat_alt)
  qed
  show "\<not> free_range s (kernel_pdt s) p n" if "v = 0" "0xC0000 \<le> p" "p < 2 ^ 20" "p mod 1024 + n \<le> 1024"
  proof
    assume fr: "free_range s (kernel_pdt s) p n"
    let ?d = "of_nat (p div 1024) :: u32"
    have ud: "unat ?d = p div 1024" using that(3) by (simp add: unat_of_nat_small)
    then have d: "768 \<le> ?d" "?d < 1024" using that(2,3) by (simp_all add: word_le_nat_alt word_less_nat_alt)
    have "slot_run s ?d (p mod 1024) n"
      by (rule free_range_slot_run [OF d(2) that(4)]) (simp add: ud fr)
    with post that(1,4) d nz fp(1) show False unfolding find_post_def by force
  qed
qed

text \<open>A request for free pages fails for want of page frames only.\<close>

lemma map_free_range:
  assumes "pdt_wf s pdt" and "sz \<le> 0xFFFFF000" and n: "n = unat (align_up sz 4096) div 4096"
    and "vpn v + n \<le> 2 ^ 20" and fr: "free_range s pdt (vpn v) n"
  obtains (full) s' where "pdt_map_memory s pdt paddr v sz rw pl = Some (s', align_up sz 4096)"
      "maps_to s pdt v n paddr rw pl s'" "pdt_wf s' pdt"
  | (exhausted) k s' where "pdt_map_memory s pdt paddr v sz rw pl = Some (s', 0)" "k < n"
      "maps_to s pdt v k paddr rw pl s'" "pdt_wf s' pdt" "free_frames (pfa_st s') = {}"
proof -
  obtain k s' r where h: "pdt_map_memory s pdt paddr v sz rw pl = Some (s', r)" "k \<le> n"
      "maps_to s pdt v k paddr rw pl s'" "pdt_wf s' pdt"
      "k = n \<and> r = align_up sz 4096 \<or> k < n \<and> r = 0 \<and> map_obstacle s pdt (v + 4096 * of_nat k) s'"
    using pdt_map_memory_result [OF assms(1-4)] by blast
  show thesis
  proof (cases "k = n")
    case True
    with h show ?thesis by (intro full) auto
  next
    case False
    with h(2) have k: "k < n" by simp
    have vk: "vpn (v + 4096 * of_nat k) = vpn v + k" by (rule vpn_add_pages) (use k assms(4) in simp)
    have "vpn v \<le> vpn (v + 4096 * of_nat k) \<and> vpn (v + 4096 * of_nat k) < vpn v + n" using vk k by simp
    with fr have "page_entry s pdt (v + 4096 * of_nat k) = None" "vpn (v + 4096 * of_nat k) \<noteq> 0xC03FF"
      unfolding free_range_def by blast+
    with h(5) False have "free_frames (pfa_st s') = {}" "r = 0" by (auto simp: map_obstacle_def)
    with h k show ?thesis by (intro exhausted) auto
  qed
qed

section \<open>Directories\<close>

lemma get_pdt_paddr_eq:
  assumes wf: "pdt_wf s (kernel_pdt s)" and pdt: "vpn pdt \<noteq> 0xC03FF" and e: "page_entry s (kernel_pdt s) pdt = Some e"
  shows "same_tables s (fst (get_pdt_paddr s pdt))" and "snd (get_pdt_paddr s pdt) = get_pf_paddr e"
proof -
  let ?d = "VIRTUAL_TO_PDT_IDX pdt" and ?i = "VIRTUAL_TO_PT_IDX pdt"
  let ?f = "get_pt_paddr (pdts s (kernel_pdt s) ?d)"
  let ?w = "put_window s (make_pte ?f PAGING_READ_WRITE PAGING_PL0)"
  have g: "get_pdt_paddr s pdt = (put_window ?w (window_entry s), get_pf_paddr (pts ?w ?f ?i))"
    using pdt_wfD(1) [OF wf] by (simp add: get_pdt_paddr_def Let_def map_temporary_eq get_temporary_entry_eq set_temporary_eq
        load_pte_def get_pf_paddr_make get_pt_paddr_masked)
  show "same_tables s (fst (get_pdt_paddr s pdt))" unfolding g by (simp add: same_tables_restored)
  from e have pr: "pde_present (pdts s (kernel_pdt s) ?d)" "pts s ?f ?i = e"
    by (auto simp: page_entry_def lookup_def Let_def split: if_splits)
  have "\<not> (?f = kernel_pt_frame s \<and> ?i = KERNEL_TMP_PT_IDX)"
    using pdt_wfD(5) [OF wf idx_bounds(2) pr(1)] pdt vpn_split [of pdt] by auto
  then have "pts ?w ?f ?i = pts s ?f ?i" by (simp only: pts_put_window if_False)
  then show "snd (get_pdt_paddr s pdt) = get_pf_paddr e" using g pr(2) by simp
qed

lemma pdt_delete_loop_eq: "pdt_delete_loop s pdt i = s"
proof (induction s pdt i rule: pdt_delete_loop.induct)
  case (1 s pdt i)
  have "\<not> (pde_present (pdts s pdt i) \<and> pde_is_page_table (pdts s pdt i))"
    by (simp add: pde_present_def pde_is_page_table_def)
  note n = if_not_P [OF this]
  show ?case
    using 1 unfolding n by (subst pdt_delete_loop.simps) (simp only: n, simp)
qed

lemma pdt_copy_kernel_loop_eq:
  assumes "pdt \<noteq> kernel_pdt s" and "i \<le> 1024"
  shows "pdt_copy_kernel_loop s pdt i = s\<lparr>pdts := (pdts s)(pdt := (\<lambda>j.
     if i \<le> j \<and> j < 1024 \<and> pde_present (pdts s (kernel_pdt s) j) then pdts s (kernel_pdt s) j else pdts s pdt j))\<rparr>"
  using assms
proof (induction s pdt i rule: pdt_copy_kernel_loop.induct)
  case (1 s pdt i)
  show ?case
  proof (cases "i < 1024")
    case False
    then have "\<not> (i \<le> j \<and> j < 1024)" for j by auto
    then have "(\<lambda>j. if i \<le> j \<and> j < 1024 \<and> pde_present (pdts s (kernel_pdt s) j) then pdts s (kernel_pdt s) j
        else pdts s pdt j) = pdts s pdt" by (intro ext) auto
    with False show ?thesis by (subst pdt_copy_kernel_loop.simps) simp
  next
    case True
    have ge: "i \<le> j \<longleftrightarrow> j = i \<or> i + 1 \<le> j" "\<not> i + 1 \<le> i" "i + 1 \<le> 1024" for j
      using unat_inc [OF True] True by (auto simp: word_le_nat_alt word_less_nat_alt word_unat_eq_iff)
    let ?s = "if pde_present (pdts s (kernel_pdt s) i) then store_pde s pdt i (pdts s (kernel_pdt s) i) else s"
    have kp: "kernel_pdt ?s = kernel_pdt s" by simp
    have IH: "pdt_copy_kernel_loop ?s pdt (i + 1) = ?s\<lparr>pdts := (pdts ?s)(pdt := (\<lambda>j.
       if i + 1 \<le> j \<and> j < 1024 \<and> pde_present (pdts ?s (kernel_pdt ?s) j) then pdts ?s (kernel_pdt ?s) j
       else pdts ?s pdt j))\<rparr>"
      using "1.IH" [OF True _ ge(3)] "1.prems"(1) kp by (simp only: not_False_eq_True)
    have "pdt_copy_kernel_loop s pdt i = pdt_copy_kernel_loop ?s pdt (i + 1)"
      using True by (subst pdt_copy_kernel_loop.simps) simp
    also have "\<dots> = s\<lparr>pdts := (pdts s)(pdt := (\<lambda>j.
     if i \<le> j \<and> j < 1024 \<and> pde_present (pdts s (kernel_pdt s) j) then pdts s (kernel_pdt s) j else pdts s pdt j))\<rparr>"
      unfolding IH using "1.prems"(1) True ge(1,2)
      by (auto simp: store_pde_def fun_eq_iff intro!: paging.equality)
    finally show ?thesis .
  qed
qed

section \<open>Properties\<close>

lemma example_kernel: "pdt_wf example_paging (kernel_pdt example_paging)"
    "pde_present (pdts example_paging (kernel_pdt example_paging) 768)"
  using example_paging_wf by (simp_all add: example_paging_def present_make_entries)

text \<open>\<open>pdt_kernel_find_next_vaddr\<close> changes no table, and its result is right both ways: an
  address it returns starts the requested number of pages in the kernel's part of the address
  space, none of them mapped and none of them the temporary window; and it returns 0 only when
  no such run of pages exists inside any one page table.\<close>

lemma kernel_find_next_vaddr_correct:
  assumes "pdt_wf s (kernel_pdt s)" and "pde_present (pdts s (kernel_pdt s) 768)"
    and "sz \<noteq> 0" and "sz \<le> 0x400000" and "n = unat (align_up sz 4096) div 4096"
    and "pdt_kernel_find_next_vaddr s sz = (s', v)"
  shows "same_tables s s' \<and>
    (v \<noteq> 0 \<longrightarrow> 0xC0000 \<le> vpn v \<and> vpn v + n \<le> 2 ^ 20 \<and> 4096 dvd unat v \<and> free_range s (kernel_pdt s) (vpn v) n) \<and>
    (v = 0 \<longrightarrow> (\<forall>p. 0xC0000 \<le> p \<and> p < 2 ^ 20 \<and> p mod 1024 + n \<le> 1024 \<longrightarrow> \<not> free_range s (kernel_pdt s) p n))"
  using kernel_find_result [OF assms] by blast

lemma kernel_find_map_result:
  assumes "pdt_wf s (kernel_pdt s)" and "pde_present (pdts s (kernel_pdt s) 768)"
    and "sz \<noteq> 0" and "sz \<le> 0x400000" and "n = unat (align_up sz 4096) div 4096"
    and "pdt_kernel_find_next_vaddr s sz = (s1, v)" and "v \<noteq> 0"
  obtains s' r k where "pdt_map_kernel_memory s1 paddr v sz rw pl = Some (s', r)" "pdt_wf s' (kernel_pdt s')"
    "kernel_pdt s' = kernel_pdt s"
    "\<And>x. page_entry s' (kernel_pdt s) x =
       (if vpn v \<le> vpn x \<and> vpn x < vpn v + k
        then Some (make_pte (paddr + 4096 * of_nat (vpn x - vpn v)) rw pl) else page_entry s (kernel_pdt s) x)"
    "r = align_up sz 4096 \<and> k = n \<or> r = 0 \<and> k < n \<and> free_frames (pfa_st s') = {}"
proof -
  note f = kernel_find_result [OF assms(1-6)]
  note same = same_tables_fields [OF f(1)]
  have wf: "pdt_wf s1 (kernel_pdt s)" and pe: "page_entry s1 (kernel_pdt s) = page_entry s (kernel_pdt s)"
    using assms(1) same by auto
  then have fr: "free_range s1 (kernel_pdt s) (vpn v) n" using f(2) [OF assms(7)] by (simp add: free_range_def)
  have b: "sz \<le> 0xFFFFF000" "vpn v + n \<le> 2 ^ 20"
    using assms(4) f(2) [OF assms(7)] by (auto intro: order_trans)
  have eq: "pdt_map_kernel_memory s1 paddr v sz rw pl = pdt_map_memory s1 (kernel_pdt s) paddr v sz rw pl"
    by (simp add: pdt_map_kernel_memory_def same(1))
  show thesis
    using wf b(1) assms(5) b(2) fr
  proof (cases rule: map_free_range [where paddr = paddr and rw = rw and pl = pl])
    case (full s')
    then have "kernel_pdt s' = kernel_pdt s" using same(1) unfolding maps_to_def by simp
    moreover note full(2) [unfolded maps_to_def pe]
    ultimately show ?thesis using full by (intro that [of s' _ n]) (auto simp: eq)
  next
    case (exhausted k s')
    then have "kernel_pdt s' = kernel_pdt s" using same(1) unfolding maps_to_def by simp
    moreover note exhausted(3) [unfolded maps_to_def pe]
    ultimately show ?thesis using exhausted by (intro that [of s' _ k]) (auto simp: eq)
  qed
qed

text \<open>C19. Finding room and mapping it work together, as every part of the kernel uses them: mapping at
  an address that \<open>pdt_kernel_find_next_vaddr\<close> returned maps the whole request, and nothing else
  in the kernel's address space changes; it fails only when the page frames are exhausted.\<close>

theorem kernel_find_map_correct:
  assumes "pdt_wf s (kernel_pdt s)" and "pde_present (pdts s (kernel_pdt s) 768)"
    and "sz \<noteq> 0" and "sz \<le> 0x400000" and "n = unat (align_up sz 4096) div 4096"
    and "pdt_kernel_find_next_vaddr s sz = (s1, v)" and "v \<noteq> 0"
  shows "\<exists>s' r. pdt_map_kernel_memory s1 paddr v sz rw pl = Some (s', r) \<and> pdt_wf s' (kernel_pdt s') \<and>
     (r = align_up sz 4096 \<and>
        (\<forall>x. page_entry s' (kernel_pdt s) x =
           (if vpn v \<le> vpn x \<and> vpn x < vpn v + n
            then Some (make_pte (paddr + 4096 * of_nat (vpn x - vpn v)) rw pl)
            else page_entry s (kernel_pdt s) x)) \<or>
      r = 0 \<and> free_frames (pfa_st s') = {})"
proof (rule kernel_find_map_result [OF assms, of paddr rw pl])
  fix s' r k
  assume h: "pdt_map_kernel_memory s1 paddr v sz rw pl = Some (s', r)" "pdt_wf s' (kernel_pdt s')"
    "\<And>x. page_entry s' (kernel_pdt s) x =
       (if vpn v \<le> vpn x \<and> vpn x < vpn v + k
        then Some (make_pte (paddr + 4096 * of_nat (vpn x - vpn v)) rw pl) else page_entry s (kernel_pdt s) x)"
    "r = align_up sz 4096 \<and> k = n \<or> r = 0 \<and> k < n \<and> free_frames (pfa_st s') = {}"
  from h(4) show ?thesis
    by (intro exI [of _ s'] exI [of _ r]) (use h(1-3) in blast)
qed

theorem kernel_find_map_correct_witness:
  "\<exists>s1 s' r. pdt_kernel_find_next_vaddr example_paging 0x3000 = (s1, 0xC0001000) \<and>
     pdt_map_kernel_memory s1 0x400000 0xC0001000 0x3000 1 0 = Some (s', r)"
proof -
  have "snd (pdt_kernel_find_next_vaddr example_paging 0x3000) = 0xC0001000" by code_simp
  then obtain s1 where f: "pdt_kernel_find_next_vaddr example_paging 0x3000 = (s1, 0xC0001000)"
    by (metis prod.collapse)
  have "(0x3000 :: u32) \<noteq> 0" "(0x3000 :: u32) \<le> 0x400000" "(3 :: nat) = unat (align_up 0x3000 4096) div 4096"
    by (simp_all add: align_up_def)
  from kernel_find_map_correct [OF example_kernel this f, of "0x400000" 1 0] f show ?thesis by auto
qed

text \<open>\<open>pdt_load_process_pdt\<close> shares the kernel's half of the address space with a process: after
  it every present kernel entry from slot 768 on is in the process's directory, so every kernel
  page translates alike in both, the entries below stay as they were, and \<open>cr3\<close> holds the
  directory's frame.\<close>

lemma pdt_load_process_pdt_correct:
  assumes "pdt \<noteq> kernel_pdt s" and "4096 dvd unat paddr"
  shows "cr3 (pdt_load_process_pdt s pdt paddr) = paddr OR 8 \<and>
         (\<forall>i. pdts (pdt_load_process_pdt s pdt paddr) pdt i =
            (if 768 \<le> i \<and> i < 1024 \<and> pde_present (pdts s (kernel_pdt s) i) then pdts s (kernel_pdt s) i else pdts s pdt i)) \<and>
         (\<forall>x. 0xC0000 \<le> vpn x \<and> pde_present (pdts s (kernel_pdt s) (VIRTUAL_TO_PDT_IDX x)) \<longrightarrow>
            page_entry (pdt_load_process_pdt s pdt paddr) pdt x = page_entry s (kernel_pdt s) x)"
proof -
  have eq: "pdt_load_process_pdt s pdt paddr = pdt_set (s\<lparr>pdts := (pdts s)(pdt := (\<lambda>j.
     if 768 \<le> j \<and> j < 1024 \<and> pde_present (pdts s (kernel_pdt s) j) then pdts s (kernel_pdt s) j else pdts s pdt j))\<rparr>) paddr"
    unfolding pdt_load_process_pdt_def by (subst pdt_copy_kernel_loop_eq [OF assms(1)]) simp_all
  have idx: "768 \<le> VIRTUAL_TO_PDT_IDX x" if "0xC0000 \<le> vpn x" for x
  proof -
    have "0xC0000 div 1024 \<le> vpn x div 1024" using that by (rule div_le_mono)
    then show ?thesis by (simp add: word_le_nat_alt unat_pdt_idx)
  qed
  show ?thesis
    unfolding eq using idx idx_bounds(2) pte.aligned_mask [OF assms(2)] by (simp add: pdt_set_def page_entry_def)
qed

text \<open>\<open>pdt_delete\<close> gives back the frame of the directory and nothing else: the frames of its page
  tables stay allocated, whatever the directory holds, because the two tests on an entry
  contradict each other.\<close>

lemma pdt_delete_frees_directory_only:
  assumes "pdt_wf s (kernel_pdt s)" and "vpn pdt \<noteq> 0xC03FF" and "page_entry s (kernel_pdt s) pdt = Some e"
  shows "pfa_st (pdt_delete s pdt) = pfa_free (pfa_st s) (get_pf_paddr e) \<and>
         pdts (pdt_delete s pdt) = pdts s \<and> pts (pdt_delete s pdt) = pts s"
  using get_pdt_paddr_eq [OF assms] same_tables_fields [OF get_pdt_paddr_eq(1) [OF assms]]
  by (simp add: pdt_delete_def Let_def pdt_delete_loop_eq split_beta)

end
