(* ===== verification/Paging_Unmap.thy ===== *)
theory Paging_Unmap
  imports Paging_Kernel
begin

text \<open>
  Unmapping. Inside one page table \<open>pdt_unmap_memory\<close> removes exactly the requested pages,
  invalidates the TLB for each page that was mapped and gives an emptied page table back; the
  two ways in which the loop over page tables goes wrong are proved at the end.
\<close>

section \<open>Clearing entries of one table\<close>

definition unmap_pages :: "(u32 \<Rightarrow> pte) \<Rightarrow> u32 \<Rightarrow> nat \<Rightarrow> u32 \<Rightarrow> pte" where
  "unmap_pages tbl i k j =
     (if i \<le> j \<and> unat j < unat i + k \<and> pte_present (tbl j) then zero_pte else tbl j)"

lemma unmap_pages_0: "unmap_pages tbl i 0 = tbl"
  by (rule ext) (auto simp: unmap_pages_def word_le_nat_alt)

lemma unmap_pages_Suc:
  assumes "i < 1024"
  shows "unmap_pages (if pte_present (tbl i) then tbl(i := zero_pte) else tbl) (i + 1) k = unmap_pages tbl i (Suc k)"
proof
  fix j
  have u: "unat (i + 1) = Suc (unat i)" by (rule unat_inc [OF assms])
  show "unmap_pages (if pte_present (tbl i) then tbl(i := zero_pte) else tbl) (i + 1) k j = unmap_pages tbl i (Suc k) j"
  proof (cases "j = i")
    case True
    then show ?thesis by (simp add: unmap_pages_def word_le_nat_alt u)
  next
    case False
    then have "i + 1 \<le> j \<longleftrightarrow> i \<le> j" using u by (auto simp: word_le_nat_alt word_unat_eq_iff)
    with False show ?thesis by (simp add: unmap_pages_def u)
  qed
qed

definition unmap_stop :: "u32 \<Rightarrow> u32 \<Rightarrow> bool" where
  "unmap_stop d i \<longleftrightarrow> \<not> i < NUM_ENTRIES \<or> d = KERNEL_PT_PDT_IDX \<and> i = KERNEL_TMP_PT_IDX"

definition unmap_step :: "paging \<Rightarrow> u32 \<Rightarrow> u32 \<Rightarrow> u32 \<Rightarrow> paging" where
  "unmap_step s pt i vaddr =
     (if pte_present (load_pte s pt i)
      then invalidate_page_table_entry (store_pte s pt i zero_pte) vaddr else s)"

lemma pt_unmap_loop_unfold:
  "pt_unmap_loop s pt d vaddr sz i m =
     (if m < sz \<and> \<not> unmap_stop d i
      then pt_unmap_loop (unmap_step s pt i vaddr) pt d (vaddr + 4096) sz (i + 1) (m + 4096) else (s, m))"
  by (subst pt_unmap_loop.simps) (auto simp: unmap_stop_def unmap_step_def Let_def)

lemma unmap_step_eq:
  assumes "window_ok s" and "f = get_pf_paddr (window_entry s)" and "\<not> (f = kernel_pt_frame s \<and> i = KERNEL_TMP_PT_IDX)"
  shows "window_ok (unmap_step s KERNEL_TMP_VADDR i v)" "window_entry (unmap_step s KERNEL_TMP_VADDR i v) = window_entry s"
    and "kernel_pt_frame (unmap_step s KERNEL_TMP_VADDR i v) = kernel_pt_frame s"
    and "unmap_step s KERNEL_TMP_VADDR i v =
      s\<lparr>pts := (pts s)(f := (if pte_present (pts s f i) then (pts s f)(i := zero_pte) else pts s f)),
        invlpgs := (if pte_present (pts s f i) then [v] else []) @ invlpgs s\<rparr>"
proof -
  have nw: "\<not> (get_pf_paddr (window_entry s) = kernel_pt_frame s \<and> i = KERNEL_TMP_PT_IDX)" using assms(2,3) by simp
  note st = store_through_window [OF assms(1) nw, of zero_pte]
  have inv: "window_entry (invalidate_page_table_entry t v) = window_entry t"
    "window_ok (invalidate_page_table_entry t v) = window_ok t"
    "kernel_pt_frame (invalidate_page_table_entry t v) = kernel_pt_frame t" for t
    by (simp_all add: invalidate_page_table_entry_def window_entry_def window_ok_def kernel_pt_frame_def)
  show "window_ok (unmap_step s KERNEL_TMP_VADDR i v)" "window_entry (unmap_step s KERNEL_TMP_VADDR i v) = window_entry s"
    "kernel_pt_frame (unmap_step s KERNEL_TMP_VADDR i v) = kernel_pt_frame s"
    using st assms(1) inv by (simp_all add: unmap_step_def)
  show "unmap_step s KERNEL_TMP_VADDR i v =
      s\<lparr>pts := (pts s)(f := (if pte_present (pts s f i) then (pts s f)(i := zero_pte) else pts s f)),
        invlpgs := (if pte_present (pts s f i) then [v] else []) @ invlpgs s\<rparr>"
    using assms(2) by (simp add: unmap_step_def load_pte_def store_pte_def invalidate_page_table_entry_def)
qed

lemma pt_unmap_loop_result:
  assumes "window_ok s" and "f = get_pf_paddr (window_entry s)"
    and "f = kernel_pt_frame s \<Longrightarrow> d = KERNEL_PT_PDT_IDX"
    and sz: "4096 dvd unat sz" and "4096 dvd unat m" and "m \<le> sz" and "i \<le> 1024"
  shows "\<exists>k l. pt_unmap_loop s KERNEL_TMP_VADDR d vaddr sz i m =
               (s\<lparr>pts := (pts s)(f := unmap_pages (pts s f) i k), invlpgs := l @ invlpgs s\<rparr>, m + 4096 * of_nat k) \<and>
             unat i + k \<le> 1024 \<and> unat m + 4096 * k \<le> unat sz \<and>
             (\<forall>j<k. \<not> unmap_stop d (i + of_nat j)) \<and>
             (\<forall>j<k. pte_present (pts s f (i + of_nat j)) \<longrightarrow> vaddr + 4096 * of_nat j \<in> set l) \<and>
             (unat m + 4096 * k = unat sz \<or> unmap_stop d (i + of_nat k))"
  using assms(1-3,5-)
proof (induction "1024 - unat i" arbitrary: s vaddr i m rule: less_induct)
  case (less i s vaddr m)
  show ?case
  proof (cases "m < sz \<and> \<not> unmap_stop d i")
    case False
    then have "pt_unmap_loop s KERNEL_TMP_VADDR d vaddr sz i m = (s, m)"
      by (subst pt_unmap_loop_unfold) (rule if_not_P)
    moreover have "unat m = unat sz \<or> unmap_stop d i" using False less.prems(5) by (auto simp: not_less)
    ultimately show ?thesis
      using less.prems(5,6) by (intro exI [of _ 0] exI [of _ "[]"]) (simp add: unmap_pages_0 word_le_nat_alt)
  next
    case True
    then have lt: "m < sz" "i < 1024" and nw: "\<not> (d = KERNEL_PT_PDT_IDX \<and> i = KERNEL_TMP_PT_IDX)"
      by (auto simp: unmap_stop_def)
    let ?s = "unmap_step s KERNEL_TMP_VADDR i vaddr"
    have nf: "\<not> (f = kernel_pt_frame s \<and> i = KERNEL_TMP_PT_IDX)" using less.prems(3) nw by blast
    note st = unmap_step_eq [OF less.prems(1,2) nf, of vaddr]
    have inc: "unat (i + 1) = Suc (unat i)" by (rule unat_inc [OF lt(2)])
    note left = pages_left [OF sz less.prems(4) lt(1)]
    have le: "1024 - unat (i + 1) < 1024 - unat i" "i + 1 \<le> 1024"
      using lt(2) inc by (simp_all add: word_le_nat_alt word_less_nat_alt)
    have pre: "window_ok ?s" "f = get_pf_paddr (window_entry ?s)" "f = kernel_pt_frame ?s \<Longrightarrow> d = KERNEL_PT_PDT_IDX"
      using st(1-3) less.prems(2,3) by simp_all
    obtain k l where k:
      "pt_unmap_loop ?s KERNEL_TMP_VADDR d (vaddr + 4096) sz (i + 1) (m + 4096) =
         (?s\<lparr>pts := (pts ?s)(f := unmap_pages (pts ?s f) (i + 1) k), invlpgs := l @ invlpgs ?s\<rparr>, m + 4096 + 4096 * of_nat k)"
      "unat (i + 1) + k \<le> 1024" "unat (m + 4096) + 4096 * k \<le> unat sz"
      "\<forall>j<k. \<not> unmap_stop d (i + 1 + of_nat j)"
      "\<forall>j<k. pte_present (pts ?s f (i + 1 + of_nat j)) \<longrightarrow> vaddr + 4096 + 4096 * of_nat j \<in> set l"
      "unat (m + 4096) + 4096 * k = unat sz \<or> unmap_stop d (i + 1 + of_nat k)"
      using less.hyps [OF le(1) pre left(3,2) le(2)] by blast
    let ?t = "if pte_present (pts s f i) then (pts s f)(i := zero_pte) else pts s f"
    have tbl: "pts ?s f = ?t" unfolding st(4) by simp
    have pages: "unmap_pages (pts ?s f) (i + 1) k = unmap_pages (pts s f) i (Suc k)"
      unfolding tbl by (rule unmap_pages_Suc [OF lt(2)])
    let ?l = "l @ (if pte_present (pts s f i) then [vaddr] else [])"
    have other: "pts ?s f (i + 1 + of_nat j) = pts s f (i + 1 + of_nat j)" if "j < k" for j
    proof -
      have "unat (i + 1 + of_nat j) = Suc (unat i) + j"
        using that k(2) inc by (subst unat_add_nowrap) (simp_all add: unat_of_nat_small)
      then have "unat (i + 1 + of_nat j) \<noteq> unat i" by linarith
      then have "i + 1 + of_nat j \<noteq> i" by metis
      then show ?thesis unfolding tbl by simp
    qed
    show ?thesis
    proof (intro exI [of _ "Suc k"] exI [of _ ?l] conjI allI impI)
      show "pt_unmap_loop s KERNEL_TMP_VADDR d vaddr sz i m =
        (s\<lparr>pts := (pts s)(f := unmap_pages (pts s f) i (Suc k)), invlpgs := ?l @ invlpgs s\<rparr>, m + 4096 * of_nat (Suc k))"
        using True by (subst pt_unmap_loop_unfold) (simp add: k(1) pages, simp add: st(4))
      fix j assume j: "j < Suc k"
      then show "\<not> unmap_stop d (i + of_nat j)" using True k(4) by (cases j) (auto simp: add.assoc)
      show "vaddr + 4096 * of_nat j \<in> set ?l" if "pte_present (pts s f (i + of_nat j))"
      proof (cases j)
        case 0
        with that show ?thesis by simp
      next
        case (Suc j')
        then have j': "j' < k" using j by simp
        have "i + of_nat j = i + 1 + of_nat j'" "vaddr + 4096 * of_nat j = vaddr + 4096 + 4096 * of_nat j'"
          using Suc by (simp_all add: algebra_simps)
        with k(5) j' that other [OF j'] have "vaddr + 4096 * of_nat j \<in> set l" by metis
        then show ?thesis by simp
      qed
    qed (use k left inc in \<open>auto simp: add.assoc\<close>)
  qed
qed

section \<open>One page table\<close>

lemma lookup_unmap_pages:
  assumes "unat (VIRTUAL_TO_PT_IDX v) + k \<le> 1024" and d: "VIRTUAL_TO_PDT_IDX x = VIRTUAL_TO_PDT_IDX v"
  shows "lookup (unmap_pages tbl (VIRTUAL_TO_PT_IDX v) k) (VIRTUAL_TO_PT_IDX x) =
     (if vpn v \<le> vpn x \<and> vpn x < vpn v + k then None else lookup tbl (VIRTUAL_TO_PT_IDX x))"
proof -
  have "(VIRTUAL_TO_PT_IDX v \<le> VIRTUAL_TO_PT_IDX x \<and> unat (VIRTUAL_TO_PT_IDX x) < unat (VIRTUAL_TO_PT_IDX v) + k)
     \<longleftrightarrow> vpn v \<le> vpn x \<and> vpn x < vpn v + k"
    using page_range_iff [OF assms(1), of x] d by simp
  then show ?thesis by (auto simp: lookup_def unmap_pages_def)
qed

text \<open>The state after the loop and the window's restoration.\<close>

definition unmapped :: "paging \<Rightarrow> u32 \<Rightarrow> u32 \<Rightarrow> nat \<Rightarrow> paging \<Rightarrow> bool" where
  "unmapped s pdt v k s' \<longleftrightarrow>
     (\<forall>x. page_entry s' pdt x = (if vpn v \<le> vpn x \<and> vpn x < vpn v + k then None else page_entry s pdt x)) \<and>
     (\<forall>j<k. page_entry s pdt (v + 4096 * of_nat j) \<noteq> None \<longrightarrow> v + 4096 * of_nat j \<in> set (invlpgs s'))"

lemma same_slot_offset:
  assumes "unat (VIRTUAL_TO_PT_IDX v) + j < 1024"
  shows "VIRTUAL_TO_PDT_IDX (v + 4096 * of_nat j) = VIRTUAL_TO_PDT_IDX v"
    and "VIRTUAL_TO_PT_IDX (v + 4096 * of_nat j) = VIRTUAL_TO_PT_IDX v + of_nat j"
proof -
  have d: "unat (VIRTUAL_TO_PDT_IDX v) < 1024" using idx_bounds(2) [of v] by (simp add: word_less_nat_alt)
  have "vpn v + j < 2 ^ 20" using assms d vpn_split [of v] by simp
  then have v: "vpn (v + 4096 * of_nat j) = 1024 * unat (VIRTUAL_TO_PDT_IDX v) + (unat (VIRTUAL_TO_PT_IDX v) + j)"
    using vpn_add_pages [of v j] vpn_split [of v] by simp
  have "unat (VIRTUAL_TO_PT_IDX v + of_nat j) = unat (VIRTUAL_TO_PT_IDX v) + j"
    using assms by (subst unat_add_nowrap) (simp_all add: unat_of_nat_small)
  with v assms show "VIRTUAL_TO_PT_IDX (v + 4096 * of_nat j) = VIRTUAL_TO_PT_IDX v + of_nat j"
    by (simp add: word_unat_eq_iff unat_pt_idx [of "v + 4096 * of_nat j"])
  from v assms show "VIRTUAL_TO_PDT_IDX (v + 4096 * of_nat j) = VIRTUAL_TO_PDT_IDX v"
    by (simp add: word_unat_eq_iff unat_pdt_idx [of "v + 4096 * of_nat j"])
qed

lemma window_unmap:
  assumes wf: "pdt_wf s pdt" and pres: "pde_present (pdts s pdt (VIRTUAL_TO_PDT_IDX v))"
    and sz: "4096 * n \<le> unat sz" "unat (VIRTUAL_TO_PT_IDX v) + n \<le> 1024" "4096 dvd unat sz"
      "4096 * n = unat sz \<or> unat (VIRTUAL_TO_PT_IDX v) + n = 1024"
    and nw: "\<not> (vpn v \<le> 0xC03FF \<and> 0xC03FF < vpn v + n)"
  defines "d \<equiv> VIRTUAL_TO_PDT_IDX v" and "i \<equiv> VIRTUAL_TO_PT_IDX v"
    and "f \<equiv> get_pt_paddr (pdts s pdt (VIRTUAL_TO_PDT_IDX v))"
  obtains s' l where
    "pt_unmap_memory (put_window s (make_pte f PAGING_READ_WRITE PAGING_PL0)) KERNEL_TMP_VADDR d v sz =
       (s', 4096 * of_nat n)"
    "pts (put_window s' (window_entry s)) = (pts s)(f := unmap_pages (pts s f) i n)"
    "window_ok s'" "pdts s' = pdts s" "pfa_st s' = pfa_st s" "kernel_pdt s' = kernel_pdt s" "kernel_pt s' = kernel_pt s"
    "\<And>j. j < n \<Longrightarrow> pte_present (pts s f (i + of_nat j)) \<Longrightarrow> v + 4096 * of_nat j \<in> set (invlpgs s')"
proof -
  note w = pdt_wfD [OF wf]
  let ?w = "put_window s (make_pte f PAGING_READ_WRITE PAGING_PL0)"
  have fw: "f = get_pf_paddr (window_entry ?w)" by (simp add: get_pf_paddr_make f_def get_pt_paddr_masked)
  have kf: "d = KERNEL_PT_PDT_IDX" if "f = kernel_pt_frame s"
    using w(5) [OF idx_bounds(2) pres] that by (simp add: f_def d_def)
  have stop: "\<not> unmap_stop d (i + of_nat j)" if "j < n" for j
  proof -
    have lt: "unat (VIRTUAL_TO_PT_IDX v) + j < 1024" using that sz(2) by simp
    note o = same_slot_offset [OF lt]
    have "i + of_nat j < 1024" using o(2) idx_bounds(1) [of "v + 4096 * of_nat j"] by (simp add: i_def)
    moreover have "vpn (v + 4096 * of_nat j) = vpn v + j"
      by (rule vpn_add_pages) (use lt idx_bounds(2) [of v] vpn_split [of v] in \<open>simp add: word_less_nat_alt\<close>)
    moreover have "vpn (v + 4096 * of_nat j) \<noteq> 0xC03FF" using calculation(2) nw that by auto
    ultimately show ?thesis
      using vpn_split [of "v + 4096 * of_nat j"] o by (auto simp: unmap_stop_def d_def i_def)
  qed
  have "i \<le> 1024" using idx_bounds(1) [of v] by (simp add: i_def)
  then obtain k l where k: "pt_unmap_loop ?w KERNEL_TMP_VADDR d v sz i 0 =
         (?w\<lparr>pts := (pts ?w)(f := unmap_pages (pts ?w f) i k), invlpgs := l @ invlpgs ?w\<rparr>, 0 + 4096 * of_nat k)"
      "unat i + k \<le> 1024" "unat (0::u32) + 4096 * k \<le> unat sz"
      "\<forall>j<k. pte_present (pts ?w f (i + of_nat j)) \<longrightarrow> v + 4096 * of_nat j \<in> set l"
      "unat (0::u32) + 4096 * k = unat sz \<or> unmap_stop d (i + of_nat k)"
    using pt_unmap_loop_result [of ?w f d sz 0 i v] w(1) fw kf sz(3) by auto
  have kn: "k = n"
  proof (rule ccontr)
    assume "k \<noteq> n"
    with k(2,3,5) sz have "k < n" "unmap_stop d (i + of_nat k)" by (auto simp: i_def)
    with stop show False by blast
  qed
  let ?s = "?w\<lparr>pts := (pts ?w)(f := unmap_pages (pts ?w f) i n), invlpgs := l @ invlpgs ?w\<rparr>"
  have kfs: "kernel_pt_frame ?s = kernel_pt_frame s" "window_ok ?s"
    using w(1) by (simp_all add: kernel_pt_frame_def window_ok_def)
  have win: "\<not> (f = kernel_pt_frame s \<and> i \<le> KERNEL_TMP_PT_IDX \<and> unat KERNEL_TMP_PT_IDX < unat i + n)"
  proof
    assume h: "f = kernel_pt_frame s \<and> i \<le> KERNEL_TMP_PT_IDX \<and> unat KERNEL_TMP_PT_IDX < unat i + n"
    let ?j = "1023 - unat i"
    have "?j < n" "i + of_nat ?j = KERNEL_TMP_PT_IDX" using h by (auto simp: word_le_nat_alt of_nat_diff)
    with stop [of ?j] kf h show False by (auto simp: unmap_stop_def)
  qed
  have same: "pts ?w f (i + of_nat j) = pts s f (i + of_nat j)" if "j < n" for j
    using stop [OF that] kf by (auto simp: pts_put_window unmap_stop_def)
  show thesis
  proof (rule that [of ?s])
    show "pt_unmap_memory ?w KERNEL_TMP_VADDR d v sz = (?s, 4096 * of_nat n)"
      using k(1) kn by (simp add: pt_unmap_memory_def i_def)
    show "pts (put_window ?s (window_entry s)) = (pts s)(f := unmap_pages (pts s f) i n)"
    proof (intro ext)
      fix g j
      show "pts (put_window ?s (window_entry s)) g j = ((pts s)(f := unmap_pages (pts s f) i n)) g j"
      proof (cases "g = kernel_pt_frame s \<and> j = KERNEL_TMP_PT_IDX")
        case True
        then have "pts (put_window ?s (window_entry s)) g j = pts s g j"
          unfolding pts_put_window kfs(1) by (simp add: window_entry_def)
        moreover have "unmap_pages (pts s f) i n j = pts s f j" if "g = f"
          unfolding unmap_pages_def by (rule if_not_P) (use True win that in blast)
        ultimately show ?thesis by simp
      next
        case False
        then have "pts (put_window ?s (window_entry s)) g j = pts ?s g j" "pts ?w g j = pts s g j"
          unfolding pts_put_window kfs by (simp_all only: if_False)
        then show ?thesis by (cases "g = f") (simp_all add: unmap_pages_def)
      qed
    qed
    show "v + 4096 * of_nat j \<in> set (invlpgs ?s)" if "j < n" "pte_present (pts s f (i + of_nat j))" for j
      using k(4) kn that same [of j] by simp
  qed (use kfs in simp_all)
qed

section \<open>A request inside one page table\<close>

lemma unmapped_by:
  assumes wf: "pdt_wf s pdt" and pres: "pde_present (pdts s pdt (VIRTUAL_TO_PDT_IDX v))"
    and n: "unat (VIRTUAL_TO_PT_IDX v) + n \<le> 1024"
    and pt: "pts s' = (pts s)(f := unmap_pages (pts s f) (VIRTUAL_TO_PT_IDX v) n)"
    and f: "f = get_pt_paddr (pdts s pdt (VIRTUAL_TO_PDT_IDX v))"
    and pd: "pdts s' = pdts s \<or> n = 1024 \<and> pdts s' = (pdts s)(pdt := (pdts s pdt)(VIRTUAL_TO_PDT_IDX v := zero_pde))"
    and inv: "\<And>j. j < n \<Longrightarrow> pte_present (pts s f (VIRTUAL_TO_PT_IDX v + of_nat j)) \<Longrightarrow> v + 4096 * of_nat j \<in> set (invlpgs s')"
  shows "unmapped s pdt v n s'"
  unfolding unmapped_def
proof (intro conjI allI impI)
  let ?d = "VIRTUAL_TO_PDT_IDX v"
  fix x
  show "page_entry s' pdt x = (if vpn v \<le> vpn x \<and> vpn x < vpn v + n then None else page_entry s pdt x)"
  proof (cases "VIRTUAL_TO_PDT_IDX x = ?d")
    case True
    have all: "vpn v \<le> vpn x \<and> vpn x < vpn v + n" if "n = 1024"
      using that n idx_bounds(1) [of x] True by (simp add: vpn_split [of v] vpn_split [of x] word_less_nat_alt)
    have "page_entry s' pdt x = lookup (unmap_pages (pts s f) (VIRTUAL_TO_PT_IDX v) n) (VIRTUAL_TO_PT_IDX x)"
      if "pdts s' = pdts s"
      using that pres f True pt by (simp add: page_entry_def Let_def)
    moreover have "page_entry s' pdt x = None" if "pdts s' = (pdts s)(pdt := (pdts s pdt)(?d := zero_pde))"
      using that True by (simp add: page_entry_def)
    moreover have "page_entry s pdt x = lookup (pts s f) (VIRTUAL_TO_PT_IDX x)"
      using pres f True by (simp add: page_entry_def Let_def)
    ultimately show ?thesis using pd all lookup_unmap_pages [OF n True, of "pts s f"] by auto
  next
    case False
    then have "\<not> (vpn v \<le> vpn x \<and> vpn x < vpn v + n)" using page_range_iff [OF n, of x] by blast
    moreover have "pdts s' pdt (VIRTUAL_TO_PDT_IDX x) = pdts s pdt (VIRTUAL_TO_PDT_IDX x)" using pd False by auto
    moreover have "get_pt_paddr (pdts s pdt (VIRTUAL_TO_PDT_IDX x)) \<noteq> f"
      if "pde_present (pdts s pdt (VIRTUAL_TO_PDT_IDX x))"
      using pdt_wfD(6) [OF wf idx_bounds(2) pres idx_bounds(2) that] f False by blast
    ultimately show ?thesis by (simp only: if_False) (simp add: page_entry_def Let_def pt)
  qed
next
  fix j assume j: "j < n" "page_entry s pdt (v + 4096 * of_nat j) \<noteq> None"
  have "unat (VIRTUAL_TO_PT_IDX v) + j < 1024" using j(1) n by simp
  note o = same_slot_offset [OF this]
  from j(2) have "pte_present (pts s f (VIRTUAL_TO_PT_IDX v + of_nat j))"
    using o f by (auto simp: page_entry_def Let_def lookup_def split: if_splits)
  then show "v + 4096 * of_nat j \<in> set (invlpgs s')" by (rule inv [OF j(1)])
qed

lemma pdt_unmap_round_result:
  assumes wf: "pdt_wf s pdt" and pres: "pde_present (pdts s pdt (VIRTUAL_TO_PDT_IDX v))"
    and sz: "4096 * n \<le> unat sz" "unat (VIRTUAL_TO_PT_IDX v) + n \<le> 1024" "4096 dvd unat sz"
      "4096 * n = unat sz \<or> unat (VIRTUAL_TO_PT_IDX v) + n = 1024"
    and nw: "\<not> (vpn v \<le> 0xC03FF \<and> 0xC03FF < vpn v + n)"
  obtains s' where "pdt_unmap_round s pdt v sz = (s', 4096 * of_nat n)" "unmapped s pdt v n s'"
    "n < 1024 \<Longrightarrow> pfa_st s' = pfa_st s \<and> pdts s' = pdts s \<and> kernel_pt s' = kernel_pt s"
    "n = 1024 \<Longrightarrow> pfa_st s' = pfa_free (pfa_st s) (get_pt_paddr (pdts s pdt (VIRTUAL_TO_PDT_IDX v)))"
proof -
  let ?d = "VIRTUAL_TO_PDT_IDX v"
  let ?f = "get_pt_paddr (pdts s pdt ?d)"
  note w = pdt_wfD(1) [OF wf]
  obtain s2 where s2:
    "pt_unmap_memory (put_window s (make_pte ?f PAGING_READ_WRITE PAGING_PL0)) KERNEL_TMP_VADDR ?d v sz =
       (s2, 4096 * of_nat n)"
    "pts (put_window s2 (window_entry s)) = (pts s)(?f := unmap_pages (pts s ?f) (VIRTUAL_TO_PT_IDX v) n)"
    "window_ok s2" "pdts s2 = pdts s" "pfa_st s2 = pfa_st s" "kernel_pdt s2 = kernel_pdt s" "kernel_pt s2 = kernel_pt s"
    "\<And>j. j < n \<Longrightarrow> pte_present (pts s ?f (VIRTUAL_TO_PT_IDX v + of_nat j)) \<Longrightarrow> v + 4096 * of_nat j \<in> set (invlpgs s2)"
    by (rule window_unmap [OF assms]) blast
  let ?p = "put_window s2 (window_entry s)"
  let ?s = "if 4096 * of_nat n = PDT_ENTRY_SIZE \<and> ?d \<noteq> KERNEL_PT_PDT_IDX
     then store_pde (?p\<lparr>pfa_st := pfa_free (pfa_st ?p) ?f\<rparr>) pdt ?d zero_pde else ?p"
  have "unat (4096 * of_nat n :: u32) = 4096 * n"
    using idx_offset [of n] sz(2) by (simp add: mult.commute)
  then have full: "4096 * of_nat n = PDT_ENTRY_SIZE \<longleftrightarrow> n = 1024" by (auto simp: word_unat_eq_iff)
  have d: "?d \<noteq> KERNEL_PT_PDT_IDX" if "n = 1024"
  proof
    assume "?d = KERNEL_PT_PDT_IDX"
    then have "vpn v = 786432 + unat (VIRTUAL_TO_PT_IDX v)" using vpn_split [of v] by simp
    with that nw sz(2) show False by simp
  qed
  show thesis
  proof (rule that [of ?s])
    show "pdt_unmap_round s pdt v sz = (?s, 4096 * of_nat n)"
      using s2(1) by (simp add: pdt_unmap_round_def Let_def map_temporary_eq [OF w] get_temporary_entry_eq [OF w]
          set_temporary_eq [OF s2(3)])
    show "unmapped s pdt v n ?s"
    proof (rule unmapped_by [OF wf pres sz(2) _ refl])
      show "pts ?s = (pts s)(?f := unmap_pages (pts s ?f) (VIRTUAL_TO_PT_IDX v) n)"
        using s2(2) by (simp add: store_pde_def)
      show "pdts ?s = pdts s \<or> n = 1024 \<and> pdts ?s = (pdts s)(pdt := (pdts s pdt)(?d := zero_pde))"
        using full d s2(4) by (auto simp: store_pde_def)
      show "v + 4096 * of_nat j \<in> set (invlpgs ?s)"
        if "j < n" "pte_present (pts s ?f (VIRTUAL_TO_PT_IDX v + of_nat j))" for j
        using s2(8) [OF that] by (simp add: store_pde_def)
    qed
  qed (use full d s2(4,5,7) in auto)
qed

section \<open>Properties\<close>

lemma page_count:
  assumes "vpn v + n < 2 ^ 20" and "unat sz = 4096 * n"
  shows "unat (v + sz) = unat v + unat sz"
  using assms by (intro unat_add_nowrap) (simp add: vpn_def)

text \<open>C21. For a request inside one page table, with the table there and the kernel's window not
  touched, \<open>pdt_unmap_memory\<close> returns the rounded size, afterwards exactly the requested pages are
  unmapped, the TLB has been told about every one of them that was mapped, and the page
  table's frame is released exactly when the request covers the whole table.\<close>

theorem pdt_unmap_memory_correct:
  assumes "pdt_wf s pdt" and "pde_present (pdts s pdt (VIRTUAL_TO_PDT_IDX v))"
    and "sz \<noteq> 0" and "sz \<le> 0x400000" and "n = unat (align_up sz 4096) div 4096"
    and "vpn v mod 1024 + n \<le> 1024" and "vpn v + n < 2 ^ 20"
    and "\<not> (vpn v \<le> 0xC03FF \<and> 0xC03FF < vpn v + n)"
  shows "\<exists>s'. pdt_unmap_memory s pdt v sz = Some (s', align_up sz 4096) \<and>
     (\<forall>x. page_entry s' pdt x = (if vpn v \<le> vpn x \<and> vpn x < vpn v + n then None else page_entry s pdt x)) \<and>
     (\<forall>j<n. page_entry s pdt (v + 4096 * of_nat j) \<noteq> None \<longrightarrow> v + 4096 * of_nat j \<in> set (invlpgs s')) \<and>
     pfa_st s' = (if n = 1024 then pfa_free (pfa_st s) (get_pt_paddr (pdts s pdt (VIRTUAL_TO_PDT_IDX v))) else pfa_st s)"
proof -
  let ?sz = "align_up sz 4096"
  have "sz \<le> 0xFFFFF000" using assms(4) by (rule order_trans) simp
  note al = align_up_page [OF this]
  have u: "unat ?sz = 4096 * n" using al(1) assms(5) by simp
  have i: "unat (VIRTUAL_TO_PT_IDX v) + n \<le> 1024" using assms(6) by (simp add: unat_pt_idx)
  have szn: "4096 * of_nat n = ?sz" using u by (metis of_nat_mult of_nat_numeral of_nat_unat_u32)
  obtain s' where s': "pdt_unmap_round s pdt v ?sz = (s', ?sz)" "unmapped s pdt v n s'"
    "n < 1024 \<Longrightarrow> pfa_st s' = pfa_st s"
    "n = 1024 \<Longrightarrow> pfa_st s' = pfa_free (pfa_st s) (get_pt_paddr (pdts s pdt (VIRTUAL_TO_PDT_IDX v)))"
    using pdt_unmap_round_result [OF assms(1,2) _ i al(1) _ assms(8)] u szn by auto
  have "unat (v + ?sz) = unat v + unat ?sz" by (rule page_count [OF assms(7) u])
  moreover have "0 < unat ?sz" using al(2) assms(3) unat_gt_0 [of sz] by linarith
  ultimately have lt: "v < v + ?sz" by (simp add: word_less_nat_alt)
  have "pdt_unmap_memory s pdt v sz = Some (s', ?sz)"
    unfolding pdt_unmap_memory_def Let_def
    using lt assms(2) s'(1) by (subst pdt_unmap_loop.simps) (simp add: pdt_unmap_loop.simps [of s'])
  moreover have "n \<le> 1024" using i by simp
  ultimately show ?thesis using s' unfolding unmapped_def by auto
qed

text \<open>Three pages below the 4 MB boundary at \<open>0xC0800000\<close> and three above it, in two page tables.\<close>

definition two_tables :: paging where
  "two_tables = \<lparr>kernel_pdt = 0xC0101000, kernel_pt = 0xC0102000,
     pdts = (\<lambda>_ _. zero_pde)(0xC0101000 := (\<lambda>_. zero_pde)(
       769 := make_pde 0x103000 PS_4KB PAGING_READ_WRITE PAGING_PL0,
       770 := make_pde 0x104000 PS_4KB PAGING_READ_WRITE PAGING_PL0)),
     pts = (\<lambda>_ _. zero_pte)(
       0x103000 := (\<lambda>i. if 1021 \<le> i then make_pte (0x100000 + 4096 * i) PAGING_READ_WRITE PAGING_PL0 else zero_pte),
       0x104000 := (\<lambda>i. if i < 3 then make_pte (0x200000 + 4096 * i) PAGING_READ_WRITE PAGING_PL0 else zero_pte)),
     pfa_st = example_pfa, invlpgs = [], cr3 = 0x101000\<rparr>"

lemma two_tables_wf: "pdt_wf two_tables 0xC0101000"
proof -
  have "p \<notin> free_frames example_pfa" if "unat p < 0x200000" for p
    using example_free [of p] that by auto
  then have f: "(0x102000 :: u32) \<notin> free_frames example_pfa" "(0x103000 :: u32) \<notin> free_frames example_pfa"
    "(0x104000 :: u32) \<notin> free_frames example_pfa" by simp_all
  have e: "pdts two_tables 0xC0101000 i = (if i = 770 then make_pde 0x104000 PS_4KB PAGING_READ_WRITE PAGING_PL0
      else if i = 769 then make_pde 0x103000 PS_4KB PAGING_READ_WRITE PAGING_PL0 else zero_pde)" for i
    by (simp add: two_tables_def)
  have k: "kernel_pt_frame two_tables = 0x102000" "window_ok two_tables" "pfa_st two_tables = example_pfa"
    by (simp_all add: two_tables_def kernel_pt_frame_def window_ok_def)
  show ?thesis
    unfolding pdt_wf_def k(1,3) e using f example_pfa_inv k(2) by (simp add: get_pt_paddr_make)
qed

theorem pdt_unmap_memory_correct_witness:
  "\<exists>s'. pdt_unmap_memory two_tables 0xC0101000 0xC07FE000 0x2000 = Some (s', 0x2000) \<and>
     page_entry two_tables 0xC0101000 0xC07FF000 \<noteq> None \<and> page_entry s' 0xC0101000 0xC07FF000 = None \<and>
     page_entry s' 0xC0101000 0xC07FD000 = page_entry two_tables 0xC0101000 0xC07FD000"
proof -
  have p: "pde_present (pdts two_tables 0xC0101000 (VIRTUAL_TO_PDT_IDX 0xC07FE000))"
    by (simp add: two_tables_def VIRTUAL_TO_PDT_IDX_def present_make_entries)
  have "(0x2000 :: u32) \<noteq> 0" "(0x2000 :: u32) \<le> 0x400000" "(2 :: nat) = unat (align_up 0x2000 4096) div 4096"
    "vpn 0xC07FE000 mod 1024 + 2 \<le> 1024" "vpn 0xC07FE000 + 2 < 2 ^ 20"
    "\<not> (vpn 0xC07FE000 \<le> 0xC03FF \<and> 0xC03FF < vpn 0xC07FE000 + 2)"
    by (simp_all add: align_up_def vpn_def)
  from pdt_unmap_memory_correct [OF two_tables_wf p this] obtain s' where
    s': "pdt_unmap_memory two_tables 0xC0101000 0xC07FE000 0x2000 = Some (s', align_up 0x2000 4096)"
    "\<forall>x. page_entry s' 0xC0101000 x = (if vpn 0xC07FE000 \<le> vpn x \<and> vpn x < vpn 0xC07FE000 + 2 then None
       else page_entry two_tables 0xC0101000 x)" by blast
  have "page_entry two_tables 0xC0101000 0xC07FF000 \<noteq> None"
    by (simp add: page_entry_def lookup_def two_tables_def VIRTUAL_TO_PDT_IDX_def VIRTUAL_TO_PT_IDX_def
        present_make_entries get_pt_paddr_make)
  with s' show ?thesis by (simp add: align_up_def vpn_def)
qed

text \<open>A request that crosses a page-table boundary removes too much: the size is not reduced
  by what the first table gave up. Of \<open>n\<close> pages, the first \<open>a\<close> in one table and the rest in the next,
  \<open>pdt_unmap_memory\<close> unmaps \<open>a + n\<close>.\<close>

lemma pdt_unmap_overshoots:
  assumes "pdt_wf s pdt" and "pde_present (pdts s pdt (VIRTUAL_TO_PDT_IDX v))"
    and "pde_present (pdts s pdt (VIRTUAL_TO_PDT_IDX (v + 4096 * of_nat a)))"
    and "unat sz = 4096 * n" and "0 < a" and "a < n" and "n \<le> 1024" and "vpn v mod 1024 + a = 1024"
    and "vpn v + a + n < 2 ^ 20" and "0xC0400 \<le> vpn v"
  shows "\<exists>s' r. pdt_unmap_memory s pdt v sz = Some (s', r) \<and>
     (\<forall>x. page_entry s' pdt x = (if vpn v \<le> vpn x \<and> vpn x < vpn v + (a + n) then None else page_entry s pdt x))"
proof -
  let ?a = "4096 * of_nat a :: u32" and ?n = "4096 * of_nat n :: u32"
  have d: "4096 dvd unat sz" using assms(4) by simp
  have ua: "unat ?a = 4096 * a" and un: "unat ?n = 4096 * n"
    using idx_offset [of a] idx_offset [of n] assms(6,7) by (simp_all add: mult.commute)
  have szn: "sz = ?n" using un assms(4) by (simp add: word_unat_eq_iff)
  have va: "vpn (v + ?a) = vpn v + a" by (rule vpn_add_pages) (use assms(9) in simp)
  have ia: "unat (VIRTUAL_TO_PT_IDX (v + ?a)) = 0" unfolding unat_pt_idx va using assms(8) by (metis mod_add_left_eq mod_self)
  have f1: "4096 * a \<le> unat sz" "unat (VIRTUAL_TO_PT_IDX v) + a \<le> 1024"
    "4096 * a = unat sz \<or> unat (VIRTUAL_TO_PT_IDX v) + a = 1024" "\<not> (vpn v \<le> 0xC03FF \<and> 0xC03FF < vpn v + a)"
    using assms(4,6,8,10) by (simp_all add: unat_pt_idx)
  obtain s1 where s1: "pdt_unmap_round s pdt v sz = (s1, ?a)" "unmapped s pdt v a s1"
      "pfa_st s1 = pfa_st s" "pdts s1 = pdts s" "kernel_pt s1 = kernel_pt s"
    using pdt_unmap_round_result [OF assms(1,2) f1(1,2) d f1(3,4)] assms(6,7) by auto
  have wf1: "pdt_wf s1 pdt"
    using assms(1) s1(3-5) by (simp add: pdt_wf_def window_ok_def kernel_pt_frame_def)
  have p1: "pde_present (pdts s1 pdt (VIRTUAL_TO_PDT_IDX (v + ?a)))" using assms(3) s1(4) by simp
  have f2: "4096 * n \<le> unat sz" "unat (VIRTUAL_TO_PT_IDX (v + ?a)) + n \<le> 1024"
    "4096 * n = unat sz \<or> unat (VIRTUAL_TO_PT_IDX (v + ?a)) + n = 1024"
    "\<not> (vpn (v + ?a) \<le> 0xC03FF \<and> 0xC03FF < vpn (v + ?a) + n)"
    using assms(4,7,10) ia va by simp_all
  obtain s2 where s2: "pdt_unmap_round s1 pdt (v + ?a) sz = (s2, ?n)" "unmapped s1 pdt (v + ?a) n s2"
    using pdt_unmap_round_result [OF wf1 p1 f2(1,2) d f2(3,4)] by auto
  have ends: "unat (v + sz) = unat v + 4096 * n" "unat (v + ?a) = unat v + 4096 * a"
      "unat (v + ?a + ?n) = unat v + 4096 * (a + n)"
    using page_count [of v n sz] page_count [of v a ?a] page_count [of "v + ?a" n ?n] va assms(4,9) ua un by simp_all
  then have lt: "v < v + sz" "v + ?a < v + sz" "\<not> v + ?a + ?n < v + sz"
    using assms(5,6) by (simp_all add: word_less_nat_alt)
  have "align_up sz 4096 = sz" using d by (intro align_up_aligned) simp
  then have "pdt_unmap_memory s pdt v sz = pdt_unmap_loop s pdt v (v + sz) sz 0"
    by (simp add: pdt_unmap_memory_def)
  also have "\<dots> = pdt_unmap_loop s1 pdt (v + ?a) (v + sz) sz ?a"
    using lt(1) assms(2) s1(1) by (subst pdt_unmap_loop.simps) simp
  also have "\<dots> = pdt_unmap_loop s2 pdt (v + ?a + ?n) (v + sz) sz ?n"
    using lt(2) p1 s2(1) by (subst pdt_unmap_loop.simps) simp
  also have "\<dots> = Some (s2, ?n)" using lt(3) by (subst pdt_unmap_loop.simps) simp
  finally have run: "pdt_unmap_memory s pdt v sz = Some (s2, ?n)" .
  have "\<forall>x. page_entry s2 pdt x = (if vpn v \<le> vpn x \<and> vpn x < vpn v + (a + n) then None else page_entry s pdt x)"
    using s1(2) s2(2) unfolding unmapped_def va by auto
  with run show ?thesis by blast
qed

text \<open>C37. \<open>pdt_unmap_memory\<close> does not return when it meets a directory entry that is not there at an
  address that is a multiple of 4 MB: \<open>align_up\<close> leaves such an address alone, so the loop repeats
  itself.\<close>

theorem pdt_unmap_diverges:
  assumes "v < end_v" and "4194304 dvd unat v" and "\<not> pde_present (pdts s pdt (VIRTUAL_TO_PDT_IDX v))"
  shows "pdt_unmap_loop s pdt v end_v sz freed = None"
proof (cases "pdt_unmap_loop s pdt v end_v sz freed")
  case (Some y)
  have al: "align_up v 0x400000 = v" using assms(2) by (intro align_up_aligned) simp
  have "\<not> (v < end_v \<and> \<not> pde_present (pdts s pdt (VIRTUAL_TO_PDT_IDX v)) \<and> align_up v 0x400000 = v)"
    by (rule pdt_unmap_loop.raw_induct [OF _ Some,
          where P = "\<lambda>s pdt v end_v sz freed y.
            \<not> (v < end_v \<and> \<not> pde_present (pdts s pdt (VIRTUAL_TO_PDT_IDX v)) \<and> align_up v 0x400000 = v)"])
       (fastforce split: if_splits)
  with assms al show ?thesis by blast
qed simp

theorem pdt_unmap_diverges_witness:
  "pdt_unmap_memory two_tables 0xC0101000 0xD0000000 0x1000 = None"
proof -
  have "(0xD0000000 :: u32) < 0xD0001000" "4194304 dvd unat (0xD0000000 :: u32)"
    "\<not> pde_present (pdts two_tables 0xC0101000 (VIRTUAL_TO_PDT_IDX 0xD0000000))"
    by (simp_all add: two_tables_def VIRTUAL_TO_PDT_IDX_def)
  from pdt_unmap_diverges [OF this] show ?thesis
    by (simp add: pdt_unmap_memory_def align_up_def)
qed

end
