(* ===== verification/Io.thy ===== *)
theory Io
  imports Prelude
begin

text \<open>
  Port input and output (\<open>io.s\<close>) and the devices programmed through it without further state in
  the kernel: the interrupt controllers (\<open>pic.c\<close>), the timer (\<open>pit.c\<close>) and the serial ports
  (\<open>serial.c\<close>). The devices themselves are not part of the program: what a device answers to the
  successive reads of a port is the parameter \<open>io_in\<close> of the state, and what the kernel wrote to
  the ports, in order, is recorded in \<open>io_out\<close>.
\<close>

section \<open>Ports\<close>

record io =
  io_in :: "u16 \<Rightarrow> nat \<Rightarrow> u8"
  io_reads :: "u16 \<Rightarrow> nat"
  io_out :: "(u16 \<times> u8) list"

definition outb :: "u16 \<Rightarrow> u8 \<Rightarrow> io \<Rightarrow> io" where
  "outb port val s = s\<lparr>io_out := io_out s @ [(port, val)]\<rparr>"

definition inb :: "u16 \<Rightarrow> io \<Rightarrow> io \<times> u8" where
  "inb port s =
     (s\<lparr>io_reads := (io_reads s)(port := io_reads s port + 1)\<rparr>, io_in s port (io_reads s port))"

section \<open>Interrupt controllers\<close>

abbreviation (input) PIC1_PORT_A :: u16 where "PIC1_PORT_A \<equiv> 0x20"
abbreviation (input) PIC1_PORT_B :: u16 where "PIC1_PORT_B \<equiv> 0x21"
abbreviation (input) PIC2_PORT_A :: u16 where "PIC2_PORT_A \<equiv> 0xA0"
abbreviation (input) PIC2_PORT_B :: u16 where "PIC2_PORT_B \<equiv> 0xA1"
abbreviation (input) PIC1_ICW1 :: u8 where "PIC1_ICW1 \<equiv> 0x11"
abbreviation (input) PIC1_ICW2 :: u8 where "PIC1_ICW2 \<equiv> 0x20"
abbreviation (input) PIC2_ICW1 :: u8 where "PIC2_ICW1 \<equiv> PIC1_ICW2"
abbreviation (input) PIC2_ICW2 :: u8 where "PIC2_ICW2 \<equiv> 0x28"
abbreviation (input) PIC1_ICW3 :: u8 where "PIC1_ICW3 \<equiv> 0x04"
abbreviation (input) PIC2_ICW3 :: u8 where "PIC2_ICW3 \<equiv> 0x02"
abbreviation (input) PIC1_ICW4 :: u8 where "PIC1_ICW4 \<equiv> 0x05"
abbreviation (input) PIC2_ICW4 :: u8 where "PIC2_ICW4 \<equiv> 0x01"
abbreviation (input) PIC_EOI :: u8 where "PIC_EOI \<equiv> 0x20"
abbreviation (input) PIT_INT_IDX :: u32 where "PIT_INT_IDX \<equiv> 0x20"
abbreviation (input) KBD_INT_IDX :: u32 where "KBD_INT_IDX \<equiv> 0x21"
abbreviation (input) COM1_INT_IDX :: u32 where "COM1_INT_IDX \<equiv> 0x24"
abbreviation (input) COM2_INT_IDX :: u32 where "COM2_INT_IDX \<equiv> 0x23"

definition pic_mask :: "u8 \<Rightarrow> u8 \<Rightarrow> io \<Rightarrow> io" where
  "pic_mask mask1 mask2 s = outb PIC2_PORT_B mask2 (outb PIC1_PORT_B mask1 s)"

definition pic_acknowledge :: "io \<Rightarrow> io" where
  "pic_acknowledge s = outb PIC2_PORT_A PIC_EOI (outb PIC1_PORT_A PIC_EOI s)"

definition pic_init :: "io \<Rightarrow> io" where
  "pic_init s =
     (let s = outb PIC1_PORT_A PIC1_ICW1 s;
          s = outb PIC2_PORT_A PIC2_ICW1 s;
          s = outb PIC1_PORT_B PIC1_ICW2 s;
          s = outb PIC2_PORT_B PIC2_ICW2 s;
          s = outb PIC1_PORT_B PIC1_ICW3 s;
          s = outb PIC2_PORT_B PIC2_ICW3 s;
          s = outb PIC1_PORT_B PIC1_ICW4 s;
          s = outb PIC2_PORT_B PIC2_ICW4 s
      in pic_mask 0xEC 0xFF s)"

section \<open>Timer\<close>

definition pit_init :: "io \<Rightarrow> io" where
  "pit_init s = outb 0x43 (push_bit 5 1 OR push_bit 4 1 OR push_bit 2 1 OR push_bit 1 1 OR 0x00) s"

text \<open>Division by zero traps (\<open>None\<close>): for the interval 0, and for an interval above 1000, whose
  frequency is 0.\<close>

definition pit_set_interval :: "u32 \<Rightarrow> io \<Rightarrow> io option" where
  "pit_set_interval interval s =
     (if interval = 0 then None
      else let frequency = 1000 div interval
           in if frequency = 0 then None
              else let divider = ucast (1193182 div frequency) :: u16
                   in Some (outb 0x40 (ucast (drop_bit 8 divider)) (outb 0x40 (ucast divider) s)))"

section \<open>Serial ports\<close>

abbreviation (input) COM1 :: u16 where "COM1 \<equiv> 0x3F8"

definition serial_init_ports :: "u16 \<Rightarrow> io \<Rightarrow> io" where
  "serial_init_ports com s =
     (let s = outb (com + 1) 0x00 s;
          s = outb (com + 3) 0x80 s;
          s = outb com (0x03 AND 0xFF) s;
          s = outb (com + 1) (ucast (drop_bit 8 ((0x03 :: u32) AND 0xFF00))) s;
          s = outb (com + 3) (0x00 OR push_bit 1 1 OR 0x01) s;
          s = outb (com + 2) (push_bit 7 1 OR push_bit 6 1 OR push_bit 2 1 OR push_bit 1 1 OR 0x01) s
      in outb (com + 4) (push_bit 3 1 OR push_bit 1 1 OR 0x01) s)"

definition is_transmit_fifo_empty :: "u16 \<Rightarrow> io \<Rightarrow> io \<times> bool" where
  "is_transmit_fifo_empty com s = (let (s, v) = inb (com + 5) s in (s, v AND 0x20 \<noteq> 0))"

definition is_receiver_fifo_full :: "u16 \<Rightarrow> io \<Rightarrow> io \<times> bool" where
  "is_receiver_fifo_full com s = (let (s, v) = inb (com + 5) s in (s, v AND 0x01 \<noteq> 0))"

text \<open>The two polling loops; \<open>None\<close> is waiting forever.\<close>

partial_function (option) serial_write_wait :: "u16 \<Rightarrow> io \<Rightarrow> io option" where
  "serial_write_wait com s =
     (case is_transmit_fifo_empty com s of
        (s', ready) \<Rightarrow> if \<not> ready then serial_write_wait com s' else Some s')"

declare serial_write_wait.simps [code]

definition serial_write :: "u16 \<Rightarrow> u8 \<Rightarrow> io \<Rightarrow> io option" where
  "serial_write com data s = map_option (outb com data) (serial_write_wait com s)"

partial_function (option) serial_read_wait :: "u16 \<Rightarrow> io \<Rightarrow> io option" where
  "serial_read_wait com s =
     (case is_receiver_fifo_full com s of
        (s', ready) \<Rightarrow> if \<not> ready then serial_read_wait com s' else Some s')"

declare serial_read_wait.simps [code]

definition serial_read :: "u16 \<Rightarrow> io \<Rightarrow> (io \<times> u8) option" where
  "serial_read com s = map_option (inb com) (serial_read_wait com s)"

section \<open>Polling ends when the device gets ready\<close>

text \<open>Both loops are one scheme: read a status port until a bit of it is set.\<close>

locale poll =
  fixes port :: u16 and bitmask :: u8 and wait :: "io \<Rightarrow> io option"
  assumes wait_unfold: "wait s =
     (case inb port s of (s', v) \<Rightarrow> if v AND bitmask = 0 then wait s' else Some s')"
begin

lemma wait_returns:
  assumes "io_in s port (io_reads s port + k) AND bitmask \<noteq> 0"
    and "\<And>j. j < k \<Longrightarrow> io_in s port (io_reads s port + j) AND bitmask = 0"
  shows "wait s = Some (s\<lparr>io_reads := (io_reads s)(port := io_reads s port + k + 1)\<rparr>)"
  using assms
proof (induction k arbitrary: s)
  case 0
  then show ?case by (subst wait_unfold) (simp add: inb_def)
next
  case (Suc k)
  let ?s = "s\<lparr>io_reads := (io_reads s)(port := io_reads s port + 1)\<rparr>"
  have "wait s = wait ?s" using Suc.prems(2) [of 0] by (subst wait_unfold) (simp add: inb_def)
  also have "\<dots> = Some (?s\<lparr>io_reads := (io_reads ?s)(port := io_reads ?s port + k + 1)\<rparr>)"
  proof (rule Suc.IH)
    show "io_in ?s port (io_reads ?s port + j) AND bitmask = 0" if "j < k" for j
      using Suc.prems(2) [of "Suc j"] that by simp
  qed (use Suc.prems(1) in simp)
  also have "\<dots> = Some (s\<lparr>io_reads := (io_reads s)(port := io_reads s port + Suc k + 1)\<rparr>)"
    by (rule arg_cong [of _ _ Some], rule io.equality) (auto simp: fun_eq_iff)
  finally show ?case .
qed

end

interpretation tx: poll "com + 5" "0x20" "serial_write_wait com" for com
  by unfold_locales (subst serial_write_wait.simps, simp add: is_transmit_fifo_empty_def split_beta Let_def)

interpretation rx: poll "com + 5" "0x01" "serial_read_wait com" for com
  by unfold_locales (subst serial_read_wait.simps, simp add: is_receiver_fifo_full_def split_beta Let_def)

text \<open>A device that gets ready again and again.\<close>

definition always_ready :: "u16 \<Rightarrow> u8 \<Rightarrow> io \<Rightarrow> bool" where
  "always_ready port m s \<longleftrightarrow> (\<forall>n. \<exists>k. io_in s port (n + k) AND m \<noteq> 0)"

lemma ready_least:
  assumes "always_ready port m s"
  obtains k where "io_in s port (n + k) AND m \<noteq> 0" "\<And>j. j < k \<Longrightarrow> io_in s port (n + j) AND m = 0"
proof -
  let ?P = "\<lambda>k. io_in s port (n + k) AND m \<noteq> 0"
  from assms have "\<exists>k. ?P k" by (simp add: always_ready_def)
  then have "?P (LEAST k. ?P k)" by (rule LeastI_ex)
  moreover have "io_in s port (n + j) AND m = 0" if "j < (LEAST k. ?P k)" for j
    using not_less_Least [OF that] by simp
  ultimately show thesis by (rule that)
qed

lemma serial_write_returns:
  assumes "always_ready (com + 5) 0x20 s"
  obtains s' where "serial_write com data s = Some s'" "io_out s' = io_out s @ [(com, data)]" "io_in s' = io_in s"
proof -
  obtain k where "io_in s (com + 5) (io_reads s (com + 5) + k) AND 0x20 \<noteq> 0"
    "\<And>j. j < k \<Longrightarrow> io_in s (com + 5) (io_reads s (com + 5) + j) AND 0x20 = 0"
    by (rule ready_least [OF assms, of "io_reads s (com + 5)"]) blast
  from tx.wait_returns [OF this] obtain t where
    "serial_write_wait com s = Some t" "io_out t = io_out s" "io_in t = io_in s" by auto
  then show thesis by (intro that [of "outb com data t"]) (simp_all add: serial_write_def outb_def)
qed

section \<open>Properties\<close>

text \<open>The timer is programmed with the divider of the requested interval, low byte first,
  cut off to 16 bits; an interval of 0 and one above 1000 ms divide by zero.\<close>

lemma pit_set_interval_divider:
  "(pit_set_interval i s = None \<longleftrightarrow> i = 0 \<or> 1000 < i) \<and>
   (\<forall>s'. pit_set_interval i s = Some s' \<longrightarrow>
      (\<exists>lo hi. io_out s' = io_out s @ [(0x40, lo), (0x40, hi)] \<and>
         unat lo + 256 * unat hi = (1193182 div (1000 div unat i)) mod 65536))"
proof -
  let ?f = "1000 div i" and ?d = "ucast (1193182 div (1000 div i)) :: u16"
  have f0: "?f = 0 \<longleftrightarrow> 1000 < i" if "i \<noteq> 0"
  proof -
    have "?f = 0 \<longleftrightarrow> unat ?f = 0" by (simp add: unat_eq_zero)
    also have "\<dots> \<longleftrightarrow> 1000 div unat i = 0" by (simp add: unat_div)
    also have "\<dots> \<longleftrightarrow> 1000 < unat i" using that by (simp add: div_eq_0_iff unat_eq_zero)
    finally show ?thesis by (simp add: word_less_nat_alt)
  qed
  have split: "unat (ucast ?d :: u8) + 256 * unat (ucast (drop_bit 8 ?d) :: u8) = (1193182 div (1000 div unat i)) mod 65536"
  proof -
    have "unat ?d = (1193182 div (1000 div unat i)) mod 65536"
      by (simp add: unsigned_ucast_eq take_bit_eq_mod unat_div)
    moreover have "unat (ucast d :: u8) + 256 * unat (ucast (drop_bit 8 d) :: u8) = unat d" for d :: u16
    proof -
      have "unat d < 65536" using unsigned_less [of d] by simp
      then have "unat d div 256 < 256" by simp
      then have "unat (ucast (drop_bit 8 d) :: u8) = unat d div 256"
        by (simp add: unsigned_ucast_eq take_bit_eq_mod drop_bit_eq_div unat_div)
      moreover have "unat (ucast d :: u8) = unat d mod 256" by (simp add: unsigned_ucast_eq take_bit_eq_mod)
      ultimately show ?thesis by simp
    qed
    ultimately show ?thesis by metis
  qed
  show ?thesis using f0 split by (auto simp: pit_set_interval_def Let_def outb_def split: if_splits)
qed

text \<open>\<open>serial_write\<close> and \<open>serial_read\<close> return as soon as the line status says so, however long that
  takes: the byte is put out exactly once, after the first status read with the transmit bit
  set; the byte read is the next one of the data port after the first status with the receive bit.\<close>

lemma serial_transfer_correct:
  assumes "\<exists>k. io_in s (com + 5) (io_reads s (com + 5) + k) AND 0x20 \<noteq> 0"
    and "\<exists>k. io_in s (com + 5) (io_reads s (com + 5) + k) AND 0x01 \<noteq> 0"
  shows "(\<exists>k s'. io_in s (com + 5) (io_reads s (com + 5) + k) AND 0x20 \<noteq> 0 \<and>
       (\<forall>j<k. io_in s (com + 5) (io_reads s (com + 5) + j) AND 0x20 = 0) \<and>
       serial_write com data s = Some s' \<and> io_out s' = io_out s @ [(com, data)] \<and>
       io_reads s' (com + 5) = io_reads s (com + 5) + k + 1) \<and>
     (\<exists>s'. serial_read com s = Some (s', io_in s com (io_reads s com)) \<and> io_out s' = io_out s)"
proof
  have least: "\<exists>k. P k \<and> (\<forall>j<k. \<not> P j)" if "\<exists>k. P k" for P :: "nat \<Rightarrow> bool"
    using that by (meson LeastI_ex not_less_Least)
  obtain k where "io_in s (com + 5) (io_reads s (com + 5) + k) AND 0x20 \<noteq> 0"
      "\<And>j. j < k \<Longrightarrow> io_in s (com + 5) (io_reads s (com + 5) + j) AND 0x20 = 0"
    using least [OF assms(1)] by auto
  with tx.wait_returns [OF this] show "\<exists>k s'. io_in s (com + 5) (io_reads s (com + 5) + k) AND 0x20 \<noteq> 0 \<and>
       (\<forall>j<k. io_in s (com + 5) (io_reads s (com + 5) + j) AND 0x20 = 0) \<and>
       serial_write com data s = Some s' \<and> io_out s' = io_out s @ [(com, data)] \<and>
       io_reads s' (com + 5) = io_reads s (com + 5) + k + 1"
    by (intro exI [of _ k]) (simp add: serial_write_def outb_def)
  obtain k where "io_in s (com + 5) (io_reads s (com + 5) + k) AND 0x01 \<noteq> 0"
      "\<And>j. j < k \<Longrightarrow> io_in s (com + 5) (io_reads s (com + 5) + j) AND 0x01 = 0"
    using least [OF assms(2)] by auto
  from rx.wait_returns [OF this] show "\<exists>s'. serial_read com s = Some (s', io_in s com (io_reads s com)) \<and> io_out s' = io_out s"
    by (simp add: serial_read_def inb_def)
qed

end
