(* ===== verification/Format.thy ===== *)
theory Format
  imports Kmath
begin

text \<open>
  Numbers and format strings as bytes: what \<open>fb_put_ui\<close> and \<open>log_ui\<close> (the same code over two
  sinks), \<open>fb_put_ui_hex\<close> and \<open>log_hex\<close>, \<open>printf\<close> and \<open>log_vprintf\<close> put out. The bytes do not depend
  on the sink, so they are computed here as lists; \<open>Framebuffer\<close> and \<open>Log\<close> send them.
\<close>

section \<open>Decimal\<close>

text \<open>The first loop of \<open>log_ui\<close> and \<open>fb_put_ui\<close>, run only for numbers below 1000000000. In general it may not
  end (for 4000000000 the power wraps around), hence the option type.\<close>

partial_function (option) ui_magnitude :: "u32 \<Rightarrow> u32 \<Rightarrow> u32 option" where
  "ui_magnitude i n = (if n * 10 \<le> i then ui_magnitude i (n * 10) else Some n)"

declare ui_magnitude.simps [code]

function ui_digits_loop :: "u32 \<Rightarrow> u32 \<Rightarrow> u8 list" where
  "ui_digits_loop n i =
     (if n > 0 then ucast (48 + i div n) # ui_digits_loop (n div 10) (i mod n) else [])"
  by pat_completeness auto
termination
proof (relation "measure (\<lambda>(n, i). unat n)")
  fix n i :: u32 assume "n > 0"
  then have "0 < unat n" by (simp add: unat_gt_0)
  then show "((n div 10, i mod n), (n, i)) \<in> measure (\<lambda>(n, i). unat n)" by (simp add: unat_div)
qed simp

declare ui_digits_loop.simps [simp del]

definition log_ui_bytes :: "u32 \<Rightarrow> u8 list option" where
  "log_ui_bytes i =
     map_option (\<lambda>n. ui_digits_loop n i)
       (if i \<ge> 1000000000 then Some 1000000000 else ui_magnitude i 1)"

section \<open>Hexadecimal\<close>

text \<open>The sixteen characters \<open>0\<close> to \<open>F\<close>.\<close>

definition hex_digits :: "u8 list" where
  "hex_digits = [48, 49, 50, 51, 52, 53, 54, 55, 56, 57, 65, 66, 67, 68, 69, 70]"

definition hex_digit :: "u32 \<Rightarrow> u32 \<Rightarrow> u8" where
  "hex_digit i n = hex_digits ! unat (drop_bit (unat n) i AND 0x0F)"

text \<open>\<open>fb_put_ui_hex\<close>: eight nibbles from the highest on.\<close>

definition fb_put_ui_hex_bytes :: "u32 \<Rightarrow> u8 list" where
  "fb_put_ui_hex_bytes n = [48, 120] @ map (\<lambda>i. hex_digit n (of_nat (i * 4))) (rev [0..<8])"

text \<open>\<open>log_hex\<close>: finds the largest nibble, pads with zeroes, then prints. The three loops count in
  steps of four and end only because the counters are multiples of four.\<close>

partial_function (option) hex_magnitude :: "u32 \<Rightarrow> u32 \<Rightarrow> u32 option" where
  "hex_magnitude i n = (if push_bit (unat (n + 4)) 1 \<le> i then hex_magnitude i (n + 4) else Some n)"

partial_function (option) hex_pad :: "u32 \<Rightarrow> u32 \<Rightarrow> u8 list option" where
  "hex_pad min_digits n =
     (if min_digits > n then Option.bind (hex_pad (min_digits - 4) n) (\<lambda>bs. Some (48 # bs)) else Some [])"

partial_function (option) hex_print :: "u32 \<Rightarrow> u32 \<Rightarrow> u8 list option" where
  "hex_print i n =
     (if n = 0 then Some [hex_digit i n]
      else Option.bind (hex_print i (n - 4)) (\<lambda>bs. Some (hex_digit i n # bs)))"

declare hex_magnitude.simps [code] hex_pad.simps [code] hex_print.simps [code]

definition log_hex_bytes :: "u32 \<Rightarrow> u8 list option" where
  "log_hex_bytes i =
     (let min_digits = 8 :: u32;
          mag = (if i \<ge> 0x10000000 then Some 28 else hex_magnitude i 0);
          min_digits = (if min_digits > 0 then min_digits - 1 else min_digits)
      in case mag of None \<Rightarrow> None
         | Some n \<Rightarrow>
             (case hex_pad (push_bit 2 min_digits) n of None \<Rightarrow> None
              | Some pad \<Rightarrow> map_option (\<lambda>ds. [48, 120] @ pad @ ds) (hex_print i n)))"

section \<open>Format strings\<close>

text \<open>A variable argument as \<open>va_arg\<close> reads it: a word or a string. Reading one that is not there,
  or is of the other kind, and running past the end of the format string after a final \<open>%\<close> are
  undefined: \<open>None\<close>. A directive that is not known puts out nothing.\<close>

datatype va = Word u32 | Str "u8 list"

text \<open>\<open>log_vprintf\<close> (and \<open>printf\<close>, which differs in the sink and in the routine for \<open>%X\<close>, here \<open>hex\<close>).\<close>

fun vprintf :: "(u32 \<Rightarrow> u8 list option) \<Rightarrow> u8 list \<Rightarrow> va list \<Rightarrow> u8 list option" where
  "vprintf hex [] args = Some []"
| "vprintf hex (p # ps) args =
     (if p \<noteq> 37 then map_option (\<lambda>out. p # out) (vprintf hex ps args)
      else case ps of
        [] \<Rightarrow> None
      | d # ds \<Rightarrow>
          if d = 99 then
            (case args of Word w # as \<Rightarrow> map_option (\<lambda>out. ucast w # out) (vprintf hex ds as) | _ \<Rightarrow> None)
          else if d = 117 then
            (case args of Word w # as \<Rightarrow>
               (case log_ui_bytes w of None \<Rightarrow> None | Some b \<Rightarrow> map_option (\<lambda>out. b @ out) (vprintf hex ds as)) | _ \<Rightarrow> None)
          else if d = 88 then
            (case args of Word w # as \<Rightarrow>
               (case hex w of None \<Rightarrow> None | Some b \<Rightarrow> map_option (\<lambda>out. b @ out) (vprintf hex ds as)) | _ \<Rightarrow> None)
          else if d = 115 then
            (case args of Str b # as \<Rightarrow> map_option (\<lambda>out. b @ out) (vprintf hex ds as) | _ \<Rightarrow> None)
          else if d = 37 then map_option (\<lambda>out. 37 # out) (vprintf hex ds args)
          else vprintf hex ds args)"

definition log_vprintf_bytes :: "u8 list \<Rightarrow> va list \<Rightarrow> u8 list option" where
  "log_vprintf_bytes fmt args = vprintf log_hex_bytes fmt args"

definition printf_bytes :: "u8 list \<Rightarrow> va list \<Rightarrow> u8 list option" where
  "printf_bytes fmt args = vprintf (Some \<circ> fb_put_ui_hex_bytes) fmt args"

section \<open>Decimal numbers read back\<close>

fun decimal :: "u8 list \<Rightarrow> nat \<Rightarrow> nat" where
  "decimal [] acc = acc"
| "decimal (b # bs) acc = decimal bs (10 * acc + (unat b - 48))"

lemma unat_power10: "k \<le> 9 \<Longrightarrow> unat (10 ^ k :: u32) = 10 ^ k"
proof (induction k)
  case (Suc k)
  have "(10 :: nat) ^ Suc k \<le> 10 ^ 9" by (rule power_increasing) (use Suc.prems in simp_all)
  then have "unat (10 :: u32) * unat (10 ^ k :: u32) < 2 ^ LENGTH(32)" using Suc by simp
  with Suc show ?case by (simp add: unat_mult_nowrap)
qed simp

lemma power10_le: "k \<le> 9 \<Longrightarrow> (10 ^ k :: u32) \<le> i \<longleftrightarrow> 10 ^ k \<le> unat i"
  by (simp add: word_le_nat_alt unat_power10)

lemma ui_magnitude_returns:
  assumes "i < 1000000000" and "k \<le> 8"
  shows "\<exists>m. ui_magnitude i (10 ^ k) = Some (10 ^ m) \<and> k \<le> m \<and> m \<le> 8 \<and>
            unat i < 10 ^ (m + 1) \<and> (m \<noteq> k \<longrightarrow> 10 ^ m \<le> unat i)"
  using assms
proof (induction "8 - k" arbitrary: k rule: less_induct)
  case less
  show ?case
  proof (cases "10 ^ Suc k \<le> unat i")
    case False
    then have "ui_magnitude i (10 ^ k) = Some (10 ^ k)"
      using power10_le [of "Suc k" i] less.prems(2) by (subst ui_magnitude.simps) (simp add: mult.commute)
    with False less.prems(2) show ?thesis by (intro exI [of _ k]) simp
  next
    case True
    have "k \<noteq> 8" using True less.prems(1) by (auto simp: word_less_nat_alt)
    then have k: "Suc k \<le> 8" and dec: "8 - Suc k < 8 - k" using less.prems(2) by simp_all
    have "ui_magnitude i (10 ^ k) = ui_magnitude i (10 ^ Suc k)"
      using True power10_le [of "Suc k" i] k by (subst ui_magnitude.simps) (simp add: mult.commute)
    moreover obtain m where "ui_magnitude i (10 ^ Suc k) = Some (10 ^ m)" "Suc k \<le> m" "m \<le> 8"
        "unat i < 10 ^ (m + 1)" "m \<noteq> Suc k \<longrightarrow> 10 ^ m \<le> unat i"
      using less.hyps [of "Suc k", OF dec less.prems(1) k] by blast
    ultimately show ?thesis using True by (intro exI [of _ m]) auto
  qed
qed

lemma digit_byte: "d < 10 \<Longrightarrow> unat (ucast (48 + d :: u32) :: u8) = 48 + unat d"
proof -
  assume "d < 10"
  then have d: "unat d < 10" by (simp add: word_less_nat_alt)
  then have "unat (48 + d) = 48 + unat d" by (subst unat_add_nowrap) simp_all
  with d show ?thesis by (simp add: unsigned_ucast_eq take_bit_eq_mod)
qed

text \<open>The digits for the magnitude \<open>10 ^ m\<close>: one for each power, each between 0 and 9.\<close>

lemma ui_digits_loop_value:
  assumes "m \<le> 9" and "unat i < 10 ^ (m + 1)"
  shows "decimal (ui_digits_loop (10 ^ m) i) acc = acc * 10 ^ (m + 1) + unat i \<and>
         length (ui_digits_loop (10 ^ m) i) = m + 1 \<and> (\<forall>b\<in>set (ui_digits_loop (10 ^ m) i). 48 \<le> unat b \<and> unat b \<le> 57)"
  using assms
proof (induction m arbitrary: i acc)
  case 0
  have "(1 :: u32) div 10 = 0" by simp
  then have "ui_digits_loop 1 i = [ucast (48 + i)]"
    by (subst ui_digits_loop.simps) (simp add: ui_digits_loop.simps [of 0])
  moreover have "unat (ucast (48 + i) :: u8) = 48 + unat i"
    using 0 by (intro digit_byte) (simp add: word_less_nat_alt)
  ultimately show ?case using 0 by simp
next
  case (Suc m)
  let ?n = "10 ^ Suc m :: u32"
  have un: "unat ?n = 10 ^ Suc m" using Suc.prems(1) by (rule unat_power10)
  then have pos: "?n > 0" by (simp add: word_less_nat_alt)
  have ud: "unat (i div ?n) = unat i div 10 ^ Suc m" using un by (simp only: unat_div)
  have um: "unat (i mod ?n) = unat i mod 10 ^ Suc m" using un by (simp only: unat_mod)
  have "unat (?n div 10) = unat (10 ^ m :: u32)"
    using un unat_power10 [of m] Suc.prems(1) by (simp only: unat_div) simp
  then have dv: "?n div 10 = 10 ^ m" by (rule word_unat_eq_iff [THEN iffD2])
  have lt: "unat i div 10 ^ Suc m < 10" using Suc.prems(2) by (simp add: div_less_iff_less_mult mult.commute)
  have digit: "unat (ucast (48 + i div ?n) :: u8) = 48 + unat i div 10 ^ Suc m"
    using digit_byte [of "i div ?n"] ud lt by (simp add: word_less_nat_alt)
  have loop: "ui_digits_loop ?n i = ucast (48 + i div ?n) # ui_digits_loop (10 ^ m) (i mod ?n)"
    using pos dv by (subst ui_digits_loop.simps) simp
  have r: "unat (i mod ?n) < 10 ^ (m + 1)" unfolding um by simp
  have m9: "m \<le> 9" using Suc.prems(1) by simp
  note IH = Suc.IH [OF m9 r, of "10 * acc + unat i div 10 ^ Suc m"]
  have "decimal (ui_digits_loop ?n i) acc = (10 * acc + unat i div 10 ^ Suc m) * 10 ^ (m + 1) + unat i mod 10 ^ Suc m"
    unfolding loop decimal.simps digit um [symmetric] using IH by simp
  also have "\<dots> = acc * 10 ^ (Suc m + 1) + unat i"
    using div_mult_mod_eq [of "unat i" "10 ^ Suc m"] by (simp add: algebra_simps)
  finally have "decimal (ui_digits_loop ?n i) acc = acc * 10 ^ (Suc m + 1) + unat i" .
  moreover have "length (ui_digits_loop ?n i) = Suc m + 1" using IH by (simp only: loop list.size)
  moreover have "\<forall>b\<in>set (ui_digits_loop ?n i). 48 \<le> unat b \<and> unat b \<le> 57"
    unfolding loop list.set ball_simps digit using IH lt by simp
  ultimately show ?case by blast
qed

lemma log_ui_bytes_value:
  obtains bs where "log_ui_bytes i = Some bs" "decimal bs 0 = unat i" "length bs \<le> 10"
    "length bs = 1 \<or> 10 ^ (length bs - 1) \<le> unat i" "\<forall>b\<in>set bs. 48 \<le> unat b \<and> unat b \<le> 57"
proof (cases "i \<ge> 1000000000")
  case True
  have "unat i < 10 ^ (9 + 1)" using unat_lt_u32 [of i] by simp
  note v = ui_digits_loop_value [of 9 i, OF _ this]
  show thesis
    by (rule that [of "ui_digits_loop (10 ^ 9) i"])
       (use True v in \<open>auto simp: log_ui_bytes_def word_le_nat_alt\<close>)
next
  case False
  then obtain m where m: "ui_magnitude i 1 = Some (10 ^ m)" "m \<le> 8" "unat i < 10 ^ (m + 1)" "m \<noteq> 0 \<longrightarrow> 10 ^ m \<le> unat i"
    using ui_magnitude_returns [of i 0] by (auto simp: not_le)
  have m9: "m \<le> 9" using m(2) by simp
  note v = ui_digits_loop_value [OF m9 m(3), of 0]
  show thesis
    by (rule that [of "ui_digits_loop (10 ^ m) i"])
       (use False m v in \<open>auto simp: log_ui_bytes_def\<close>)
qed

section \<open>Hexadecimal numbers read back\<close>

definition hex_value :: "u8 \<Rightarrow> nat" where
  "hex_value b = (if b \<le> 57 then unat b - 48 else unat b - 55)"

fun hexadecimal :: "u8 list \<Rightarrow> nat \<Rightarrow> nat" where
  "hexadecimal [] acc = acc"
| "hexadecimal (b # bs) acc = hexadecimal bs (16 * acc + hex_value b)"

lemma hex_value_digits: "k < 16 \<Longrightarrow> hex_value (hex_digits ! k) = k"
proof -
  have "\<forall>k\<in>set [0..<16]. hex_value (hex_digits ! k) = k" by code_simp
  then show "k < 16 \<Longrightarrow> ?thesis" by simp
qed

definition nibble :: "u32 \<Rightarrow> nat \<Rightarrow> nat" where
  "nibble i j = unat i div 16 ^ j mod 16"

lemma unat_nibble_offset: "j \<le> 8 \<Longrightarrow> unat (of_nat (j * 4) :: u32) = 4 * j"
  by (subst unat_of_nat_small) simp_all

lemma unat_take_bit_4: "unat (take_bit 4 x :: u32) = unat x mod 16"
  by (simp add: take_bit_eq_mod unat_mod)

lemma power_nibble: "2 ^ (4 * k) = (16 :: nat) ^ k"
  by (simp add: power_mult)

lemma hex_digit_nibble:
  assumes "j \<le> 8"
  shows "hex_digit i (of_nat (j * 4)) = hex_digits ! nibble i j"
proof -
  have "(x :: u32) AND 0x0F = take_bit 4 x" for x by (simp add: take_bit_eq_mask mask_eq_exp_minus_1)
  then have "unat (drop_bit (4 * j) i AND 0x0F) = unat i div 2 ^ (4 * j) mod 16"
    by (simp only: unat_take_bit_4 unat_drop_bit_eq) (simp only: drop_bit_eq_div)
  also have "\<dots> = nibble i j" by (simp only: nibble_def power_nibble)
  finally show ?thesis using unat_nibble_offset [OF assms] by (simp add: hex_digit_def)
qed

lemma nibble_lt: "nibble i j < 16"
  by (simp add: nibble_def)

lemma hexadecimal_nibbles:
  "k \<le> 8 \<Longrightarrow> hexadecimal (map (\<lambda>j. hex_digits ! nibble i j) (rev [0..<k])) acc = acc * 16 ^ k + unat i mod 16 ^ k"
proof (induction k arbitrary: acc)
  case (Suc k)
  have m: "unat i mod 16 ^ Suc k = 16 ^ k * nibble i k + unat i mod 16 ^ k"
    using mod_mult2_eq [of "unat i" "16 ^ k" 16] by (simp add: nibble_def mult.commute)
  have k: "k \<le> 8" using Suc.prems by simp
  have "hexadecimal (map (\<lambda>j. hex_digits ! nibble i j) (rev [0..<Suc k])) acc =
      (16 * acc + nibble i k) * 16 ^ k + unat i mod 16 ^ k"
    using Suc.IH [OF k, of "16 * acc + nibble i k"] by (simp add: hex_value_digits nibble_lt)
  also have "\<dots> = acc * 16 ^ Suc k + unat i mod 16 ^ Suc k" unfolding m by (simp add: algebra_simps)
  finally show ?case .
qed simp

lemma hex_magnitude_returns:
  assumes "i < 0x10000000" and "k \<le> 6"
  shows "\<exists>m. hex_magnitude i (of_nat (k * 4)) = Some (of_nat (m * 4)) \<and> m \<le> 6 \<and> unat i < 16 ^ (m + 1)"
  using assms
proof (induction "6 - k" arbitrary: k rule: less_induct)
  case less
  have n4: "of_nat (k * 4) + 4 = (of_nat (Suc k * 4) :: u32)" by simp
  have u: "unat (of_nat (Suc k * 4) :: u32) = 4 * Suc k" by (rule unat_nibble_offset) (use less.prems(2) in simp)
  have "(2 :: nat) ^ (4 * Suc k) < 2 ^ LENGTH(32)" using less.prems(2) by (intro power_strict_increasing) simp_all
  then have "unat (of_nat (2 ^ (4 * Suc k)) :: u32) = 2 ^ (4 * Suc k)" by (rule unat_of_nat_small)
  then have "unat (push_bit (4 * Suc k) 1 :: u32) = 2 ^ (4 * Suc k)" by (simp only: push_bit_of_1 of_nat_power of_nat_numeral)
  then have p: "push_bit (unat (of_nat (k * 4) + 4 :: u32)) 1 \<le> i \<longleftrightarrow> 16 ^ Suc k \<le> unat i"
    unfolding n4 u word_le_nat_alt by (simp only: power_nibble)
  show ?case
  proof (cases "16 ^ Suc k \<le> unat i")
    case False
    then have "hex_magnitude i (of_nat (k * 4)) = Some (of_nat (k * 4))"
      using p by (subst hex_magnitude.simps) (simp only: if_False)
    with False less.prems(2) show ?thesis by (intro exI [of _ k]) simp
  next
    case True
    have "k \<noteq> 6" using True less.prems(1) by (auto simp: word_less_nat_alt)
    then have k: "Suc k \<le> 6" "6 - Suc k < 6 - k" using less.prems(2) by simp_all
    have "hex_magnitude i (of_nat (k * 4)) = hex_magnitude i (of_nat (Suc k * 4))"
      using True p n4 by (subst hex_magnitude.simps) (simp only: if_True)
    with less.hyps [OF k(2) less.prems(1) k(1)] show ?thesis by simp
  qed
qed

lemma hex_pad_returns:
  "m + p \<le> 7 \<Longrightarrow> hex_pad (of_nat ((m + p) * 4)) (of_nat (m * 4)) = Some (replicate p 48)"
proof (induction p)
  case 0
  then show ?case by (subst hex_pad.simps) simp
next
  case (Suc p)
  have "unat (of_nat ((m + Suc p) * 4) :: u32) = 4 * (m + Suc p)" "unat (of_nat (m * 4) :: u32) = 4 * m"
    using Suc.prems by (simp_all only: unat_nibble_offset)
  then have "(of_nat (m * 4) :: u32) < of_nat ((m + Suc p) * 4)" by (simp only: word_less_nat_alt) simp
  moreover have "of_nat ((m + Suc p) * 4) - 4 = (of_nat ((m + p) * 4) :: u32)" by (simp add: algebra_simps)
  ultimately show ?case using Suc by (subst hex_pad.simps) (simp only: if_True, simp)
qed

lemma hex_print_returns:
  "m \<le> 7 \<Longrightarrow> hex_print i (of_nat (m * 4)) = Some (map (\<lambda>j. hex_digits ! nibble i j) (rev [0..<Suc m]))"
proof (induction m)
  case 0
  then show ?case using hex_digit_nibble [of 0 i] by (subst hex_print.simps) simp
next
  case (Suc m)
  have "unat (of_nat (Suc m * 4) :: u32) = 4 * Suc m" using Suc.prems by (simp only: unat_nibble_offset)
  then have "(of_nat (Suc m * 4) :: u32) \<noteq> 0" by (metis less_irrefl mult_is_0 nat.distinct(1) numeral_neq_zero unat_0)
  moreover have "of_nat (Suc m * 4) - 4 = (of_nat (m * 4) :: u32)" by (simp add: algebra_simps)
  moreover have "hex_digit i (of_nat (Suc m * 4)) = hex_digits ! nibble i (Suc m)"
    using Suc.prems by (intro hex_digit_nibble) simp
  ultimately show ?case using Suc by (subst hex_print.simps) (simp only: if_False, simp)
qed

lemma fb_hex_nibbles: "fb_put_ui_hex_bytes i = [48, 120] @ map (\<lambda>j. hex_digits ! nibble i j) (rev [0..<8])"
  unfolding fb_put_ui_hex_bytes_def using hex_digit_nibble [of _ i] by (intro arg_cong2 [of _ _ _ _ "(@)"] map_cong) auto

lemma log_hex_bytes_eq: "log_hex_bytes i = Some (fb_put_ui_hex_bytes i)"
proof -
  have "\<exists>m. (if i \<ge> 0x10000000 then Some 28 else hex_magnitude i 0) = Some (of_nat (m * 4)) \<and> m \<le> 7 \<and> unat i < 16 ^ (m + 1)"
  proof (cases "i \<ge> 0x10000000")
    case True
    then show ?thesis using unat_lt_u32 [of i] by (intro exI [of _ 7]) simp
  next
    case False
    then obtain m where "hex_magnitude i 0 = Some (of_nat (m * 4))" "m \<le> 6" "unat i < 16 ^ (m + 1)"
      using hex_magnitude_returns [of i 0] by (auto simp: not_le)
    with False show ?thesis by (intro exI [of _ m]) simp
  qed
  then obtain m where m: "(if i \<ge> 0x10000000 then Some 28 else hex_magnitude i 0) = Some (of_nat (m * 4))" "m \<le> 7"
    "unat i < 16 ^ (m + 1)" by blast
  have pad: "hex_pad 28 (of_nat (m * 4)) = Some (replicate (7 - m) 48)"
    using hex_pad_returns [of m "7 - m"] m(2) by simp
  have "[0..<8] = [0..<Suc m] @ [Suc m..<8]"
    using m(2) upt_add_eq_append [of 0 "Suc m" "7 - m"] by simp
  then have "rev [0..<8] = rev [Suc m..<8] @ rev [0..<Suc m]" by (simp only: rev_append)
  moreover have "map (\<lambda>j. hex_digits ! nibble i j) (rev [Suc m..<8]) = replicate (7 - m) 48"
  proof -
    have "nibble i j = 0" if "Suc m \<le> j" for j
    proof -
      have "16 ^ (m + 1) \<le> (16 :: nat) ^ j" by (rule power_increasing) (use that in simp_all)
      then show ?thesis using m(3) by (simp add: nibble_def)
    qed
    then have "map (\<lambda>j. hex_digits ! nibble i j) (rev [Suc m..<8]) = map (\<lambda>j. 48) (rev [Suc m..<8])"
      by (intro map_cong) (auto simp: hex_digits_def)
    then show ?thesis by (simp add: map_replicate_const)
  qed
  ultimately have "fb_put_ui_hex_bytes i = [48, 120] @ replicate (7 - m) 48 @ map (\<lambda>j. hex_digits ! nibble i j) (rev [0..<Suc m])"
    unfolding fb_hex_nibbles by (simp only: map_append)
  with m pad hex_print_returns [OF m(2), of i] show ?thesis
    by (simp only: log_hex_bytes_def Let_def option.case option.map) (simp add: push_bit_eq_mult)
qed

section \<open>What a format string means\<close>

text \<open>A format string with its arguments is a sequence of pieces; literal text has no percent sign.\<close>

datatype piece = Lit "u8 list" | Chr u32 | Dec u32 | Hex u32 | Text "u8 list" | Percent

fun piece_format :: "piece \<Rightarrow> u8 list" where
  "piece_format (Lit bs) = bs"
| "piece_format (Chr w) = [37, 99]"
| "piece_format (Dec w) = [37, 117]"
| "piece_format (Hex w) = [37, 88]"
| "piece_format (Text bs) = [37, 115]"
| "piece_format Percent = [37, 37]"

fun piece_args :: "piece \<Rightarrow> va list" where
  "piece_args (Chr w) = [Word w]"
| "piece_args (Dec w) = [Word w]"
| "piece_args (Hex w) = [Word w]"
| "piece_args (Text bs) = [Str bs]"
| "piece_args _ = []"

fun piece_bytes :: "piece \<Rightarrow> u8 list" where
  "piece_bytes (Lit bs) = bs"
| "piece_bytes (Chr w) = [ucast w]"
| "piece_bytes (Dec w) = the (log_ui_bytes w)"
| "piece_bytes (Hex w) = fb_put_ui_hex_bytes w"
| "piece_bytes (Text bs) = bs"
| "piece_bytes Percent = [37]"

fun piece_ok :: "piece \<Rightarrow> bool" where
  "piece_ok (Lit bs) = (37 \<notin> set bs)"
| "piece_ok _ = True"

lemma vprintf_literal:
  "37 \<notin> set bs \<Longrightarrow> vprintf hex (bs @ fmt) args = map_option (\<lambda>out. bs @ out) (vprintf hex fmt args)"
proof (induction bs)
  case (Cons b bs)
  then show ?case by (cases "vprintf hex fmt args") auto
qed (simp add: option.map_id0 [unfolded id_def] map_option_case split: option.split)

lemma vprintf_pieces:
  assumes "\<And>w. hex w = Some (fb_put_ui_hex_bytes w)" and "\<forall>p\<in>set ps. piece_ok p"
  shows "vprintf hex (concat (map piece_format ps)) (concat (map piece_args ps)) = Some (concat (map piece_bytes ps))"
  using assms(2)
proof (induction ps)
  case (Cons p ps)
  show ?case
  proof (cases p)
    case (Lit bs)
    with Cons vprintf_literal [of bs] show ?thesis by simp
  next
    case (Dec w)
    obtain b where "log_ui_bytes w = Some b" by (rule log_ui_bytes_value [of w])
    with Dec Cons show ?thesis by simp
  qed (use Cons assms(1) in simp_all)
qed simp

section \<open>Properties\<close>

text \<open>Every number is printed right in decimal: \<open>log_ui\<close> (and \<open>fb_put_ui\<close>) ends, puts out one to ten
  decimal digits without leading zeroes, and reading them back gives the number.\<close>

lemma decimal_roundtrip:
  "\<exists>bs. log_ui_bytes i = Some bs \<and> decimal bs 0 = unat i \<and> 1 \<le> length bs \<and> length bs \<le> 10 \<and>
     (\<forall>b\<in>set bs. 48 \<le> unat b \<and> unat b \<le> 57) \<and> (length bs = 1 \<or> 10 ^ (length bs - 1) \<le> unat i)"
proof (rule log_ui_bytes_value [of i])
  fix bs assume bs: "log_ui_bytes i = Some bs" "decimal bs 0 = unat i" "length bs \<le> 10"
    "length bs = 1 \<or> 10 ^ (length bs - 1) \<le> unat i" "\<forall>b\<in>set bs. 48 \<le> unat b \<and> unat b \<le> 57"
  have "length bs \<noteq> 0" using bs(2,4) by auto
  with bs show ?thesis by (intro exI [of _ bs]) (simp add: Suc_leI)
qed

text \<open>The two hexadecimal printers agree: \<open>log_hex\<close>, which looks for the largest nibble and pads
  with zeroes, ends and puts out the same ten characters as \<open>fb_put_ui_hex\<close>, and the eight digits
  after \<open>0x\<close> read back give the number.\<close>

lemma hexadecimal_roundtrip:
  "log_hex_bytes i = Some (fb_put_ui_hex_bytes i) \<and> length (fb_put_ui_hex_bytes i) = 10 \<and>
   take 2 (fb_put_ui_hex_bytes i) = [48, 120] \<and> hexadecimal (drop 2 (fb_put_ui_hex_bytes i)) 0 = unat i"
proof -
  have "hexadecimal (drop 2 (fb_put_ui_hex_bytes i)) 0 = unat i"
    using hexadecimal_nibbles [of 8 i 0] unat_lt_u32 [of i] by (simp add: fb_hex_nibbles)
  then show ?thesis by (simp add: log_hex_bytes_eq) (simp add: fb_put_ui_hex_bytes_def)
qed



end
