(* ===== verification/Framebuffer.thy ===== *)
theory Framebuffer
  imports Cmem Io Format
begin

text \<open>
  The console (\<open>fb.c\<close>) and \<open>printf\<close> (\<open>stdio.c\<close>): 25 rows of 80 two-byte cells in memory from
  \<open>FB_MEMORY\<close> on, a cursor position, and the cursor of the display controller, which is set
  through ports. The refinement relates it to a plain terminal: a list of 2000 characters and a
  position.
\<close>

section \<open>State and cells\<close>

record fb_state =
  fb_mem :: mem
  cursor_pos :: u16
  fb_io :: io

abbreviation (input) FB_MEMORY :: u32 where "FB_MEMORY \<equiv> 0xC00B8000"
abbreviation (input) BLACK_ON_WHITE :: u8 where "BLACK_ON_WHITE \<equiv> 0x0F"
abbreviation (input) BLANK :: u8 where "BLANK \<equiv> 32"

definition TO_ADDRESS :: "u32 \<Rightarrow> u32 \<Rightarrow> u32" where
  "TO_ADDRESS row col = FB_MEMORY + 2 * (row * 80 + col)"

definition read_cell :: "fb_state \<Rightarrow> u32 \<Rightarrow> u32 \<Rightarrow> u8" where
  "read_cell s row col = fb_mem s (TO_ADDRESS row col)"

definition write_cell :: "u32 \<Rightarrow> u8 \<Rightarrow> fb_state \<Rightarrow> fb_state" where
  "write_cell cell b s = s\<lparr>fb_mem := (fb_mem s)(cell := b, cell + 1 := BLACK_ON_WHITE)\<rparr>"

definition write_at :: "u8 \<Rightarrow> u32 \<Rightarrow> u32 \<Rightarrow> fb_state \<Rightarrow> fb_state" where
  "write_at b row col s = write_cell (TO_ADDRESS row col) b s"

section \<open>Cursor\<close>

definition set_cursor :: "u16 \<Rightarrow> fb_state \<Rightarrow> fb_state" where
  "set_cursor loc s =
     s\<lparr>fb_io := outb 0x3D5 (ucast loc) (outb 0x3D4 15
                 (outb 0x3D5 (ucast (drop_bit 8 loc)) (outb 0x3D4 14 (fb_io s))))\<rparr>"

definition move_cursor_to :: "u16 \<Rightarrow> fb_state \<Rightarrow> fb_state" where
  "move_cursor_to loc s = set_cursor loc (s\<lparr>cursor_pos := loc\<rparr>)"

definition move_cursor_forward :: "fb_state \<Rightarrow> fb_state" where
  "move_cursor_forward s = move_cursor_to (cursor_pos s + 1) s"

definition move_cursor_back :: "fb_state \<Rightarrow> fb_state" where
  "move_cursor_back s = (if cursor_pos s \<noteq> 0 then move_cursor_to (cursor_pos s - 1) s else s)"

definition move_cursor_down :: "fb_state \<Rightarrow> fb_state" where
  "move_cursor_down s = move_cursor_to (cursor_pos s + 80) s"

definition move_cursor_start :: "fb_state \<Rightarrow> fb_state" where
  "move_cursor_start s = move_cursor_to (cursor_pos s - cursor_pos s mod 80) s"

definition fb_move_cursor :: "u16 \<Rightarrow> u16 \<Rightarrow> fb_state \<Rightarrow> fb_state" where
  "fb_move_cursor row col s = move_cursor_to (row * 80 + col) s"

section \<open>Output\<close>

text \<open>The loops over rows and columns have constant bounds; they are folds over the indices.\<close>

definition scroll :: "fb_state \<Rightarrow> fb_state" where
  "scroll s =
     (let s = fold (\<lambda>r. fold (\<lambda>c s. write_at (read_cell s (of_nat r) (of_nat c)) (of_nat r - 1) (of_nat c) s) [0..<80])
                [1..<25] s
      in fold (\<lambda>c. write_at BLANK 24 (of_nat c)) [0..<80] s)"

function fb_put_b :: "u8 \<Rightarrow> fb_state \<Rightarrow> fb_state" where
  "fb_put_b b s =
     (let s = (if b \<noteq> 10 \<and> b \<noteq> 9 \<and> b \<noteq> 8
               then write_cell (FB_MEMORY + 2 * ucast (cursor_pos s)) b s else s);
          s = (if b = 10 then move_cursor_start (move_cursor_down s)
               else if b = 8 then
                 (let s = move_cursor_back s in write_cell (FB_MEMORY + 2 * ucast (cursor_pos s)) BLANK s)
               else if b = 9 then fb_put_b 32 (fb_put_b 32 (fb_put_b 32 (fb_put_b 32 s)))
               else move_cursor_forward s)
      in if cursor_pos s \<ge> 2000 then fb_move_cursor 24 0 (scroll s) else s)"
  by pat_completeness auto
termination
  by (relation "measure (\<lambda>(b, s). if b = 9 then 1 else 0)") auto

declare fb_put_b.simps [simp del]

definition fb_put_s :: "u8 list \<Rightarrow> fb_state \<Rightarrow> fb_state" where
  "fb_put_s str s = fold fb_put_b str s"

definition fb_put_ui :: "u32 \<Rightarrow> fb_state \<Rightarrow> fb_state option" where
  "fb_put_ui i s = map_option (\<lambda>bs. fold fb_put_b bs s) (log_ui_bytes i)"

definition fb_put_ui_hex :: "u32 \<Rightarrow> fb_state \<Rightarrow> fb_state" where
  "fb_put_ui_hex n s = fold fb_put_b (fb_put_ui_hex_bytes n) s"

definition fb_clear :: "fb_state \<Rightarrow> fb_state" where
  "fb_clear s =
     fb_move_cursor 0 0 (fold (\<lambda>i. fold (\<lambda>j. write_at BLANK (of_nat i) (of_nat j)) [0..<80]) [0..<25] s)"

definition printf :: "u8 list \<Rightarrow> va list \<Rightarrow> fb_state \<Rightarrow> fb_state option" where
  "printf fmt args s = map_option (\<lambda>out. fold fb_put_b out s) (printf_bytes fmt args)"

text \<open>The device operations: \<open>fb_write\<close> ignores the length and prints up to the terminator.\<close>

definition fb_open :: "int" where "fb_open = 0"
definition fb_lookup :: "int" where "fb_lookup = - 1"
definition fb_read :: "int" where "fb_read = - 1"
definition fb_getattr :: "int" where "fb_getattr = - 1"

definition fb_write :: "u8 list \<Rightarrow> u32 \<Rightarrow> fb_state \<Rightarrow> fb_state \<times> int" where
  "fb_write str len s = (fb_put_s str s, 0)"

section \<open>The terminal\<close>

definition cell_addr :: "nat \<Rightarrow> u32" where
  "cell_addr k = FB_MEMORY + 2 * of_nat k"

definition screen :: "fb_state \<Rightarrow> u8 list" where
  "screen s = map (\<lambda>k. fb_mem s (cell_addr k)) [0..<2000]"

lemma length_screen [simp]: "length (screen s) = 2000"
  by (simp add: screen_def)

text \<open>The bytes of the display, and everything else in memory.\<close>

definition display :: "u32 set" where
  "display = {a. a - FB_MEMORY < 4000}"

definition outside_same :: "fb_state \<Rightarrow> fb_state \<Rightarrow> bool" where
  "outside_same s s' \<longleftrightarrow> (\<forall>a. a \<notin> display \<longrightarrow> fb_mem s' a = fb_mem s a)"

lemma outside_same_refl [simp]: "outside_same s s"
  by (simp add: outside_same_def)

lemma outside_same_trans: "outside_same s s' \<Longrightarrow> outside_same s' s'' \<Longrightarrow> outside_same s s''"
  by (simp add: outside_same_def)

lemma unat_cell: "k < 2000 \<Longrightarrow> unat (cell_addr k) = unat FB_MEMORY + 2 * k"
proof -
  assume k: "k < 2000"
  have "unat (of_nat k :: u32) = k" using k by (simp add: unat_of_nat_small)
  then have "unat (2 * of_nat k :: u32) = 2 * k" using k by (simp add: unat_mult_nowrap)
  then show ?thesis unfolding cell_addr_def using k by (subst unat_add_nowrap) simp_all
qed

lemma cell_addr_distinct:
  assumes "j < 2000" and "k < 2000"
  shows "cell_addr j = cell_addr k \<longleftrightarrow> j = k" and "cell_addr j \<noteq> cell_addr k + 1"
proof -
  have u: "unat (cell_addr j) = 3221979136 + 2 * j" "unat (cell_addr k) = 3221979136 + 2 * k"
    using unat_cell [OF assms(1)] unat_cell [OF assms(2)] by simp_all
  then show "cell_addr j = cell_addr k \<longleftrightarrow> j = k" by (auto simp: word_unat_eq_iff)
  have "unat (cell_addr k + 1) = unat (cell_addr k) + 1"
    using u(2) assms(2) by (subst unat_add_nowrap) simp_all
  then show "cell_addr j \<noteq> cell_addr k + 1" using u by (auto simp: word_unat_eq_iff) presburger
qed

lemma cell_in_display: "k < 2000 \<Longrightarrow> cell_addr k \<in> display \<and> cell_addr k + 1 \<in> display"
proof -
  assume k: "k < 2000"
  then have u: "unat (2 * of_nat k :: u32) = 2 * k"
    by (simp add: unat_mult_nowrap unat_of_nat_small)
  then have "unat (1 + 2 * of_nat k :: u32) = 2 * k + 1" using k by (subst unat_add_nowrap) simp_all
  with u k show ?thesis by (simp add: display_def cell_addr_def word_less_nat_alt)
qed

lemma write_cell_fields [simp]:
  "cursor_pos (write_cell a b s) = cursor_pos s" "fb_io (write_cell a b s) = fb_io s"
  by (simp_all add: write_cell_def)

lemma write_cell_screen:
  assumes "k < 2000"
  shows "screen (write_cell (cell_addr k) b s) = (screen s)[k := b]" and "outside_same s (write_cell (cell_addr k) b s)"
proof -
  show "screen (write_cell (cell_addr k) b s) = (screen s)[k := b]"
    using cell_addr_distinct [OF _ assms]
    by (intro nth_equalityI) (auto simp: screen_def write_cell_def nth_list_update)
  show "outside_same s (write_cell (cell_addr k) b s)"
    using cell_in_display [OF assms] by (auto simp: outside_same_def write_cell_def)
qed

lemma move_cursor_fields [simp]:
  "cursor_pos (move_cursor_to l s) = l" "fb_mem (move_cursor_to l s) = fb_mem s" "screen (move_cursor_to l s) = screen s"
  "outside_same s (move_cursor_to l s)"
  by (simp_all add: move_cursor_to_def set_cursor_def screen_def outside_same_def)

section \<open>Scrolling\<close>

lemma cell_of_row_col:
  "TO_ADDRESS (of_nat r) (of_nat c) = cell_addr (r * 80 + c)"
  by (simp add: TO_ADDRESS_def cell_addr_def)

lemma cell_of_previous_row: "1 \<le> r \<Longrightarrow> TO_ADDRESS (of_nat r - 1) (of_nat c) = cell_addr (r * 80 + c - 80)"
  using cell_of_row_col [of "r - 1" c] by (simp add: of_nat_diff diff_mult_distrib)

text \<open>One cell copied to the row above, on lists.\<close>

definition copy_up :: "nat \<Rightarrow> u8 list \<Rightarrow> u8 list" where
  "copy_up k l = l[k - 80 := l ! k]"

lemma fold_copy_up:
  assumes "length l = 2000" and "80 \<le> n" and "n \<le> 2000"
  shows "fold copy_up [80..<n] l = take (n - 80) (drop 80 l) @ drop (n - 80) l"
  using assms(2,3)
proof (induction n rule: dec_induct)
  case (step n)
  let ?l = "take (n - 80) (drop 80 l) @ drop (n - 80) l"
  have n: "n < 2000" "80 \<le> n" using step by simp_all
  have len: "length (take (n - 80) (drop 80 l)) = n - 80" using n assms(1) by simp
  have "fold copy_up [80..<Suc n] l = copy_up n ?l" using step n by simp
  also have "\<dots> = take (n - 80) (drop 80 l) @ (drop (n - 80) l)[0 := ?l ! n]"
    unfolding copy_up_def using len by (simp add: list_update_append)
  also have "?l ! n = l ! n" using n len assms(1) by (auto simp: nth_append)
  also have "drop (n - 80) l = l ! (n - 80) # drop (Suc (n - 80)) l" using n assms(1) by (simp add: Cons_nth_drop_Suc)
  also have "take (n - 80) (drop 80 l) @ (l ! (n - 80) # drop (Suc (n - 80)) l)[0 := l ! n] =
      (take (n - 80) (drop 80 l) @ [drop 80 l ! (n - 80)]) @ drop (Suc (n - 80)) l"
    using n assms(1) by simp
  also have "\<dots> = take (Suc (n - 80)) (drop 80 l) @ drop (Suc (n - 80)) l"
    using n assms(1) by (simp add: take_Suc_conv_app_nth)
  finally have "fold copy_up [80..<Suc n] l = take (Suc (n - 80)) (drop 80 l) @ drop (Suc (n - 80)) l" .
  moreover have "Suc n - 80 = Suc (n - 80)" using n by linarith
  ultimately show ?case by (simp only:)
qed simp

text \<open>A change of the display alone: the screen is changed by a list function, nothing else is.\<close>

definition display_op :: "(fb_state \<Rightarrow> fb_state) \<Rightarrow> (u8 list \<Rightarrow> u8 list) \<Rightarrow> bool" where
  "display_op f g \<longleftrightarrow> (\<forall>s. screen (f s) = g (screen s) \<and> outside_same s (f s) \<and> cursor_pos (f s) = cursor_pos s)"

lemma display_op_fold:
  assumes "\<And>x. x \<in> set xs \<Longrightarrow> display_op (f x) (g x)"
  shows "display_op (fold f xs) (fold g xs)"
  using assms
proof (induction xs)
  case (Cons x xs)
  then have "display_op (f x) (g x)" "display_op (fold f xs) (fold g xs)" by simp_all
  then show ?case unfolding display_op_def using outside_same_trans by fastforce
qed (simp add: display_op_def)

lemma display_op_comp: "display_op f g \<Longrightarrow> display_op f' g' \<Longrightarrow> display_op (\<lambda>s. f' (f s)) (\<lambda>l. g' (g l))"
  unfolding display_op_def using outside_same_trans by fastforce

lemma copy_cell_op:
  assumes "1 \<le> r" and "r < 25" and "c < 80"
  shows "display_op (\<lambda>s. write_at (read_cell s (of_nat r) (of_nat c)) (of_nat r - 1) (of_nat c) s) (copy_up (r * 80 + c))"
  unfolding display_op_def
proof
  fix s
  have k: "r * 80 + c < 2000" "r * 80 + c - 80 < 2000" using assms by simp_all
  have "write_at (read_cell s (of_nat r) (of_nat c)) (of_nat r - 1) (of_nat c) s =
      write_cell (cell_addr (r * 80 + c - 80)) (screen s ! (r * 80 + c)) s"
    using k(1) by (simp add: write_at_def read_cell_def cell_of_row_col cell_of_previous_row [OF assms(1)] screen_def)
  with write_cell_screen [OF k(2)]
  show "screen (write_at (read_cell s (of_nat r) (of_nat c)) (of_nat r - 1) (of_nat c) s) = copy_up (r * 80 + c) (screen s) \<and>
    outside_same s (write_at (read_cell s (of_nat r) (of_nat c)) (of_nat r - 1) (of_nat c) s) \<and>
    cursor_pos (write_at (read_cell s (of_nat r) (of_nat c)) (of_nat r - 1) (of_nat c) s) = cursor_pos s"
    by (simp add: copy_up_def)
qed

lemma write_at_op:
  assumes "r * 80 + c < 2000"
  shows "display_op (write_at b (of_nat r) (of_nat c)) (\<lambda>l. l[r * 80 + c := b])"
  using write_cell_screen [OF assms] by (simp add: display_op_def write_at_def cell_of_row_col)

lemma fold_rows: "fold (\<lambda>r. fold (\<lambda>c. h (r * 80 + c)) [0..<80]) [a..<a + n] = fold h [a * 80..<(a + n) * 80]"
proof (induction n)
  case (Suc n)
  have "fold (\<lambda>c. h ((a + n) * 80 + c)) [0..<80] = fold h (map (\<lambda>c. (a + n) * 80 + c) [0..<80])"
    by (simp add: fold_map comp_def)
  also have "map (\<lambda>c. (a + n) * 80 + c) [0..<80] = [(a + n) * 80..<(a + Suc n) * 80]"
    using map_add_upt [of "(a + n) * 80" 80] by (simp add: add.commute)
  finally have row: "fold (\<lambda>c. h ((a + n) * 80 + c)) [0..<80] = fold h [(a + n) * 80..<(a + Suc n) * 80]" .
  have "[a * 80..<(a + Suc n) * 80] = [a * 80..<(a + n) * 80] @ [(a + n) * 80..<(a + Suc n) * 80]"
    using upt_add_eq_append [of "a * 80" "(a + n) * 80" 80] by (simp add: add.commute)
  with Suc row show ?case by (simp add: fun_eq_iff)
qed simp

lemma fold_blank:
  "a + n \<le> length l \<Longrightarrow> fold (\<lambda>k l. l[k := b]) [a..<a + n] l = take a l @ replicate n b @ drop (a + n) l"
proof (induction n)
  case (Suc n)
  let ?l = "take a l @ replicate n b @ drop (a + n) l"
  have "fold (\<lambda>k l. l[k := b]) [a..<a + Suc n] l = ?l[a + n := b]" using Suc by simp
  also have "drop (a + n) l = l ! (a + n) # drop (a + Suc n) l" using Suc.prems by (simp add: Cons_nth_drop_Suc)
  finally show ?case using Suc.prems by (simp add: list_update_append replicate_append_same)
qed simp

lemma scroll_op: "display_op scroll (\<lambda>l. drop 80 l @ replicate 80 BLANK)"
proof -
  have "display_op (fold (\<lambda>r. fold (\<lambda>c s. write_at (read_cell s (of_nat r) (of_nat c)) (of_nat r - 1) (of_nat c) s) [0..<80]) [1..<25])
       (fold (\<lambda>r. fold (\<lambda>c. copy_up (r * 80 + c)) [0..<80]) [1..<25])"
    by (intro display_op_fold copy_cell_op) (simp_all only: set_upt atLeastLessThan_iff)
  moreover have "display_op (fold (\<lambda>c. write_at BLANK 24 (of_nat c)) [0..<80]) (fold (\<lambda>c l. l[24 * 80 + c := BLANK]) [0..<80])"
    using write_at_op [of 24 _ BLANK] by (intro display_op_fold) (simp only: set_upt atLeastLessThan_iff, simp)
  ultimately have "display_op (\<lambda>s. scroll s)
     (\<lambda>l. fold (\<lambda>c l. l[24 * 80 + c := BLANK]) [0..<80] (fold (\<lambda>r. fold (\<lambda>c. copy_up (r * 80 + c)) [0..<80]) [1..<25] l))"
    unfolding scroll_def Let_def by (rule display_op_comp)
  moreover have nums: "(1 :: nat) + 24 = 25" "(1 :: nat) * 80 = 80" "(25 :: nat) * 80 = 2000" "(2000 :: nat) - 80 = 1920"
      "(24 :: nat) * 80 = 1920" "(1920 :: nat) + 80 = 2000" "(80 :: nat) + 1920 = 2000" "(80 :: nat) \<le> 2000" "(2000 :: nat) - 1920 = 80"
    by simp_all
  moreover have "fold (\<lambda>c l. l[24 * 80 + c := BLANK]) [0..<80] (fold (\<lambda>r. fold (\<lambda>c. copy_up (r * 80 + c)) [0..<80]) [1..<25] l) =
      drop 80 l @ replicate 80 BLANK" if "length l = 2000" for l
  proof -
    have "fold (\<lambda>r. fold (\<lambda>c. copy_up (r * 80 + c)) [0..<80]) [1..<25] l = fold copy_up [80..<2000] l"
      using fun_cong [OF fold_rows [of copy_up 1 24], of l] by (simp only: nums)
    also have "\<dots> = take 1920 (drop 80 l) @ drop 1920 l" using fold_copy_up [OF that, of 2000] by (simp only: nums le_refl)
    also have "take 1920 (drop 80 l) = drop 80 l" using that by (intro take_all) (simp only: length_drop nums le_refl)
    finally have up: "fold (\<lambda>r. fold (\<lambda>c. copy_up (r * 80 + c)) [0..<80]) [1..<25] l = drop 80 l @ drop 1920 l" .
    have "fold (\<lambda>c l. l[24 * 80 + c := BLANK]) [0..<80] = fold (\<lambda>k l. l[k := BLANK]) (map (\<lambda>c. c + 1920) [0..<80])"
      by (simp only: fold_map comp_def nums add.commute)
    also have "map (\<lambda>c. c + 1920) [0..<80] = [1920..<1920 + 80]" using map_add_upt [of 1920 80] by (simp only: nums)
    finally have "fold (\<lambda>c l. l[24 * 80 + c := BLANK]) [0..<80] (drop 80 l @ drop 1920 l) =
        take 1920 (drop 80 l @ drop 1920 l) @ replicate 80 BLANK @ drop 2000 (drop 80 l @ drop 1920 l)"
      using fold_blank [of 1920 80 "drop 80 l @ drop 1920 l" BLANK] that by (simp only: length_append length_drop nums le_refl)
    also have "\<dots> = drop 80 l @ replicate 80 BLANK" using that by (simp only: take_append drop_append length_drop nums) simp
    finally show ?thesis unfolding up .
  qed
  ultimately show ?thesis unfolding display_op_def by (simp only: length_screen simp_thms)
qed

section \<open>Refinement\<close>

text \<open>The abstract terminal: 2000 characters in reading order and the position of the cursor.\<close>

definition term_wrap :: "u8 list \<times> nat \<Rightarrow> u8 list \<times> nat" where
  "term_wrap t = (case t of (l, p) \<Rightarrow> if p \<ge> 2000 then (drop 80 l @ replicate 80 BLANK, 1920) else (l, p))"

definition term_char :: "u8 \<Rightarrow> u8 list \<times> nat \<Rightarrow> u8 list \<times> nat" where
  "term_char b t = (case t of (l, p) \<Rightarrow> term_wrap (l[p := b], p + 1))"

definition term_put :: "u8 \<Rightarrow> u8 list \<times> nat \<Rightarrow> u8 list \<times> nat" where
  "term_put b t =
     (case t of (l, p) \<Rightarrow>
        if b = 10 then term_wrap (l, (p div 80 + 1) * 80)
        else if b = 8 then (l[p - 1 := BLANK], p - 1)
        else if b = 9 then (term_char BLANK ^^ 4) t
        else term_char b t)"

definition fb_abs :: "fb_state \<Rightarrow> u8 list \<times> nat" where
  "fb_abs s = (screen s, unat (cursor_pos s))"

definition fb_ok :: "fb_state \<Rightarrow> bool" where
  "fb_ok s \<longleftrightarrow> cursor_pos s < 2000"

text \<open>One step on the console against one on the terminal.\<close>

definition refines :: "fb_state \<Rightarrow> fb_state \<Rightarrow> u8 list \<times> nat \<Rightarrow> bool" where
  "refines s s' t \<longleftrightarrow> fb_ok s' \<and> fb_abs s' = t \<and> outside_same s s'"

lemma refines_trans:
  assumes "refines s s' t" and "refines s' s'' t'"
  shows "refines s s'' t'"
  using assms outside_same_trans unfolding refines_def by blast

lemma wrap_refines:
  assumes "outside_same s s'"
  shows "refines s (if cursor_pos s' \<ge> 2000 then fb_move_cursor 24 0 (scroll s') else s') (term_wrap (fb_abs s'))"
proof (cases "cursor_pos s' \<ge> 2000")
  case True
  then have "2000 \<le> unat (cursor_pos s')" by (simp add: word_le_nat_alt)
  moreover have "screen (scroll s') = drop 80 (screen s') @ replicate 80 BLANK" "outside_same s' (scroll s')"
    using scroll_op unfolding display_op_def by blast+
  moreover have "outside_same s (fb_move_cursor 24 0 (scroll s'))"
    using assms calculation(3) outside_same_trans unfolding fb_move_cursor_def by (meson move_cursor_fields(4))
  ultimately show ?thesis
    using True by (simp only: refines_def fb_ok_def fb_abs_def term_wrap_def if_True prod.case)
      (simp add: fb_move_cursor_def)
next
  case False
  then have "\<not> 2000 \<le> unat (cursor_pos s')" by (simp add: word_le_nat_alt)
  then show ?thesis
    using False assms by (simp only: refines_def fb_ok_def fb_abs_def term_wrap_def if_False prod.case) (simp add: not_le)
qed

lemma cursor_cell: "FB_MEMORY + 2 * ucast (cursor_pos s) = cell_addr (unat (cursor_pos s))"
  by (simp add: cell_addr_def)

lemma cursor_bound: "fb_ok s \<Longrightarrow> unat (cursor_pos s) < 2000"
  by (simp add: fb_ok_def word_less_nat_alt)

lemma put_char_refines:
  assumes "fb_ok s" and "b \<noteq> 10" and "b \<noteq> 9" and "b \<noteq> 8"
  shows "refines s (fb_put_b b s) (term_char b (fb_abs s))"
proof -
  note k = cursor_bound [OF assms(1)]
  let ?s = "move_cursor_forward (write_cell (cell_addr (unat (cursor_pos s))) b s)"
  have "unat (cursor_pos s + 1) = unat (cursor_pos s) + 1" using k by (subst unat_add_nowrap) simp_all
  then have abs: "fb_abs ?s = ((screen s)[unat (cursor_pos s) := b], unat (cursor_pos s) + 1)"
    using write_cell_screen(1) [OF k] by (simp add: fb_abs_def move_cursor_forward_def)
  have out: "outside_same s ?s"
    using write_cell_screen(2) [OF k] outside_same_trans unfolding move_cursor_forward_def by (meson move_cursor_fields(4))
  have "fb_put_b b s = (if cursor_pos ?s \<ge> 2000 then fb_move_cursor 24 0 (scroll ?s) else ?s)"
    using assms(2-4) by (subst fb_put_b.simps) (simp only: Let_def cursor_cell if_True if_False simp_thms)
  with wrap_refines [OF out] abs show ?thesis by (simp only: term_char_def fb_abs_def prod.case)
qed

lemma put_newline_refines:
  assumes "fb_ok s"
  shows "refines s (fb_put_b 10 s) (term_wrap (screen s, (unat (cursor_pos s) div 80 + 1) * 80))"
proof -
  note k = cursor_bound [OF assms]
  let ?c = "cursor_pos s" and ?s = "move_cursor_start (move_cursor_down s)"
  have u: "unat (?c + 80) = unat ?c + 80" using k by (subst unat_add_nowrap) simp_all
  have "unat ((?c + 80) - (?c + 80) mod 80) = unat (?c + 80) - unat (?c + 80) mod 80"
    by (subst unat_sub_nowrap) (simp_all add: unat_mod)
  also have "\<dots> = (unat ?c + 80) div 80 * 80" unfolding u by (rule minus_mod_eq_div_mult)
  also have "(unat ?c + 80) div 80 = unat ?c div 80 + 1" by simp
  finally have abs: "fb_abs ?s = (screen s, (unat ?c div 80 + 1) * 80)"
    by (simp add: fb_abs_def move_cursor_start_def move_cursor_down_def)
  have out: "outside_same s ?s"
    unfolding move_cursor_start_def move_cursor_down_def by (meson move_cursor_fields(4) outside_same_trans)
  have "fb_put_b 10 s = (if cursor_pos ?s \<ge> 2000 then fb_move_cursor 24 0 (scroll ?s) else ?s)"
    by (subst fb_put_b.simps) (simp only: Let_def if_True if_False simp_thms)
  with wrap_refines [OF out] abs show ?thesis by (simp only:)
qed

lemma put_backspace_refines:
  assumes "fb_ok s"
  shows "refines s (fb_put_b 8 s) ((screen s)[unat (cursor_pos s) - 1 := BLANK], unat (cursor_pos s) - 1)"
proof -
  note k = cursor_bound [OF assms]
  let ?b = "move_cursor_back s"
  have u: "unat (cursor_pos ?b) = unat (cursor_pos s) - 1"
    by (simp add: move_cursor_back_def unat_minus_one)
  have b: "screen ?b = screen s" "outside_same s ?b" by (simp_all add: move_cursor_back_def)
  have k': "unat (cursor_pos ?b) < 2000" using u k by simp
  let ?s = "write_cell (cell_addr (unat (cursor_pos ?b))) BLANK ?b"
  have "\<not> cursor_pos ?s \<ge> 2000" using k' by (simp add: word_le_nat_alt)
  moreover have "(8 :: u8) \<noteq> 10" by simp
  ultimately have "fb_put_b 8 s = ?s"
    by (subst fb_put_b.simps) (simp only: Let_def if_True if_False simp_thms cursor_cell)
  moreover have "fb_ok ?s" using k' by (simp add: fb_ok_def word_less_nat_alt)
  moreover have "fb_abs ?s = ((screen s)[unat (cursor_pos s) - 1 := BLANK], unat (cursor_pos s) - 1)"
    using write_cell_screen(1) [OF k'] by (simp add: fb_abs_def u b)
  ultimately show ?thesis
    using outside_same_trans [OF b(2) write_cell_screen(2) [OF k']] by (simp add: refines_def)
qed

lemma put_blanks_refine:
  "fb_ok s \<Longrightarrow> refines s ((fb_put_b 32 ^^ n) s) ((term_char BLANK ^^ n) (fb_abs s))"
proof (induction n)
  case 0
  then show ?case by (simp add: refines_def)
next
  case (Suc n)
  then have IH: "refines s ((fb_put_b 32 ^^ n) s) ((term_char BLANK ^^ n) (fb_abs s))" by blast
  then have "refines ((fb_put_b 32 ^^ n) s) (fb_put_b 32 ((fb_put_b 32 ^^ n) s)) (term_char 32 (fb_abs ((fb_put_b 32 ^^ n) s)))"
    by (intro put_char_refines) (simp_all add: refines_def)
  with IH show ?case using refines_trans [OF IH] by (simp add: refines_def)
qed

lemma put_tab_refines:
  assumes "fb_ok s"
  shows "refines s (fb_put_b 9 s) ((term_char BLANK ^^ 4) (fb_abs s))"
proof -
  let ?s = "(fb_put_b 32 ^^ 4) s"
  have r: "refines s ?s ((term_char BLANK ^^ 4) (fb_abs s))" by (rule put_blanks_refine [OF assms])
  then have "\<not> cursor_pos ?s \<ge> 2000" by (simp add: refines_def fb_ok_def not_le)
  moreover have "(9 :: u8) \<noteq> 10" "(9 :: u8) \<noteq> 8" by simp_all
  moreover have "?s = fb_put_b 32 (fb_put_b 32 (fb_put_b 32 (fb_put_b 32 s)))" by (simp add: numeral_eq_Suc)
  ultimately have "fb_put_b 9 s = ?s"
    by (subst fb_put_b.simps) (simp only: Let_def if_True if_False simp_thms)
  with r show ?thesis by simp
qed

lemma fb_put_b_refines:
  assumes "fb_ok s"
  shows "refines s (fb_put_b b s) (term_put b (fb_abs s))"
proof -
  consider "b = 10" | "b = 8" | "b = 9" | "b \<noteq> 10" "b \<noteq> 8" "b \<noteq> 9" by blast
  then show ?thesis
  proof cases
    case 1
    then show ?thesis using put_newline_refines [OF assms] by (simp add: term_put_def fb_abs_def)
  next
    case 2
    then show ?thesis using put_backspace_refines [OF assms] by (simp add: term_put_def fb_abs_def)
  next
    case 3
    then show ?thesis using put_tab_refines [OF assms] by (simp add: term_put_def fb_abs_def)
  next
    case 4
    then show ?thesis using put_char_refines [OF assms] by (simp add: term_put_def fb_abs_def)
  qed
qed

lemma fb_put_list_refines:
  "fb_ok s \<Longrightarrow> refines s (fold fb_put_b bs s) (fold term_put bs (fb_abs s))"
proof (induction bs arbitrary: s)
  case Nil
  then show ?case by (simp add: refines_def)
next
  case (Cons b bs)
  have r: "refines s (fb_put_b b s) (term_put b (fb_abs s))" by (rule fb_put_b_refines [OF Cons.prems])
  then have "fb_ok (fb_put_b b s)" "fb_abs (fb_put_b b s) = term_put b (fb_abs s)" by (simp_all add: refines_def)
  with Cons.IH [of "fb_put_b b s"] refines_trans [OF r] show ?case by simp
qed

lemma fb_clear_refines: "refines s (fb_clear s) (replicate 2000 BLANK, 0)"
proof -
  have "display_op (fold (\<lambda>i. fold (\<lambda>j. write_at BLANK (of_nat i) (of_nat j)) [0..<80]) [0..<25])
      (fold (\<lambda>i. fold (\<lambda>j l. l[i * 80 + j := BLANK]) [0..<80]) [0..<25])"
    by (intro display_op_fold write_at_op) (simp only: set_upt atLeastLessThan_iff, linarith)
  moreover have "fold (\<lambda>i. fold (\<lambda>j l. l[i * 80 + j := BLANK]) [0..<80]) [0..<25] l = replicate 2000 BLANK"
    if "length l = 2000" for l :: "u8 list"
  proof -
    have "fold (\<lambda>i. fold (\<lambda>j l. l[i * 80 + j := BLANK]) [0..<80]) [0..<0 + 25] l =
        fold (\<lambda>k l. l[k := BLANK]) [0 * 80..<(0 + 25) * 80] l"
      using fun_cong [OF fold_rows [of "\<lambda>k l. l[k := BLANK]" 0 25], of l] by (simp only:)
    moreover have "fold (\<lambda>k l. l[k := BLANK]) [0..<0 + 2000] l = replicate 2000 BLANK"
      using fold_blank [of 0 2000 l BLANK] that by (simp only: add_0 le_refl take_0 append.simps drop_all append_Nil2)
    moreover have "(0 :: nat) * 80 = 0" "((0 :: nat) + 25) * 80 = 0 + 2000" "(0 :: nat) + 25 = 25" by simp_all
    ultimately show ?thesis by (simp only:)
  qed
  ultimately have d: "screen (fold (\<lambda>i. fold (\<lambda>j. write_at BLANK (of_nat i) (of_nat j)) [0..<80]) [0..<25] s) = replicate 2000 BLANK"
    "outside_same s (fold (\<lambda>i. fold (\<lambda>j. write_at BLANK (of_nat i) (of_nat j)) [0..<80]) [0..<25] s)"
    unfolding display_op_def by (simp_all only: length_screen simp_thms)
  then have "fb_clear s = move_cursor_to 0 (fold (\<lambda>i. fold (\<lambda>j. write_at BLANK (of_nat i) (of_nat j)) [0..<80]) [0..<25] s)"
    by (simp only: fb_clear_def fb_move_cursor_def mult_zero_left add_0)
  with d show ?thesis
    unfolding refines_def fb_ok_def fb_abs_def
    by (simp only: move_cursor_fields unat_0 outside_same_trans [OF d(2) move_cursor_fields(4)]) simp
qed

section \<open>Properties\<close>



text \<open>\<open>printf\<close> always returns for a format string made of literal text and directives with the right arguments, and
  the terminal shows the text.\<close>

lemma printf_on_screen:
  assumes "cursor_pos s < 2000" and "\<forall>p\<in>set ps. piece_ok p"
  shows "\<exists>s'. printf (concat (map piece_format ps)) (concat (map piece_args ps)) s = Some s' \<and>
     fb_abs s' = fold term_put (concat (map piece_bytes ps)) (fb_abs s) \<and> cursor_pos s' < 2000"
proof -
  have "printf_bytes (concat (map piece_format ps)) (concat (map piece_args ps)) = Some (concat (map piece_bytes ps))"
    unfolding printf_bytes_def by (rule vprintf_pieces [OF _ assms(2)]) simp
  moreover have "refines s (fold fb_put_b bs s) (fold term_put bs (fb_abs s))" for bs
    by (rule fb_put_list_refines) (simp add: fb_ok_def assms(1))
  ultimately show ?thesis by (auto simp: printf_def refines_def fb_ok_def)
qed

end
