(* ===== verification/Log.thy ===== *)
theory Log
  imports Io Format
begin

text \<open>
  The kernel log (\<open>log.c\<close>): formatted output on the first serial port. Every byte goes through
  \<open>serial_write\<close>, which waits for the device, so the functions return an option.
\<close>

fun log_write :: "u8 list \<Rightarrow> io \<Rightarrow> io option" where
  "log_write [] s = Some s"
| "log_write (b # bs) s = Option.bind (serial_write COM1 b s) (log_write bs)"

definition log_ui :: "u32 \<Rightarrow> io \<Rightarrow> io option" where
  "log_ui i s = Option.bind (log_ui_bytes i) (\<lambda>bs. log_write bs s)"

definition log_hex :: "u32 \<Rightarrow> io \<Rightarrow> io option" where
  "log_hex i s = Option.bind (log_hex_bytes i) (\<lambda>bs. log_write bs s)"

definition log_vprintf :: "u8 list \<Rightarrow> va list \<Rightarrow> io \<Rightarrow> io option" where
  "log_vprintf fmt args s = Option.bind (log_vprintf_bytes fmt args) (\<lambda>bs. log_write bs s)"

definition log_printf :: "u8 list \<Rightarrow> va list \<Rightarrow> io \<Rightarrow> io option" where
  "log_printf fmt args s = log_vprintf fmt args s"

text \<open>The prefixes \<open>DEBUG: %s: \<close>, \<open>INFO: %s: \<close> and \<open>ERROR: %s: \<close>.\<close>

definition percent_s :: "u8 list" where "percent_s = [37, 115, 58, 32]"

definition log_debug :: "u8 list \<Rightarrow> u8 list \<Rightarrow> va list \<Rightarrow> io \<Rightarrow> io option" where
  "log_debug fname fmt args s =
     Option.bind (log_printf ([68, 69, 66, 85, 71, 58, 32] @ percent_s) [Str fname] s) (log_vprintf fmt args)"

definition log_info :: "u8 list \<Rightarrow> u8 list \<Rightarrow> va list \<Rightarrow> io \<Rightarrow> io option" where
  "log_info fname fmt args s =
     Option.bind (log_printf ([73, 78, 70, 79, 58, 32] @ percent_s) [Str fname] s) (log_vprintf fmt args)"

definition log_error :: "u8 list \<Rightarrow> u8 list \<Rightarrow> va list \<Rightarrow> io \<Rightarrow> io option" where
  "log_error fname fmt args s =
     Option.bind (log_printf ([69, 82, 82, 79, 82, 58, 32] @ percent_s) [Str fname] s) (log_vprintf fmt args)"

text \<open>The serial ports' interrupt handlers log a line and acknowledge.\<close>

definition serial_handle_interrupt :: "u8 list \<Rightarrow> u8 list \<Rightarrow> io \<Rightarrow> io option" where
  "serial_handle_interrupt fname msg s = map_option pic_acknowledge (log_info fname msg [] s)"

section \<open>What arrives at the port\<close>

definition line_ready :: "io \<Rightarrow> bool" where
  "line_ready s \<longleftrightarrow> always_ready (COM1 + 5) 0x20 s"

lemma log_write_returns:
  "line_ready s \<Longrightarrow> \<exists>s'. log_write bs s = Some s' \<and> io_out s' = io_out s @ map (Pair COM1) bs \<and> line_ready s'"
proof (induction bs arbitrary: s)
  case (Cons b bs)
  from Cons.prems obtain s1 where s1: "serial_write COM1 b s = Some s1" "io_out s1 = io_out s @ [(COM1, b)]" "io_in s1 = io_in s"
    unfolding line_ready_def by (rule serial_write_returns)
  then have "line_ready s1" using Cons.prems by (simp add: line_ready_def always_ready_def)
  from Cons.IH [OF this] s1 show ?case by auto
qed auto

lemma log_line:
  assumes "line_ready s" and lvl: "37 \<notin> set lvl" and ps: "\<forall>p\<in>set ps. piece_ok p"
  shows "\<exists>s'. Option.bind (log_printf (lvl @ percent_s) [Str fname] s)
             (log_vprintf (concat (map piece_format ps)) (concat (map piece_args ps))) = Some s' \<and>
           io_out s' = io_out s @ map (Pair COM1) (lvl @ fname @ [58, 32] @ concat (map piece_bytes ps))"
proof -
  have "log_vprintf_bytes (lvl @ percent_s) [Str fname] = Some (lvl @ fname @ [58, 32])"
    using vprintf_pieces [of log_hex_bytes "[Lit lvl, Text fname, Lit [58, 32]]"] lvl
    by (simp add: log_vprintf_bytes_def log_hex_bytes_eq percent_s_def)
  moreover from log_write_returns [OF assms(1), of "lvl @ fname @ [58, 32]"] obtain s1 where
    s1: "log_write (lvl @ fname @ [58, 32]) s = Some s1" "io_out s1 = io_out s @ map (Pair COM1) (lvl @ fname @ [58, 32])" "line_ready s1"
    by blast
  moreover have "log_vprintf_bytes (concat (map piece_format ps)) (concat (map piece_args ps)) = Some (concat (map piece_bytes ps))"
    unfolding log_vprintf_bytes_def by (rule vprintf_pieces [OF _ ps]) (rule log_hex_bytes_eq)
  moreover from log_write_returns [OF s1(3), of "concat (map piece_bytes ps)"] obtain s2 where
    "log_write (concat (map piece_bytes ps)) s1 = Some s2" "io_out s2 = io_out s1 @ map (Pair COM1) (concat (map piece_bytes ps))"
    by blast
  ultimately show ?thesis by (simp add: log_printf_def log_vprintf_def)
qed

section \<open>Properties\<close>

text \<open>A log call puts its whole line on the serial port and returns, as long as the line keeps getting
  ready: the level, the name of the function, a colon, then the formatted message, each byte
  once and in order.\<close>

lemma log_info_correct:
  assumes "\<forall>n. \<exists>k. io_in s (COM1 + 5) (n + k) AND 0x20 \<noteq> 0" and "\<forall>p\<in>set ps. piece_ok p"
  shows "\<exists>s'. log_info fname (concat (map piece_format ps)) (concat (map piece_args ps)) s = Some s' \<and>
     io_out s' = io_out s @ map (Pair COM1) ([73, 78, 70, 79, 58, 32] @ fname @ [58, 32] @ concat (map piece_bytes ps))"
  unfolding log_info_def
  by (rule log_line [OF _ _ assms(2)]) (use assms(1) in \<open>simp_all add: line_ready_def always_ready_def\<close>)

end
