(* ===== verification/Queue_Interface.thy ===== *)
theory Queue_Interface
  imports Prelude
begin

text \<open>
  First-in first-out queues as the kernel uses them: an interface over the list of waiting
  items, and the order in which items come out of any mixed sequence of insertions and removals.
\<close>

datatype 'a qop = Put 'a | Take

fun run_ops :: "('a \<Rightarrow> 's \<Rightarrow> 's) \<Rightarrow> ('s \<Rightarrow> 's \<times> 'a) \<Rightarrow> 'a qop list \<Rightarrow> 's \<Rightarrow> 's \<times> 'a list" where
  "run_ops put get [] s = (s, [])"
| "run_ops put get (Put x # ops) s = run_ops put get ops (put x s)"
| "run_ops put get (Take # ops) s =
     (let (s', y) = get s; (s'', ys) = run_ops put get ops s' in (s'', y # ys))"

text \<open>Insertions find room, removals find an item.\<close>

fun legal_ops :: "('s \<Rightarrow> 'a list) \<Rightarrow> ('s \<Rightarrow> bool) \<Rightarrow> ('a \<Rightarrow> 's \<Rightarrow> 's) \<Rightarrow> ('s \<Rightarrow> 's \<times> 'a) \<Rightarrow> 'a qop list \<Rightarrow> 's \<Rightarrow> bool" where
  "legal_ops items room put get [] s = True"
| "legal_ops items room put get (Put x # ops) s = (room s \<and> legal_ops items room put get ops (put x s))"
| "legal_ops items room put get (Take # ops) s =
     (items s \<noteq> [] \<and> legal_ops items room put get ops (fst (get s)))"

fun puts :: "'a qop list \<Rightarrow> 'a list" where
  "puts [] = []"
| "puts (Put x # ops) = x # puts ops"
| "puts (Take # ops) = puts ops"

locale fifo =
  fixes valid :: "'s \<Rightarrow> bool"
    and items :: "'s \<Rightarrow> 'a list"
    and room :: "'s \<Rightarrow> bool"
    and put :: "'a \<Rightarrow> 's \<Rightarrow> 's"
    and get :: "'s \<Rightarrow> 's \<times> 'a"
  assumes put_valid: "valid s \<Longrightarrow> room s \<Longrightarrow> valid (put x s)"
    and put_items: "valid s \<Longrightarrow> room s \<Longrightarrow> items (put x s) = items s @ [x]"
    and get_valid: "valid s \<Longrightarrow> items s = x # xs \<Longrightarrow> valid (fst (get s))"
    and get_items: "valid s \<Longrightarrow> items s = x # xs \<Longrightarrow> items (fst (get s)) = xs"
    and get_result: "valid s \<Longrightarrow> items s = x # xs \<Longrightarrow> snd (get s) = x"
begin

lemma run_ops_order:
  assumes "valid s" and "legal_ops items room put get ops s"
  shows "snd (run_ops put get ops s) @ items (fst (run_ops put get ops s)) = items s @ puts ops \<and>
         valid (fst (run_ops put get ops s))"
  using assms
proof (induction ops arbitrary: s)
  case (Cons op ops)
  show ?case
  proof (cases op)
    case (Put x)
    then have "room s" "legal_ops items room put get ops (put x s)" using Cons.prems(2) by simp_all
    with Cons.IH [OF put_valid] put_items Cons.prems(1) Put show ?thesis by simp
  next
    case Take
    then obtain y ys where i: "items s = y # ys" using Cons.prems(2) by (cases "items s") auto
    have "legal_ops items room put get ops (fst (get s))" using Cons.prems(2) Take by simp
    with Cons.IH [OF get_valid [OF Cons.prems(1) i]] get_items [OF Cons.prems(1) i] get_result [OF Cons.prems(1) i]
    show ?thesis by (simp add: Take i split_beta)
  qed
qed simp

text \<open>Nothing overtakes: what comes out is a prefix of what was in and went in.\<close>

lemma outputs_prefix:
  assumes "valid s" and "legal_ops items room put get ops s"
  shows "snd (run_ops put get ops s) = take (length (snd (run_ops put get ops s))) (items s @ puts ops)"
  using run_ops_order [OF assms] by (metis append_eq_conv_conj)

end

end
