(* ===== verification/Keyboard.thy ===== *)
theory Keyboard
  imports Cmem Io Queue_Interface
begin

text \<open>
  The keyboard driver (\<open>keyboard.c\<close>). The interrupt handler stores scan codes in a ring of 512
  bytes; \<open>kbd_read\<close> takes them out, turns them into characters and waits until it has enough. The
  two run interleaved, so the reader is a step relation with the interrupt as a step that may happen at any
  point. Pointers into the ring are offsets from its start; characters are bytes, with \<open>0xFF\<close> for
  the value \<open>-1\<close> that stands for no character.
\<close>

section \<open>State\<close>

abbreviation (input) KBD_BUFFER_SIZE :: u32 where "KBD_BUFFER_SIZE \<equiv> 512"
abbreviation (input) KBD_SC_LSHIFT :: u8 where "KBD_SC_LSHIFT \<equiv> 0x2a"
abbreviation (input) KBD_SC_RSHIFT :: u8 where "KBD_SC_RSHIFT \<equiv> 0x36"
abbreviation (input) KBD_SC_CAPSLOCK :: u8 where "KBD_SC_CAPSLOCK \<equiv> 0x3a"
abbreviation (input) NO_CHAR :: u8 where "NO_CHAR \<equiv> 0xFF"

record kbd_mods =
  is_lshift_down :: u8
  is_rshift_down :: u8
  is_caps_lock_pressed :: u8

record kbd_buffer =
  kb_buffer :: "u32 \<Rightarrow> u8"
  kb_head :: u32
  kb_tail :: u32
  kb_count :: u32

section \<open>Interrupts\<close>

definition kbd_read_scan_code :: "io \<Rightarrow> io \<times> u8" where
  "kbd_read_scan_code s = inb 0x60 s"

text \<open>\<open>*kbd_buffer.tail++ = ...; ++kbd_buffer.count\<close> and the wrap-around.\<close>

definition kbd_store :: "u8 \<Rightarrow> kbd_buffer \<Rightarrow> kbd_buffer" where
  "kbd_store sc k =
     (let k = k\<lparr>kb_buffer := (kb_buffer k)(kb_tail k := sc), kb_tail := kb_tail k + 1, kb_count := kb_count k + 1\<rparr>
      in if kb_tail k = KBD_BUFFER_SIZE then k\<lparr>kb_tail := 0\<rparr> else k)"

definition keyboard_handle_interrupt :: "kbd_buffer \<times> io \<Rightarrow> kbd_buffer \<times> io" where
  "keyboard_handle_interrupt ki =
     (let (k, s) = ki;
          (k, s) = (if kb_count k < KBD_BUFFER_SIZE
                    then let (s, sc) = kbd_read_scan_code s in (kbd_store sc k, s) else (k, s))
      in (k, pic_acknowledge s))"

definition kbd_init :: "kbd_buffer \<Rightarrow> kbd_buffer" where
  "kbd_init k = k\<lparr>kb_count := 0, kb_head := 0, kb_tail := 0\<rparr>"

section \<open>Characters\<close>

definition toggle_left_shift :: "kbd_mods \<Rightarrow> kbd_mods" where
  "toggle_left_shift m = m\<lparr>is_lshift_down := (if is_lshift_down m \<noteq> 0 then 0 else 1)\<rparr>"

definition toggle_right_shift :: "kbd_mods \<Rightarrow> kbd_mods" where
  "toggle_right_shift m = m\<lparr>is_rshift_down := (if is_rshift_down m \<noteq> 0 then 0 else 1)\<rparr>"

definition toggle_caps_lock :: "kbd_mods \<Rightarrow> kbd_mods" where
  "toggle_caps_lock m = m\<lparr>is_caps_lock_pressed := (if is_caps_lock_pressed m \<noteq> 0 then 0 else 1)\<rparr>"

definition handle_caps_lock :: "u8 \<Rightarrow> u8" where
  "handle_caps_lock ch = (if 97 \<le> ch \<and> ch \<le> 122 then ch + 65 - 97 else ch)"

text \<open>The two switches of \<open>handle_shift\<close>.\<close>

definition shift_table :: "(u8 \<times> u8) list" where
  "shift_table =
     [(48, 41), (49, 33), (50, 64), (51, 35), (52, 36), (53, 37), (54, 94), (55, 38), (56, 42), (57, 40),
      (45, 95), (61, 43), (91, 123), (93, 125), (92, 124), (59, 58), (39, 34), (44, 60), (46, 62), (47, 63), (96, 126)]"

definition handle_shift :: "u8 \<Rightarrow> u8" where
  "handle_shift ch =
     (if 97 \<le> ch \<and> ch \<le> 122 then ch + 65 - 97
      else case map_of shift_table ch of Some c \<Rightarrow> c | None \<Rightarrow> ch)"

text \<open>The cases of the second switch of \<open>kbd_scan_code_to_ascii\<close> that set a character.\<close>

definition scan_code_table :: "(u8 \<times> u8) list" where
  "scan_code_table =
     [(0x1e, 97), (0x30, 98), (0x2e, 99), (0x20, 100), (0x12, 101), (0x21, 102), (0x22, 103), (0x23, 104),
      (0x17, 105), (0x24, 106), (0x25, 107), (0x26, 108), (0x32, 109), (0x31, 110), (0x18, 111), (0x19, 112),
      (0x10, 113), (0x13, 114), (0x1f, 115), (0x14, 116), (0x16, 117), (0x2f, 118), (0x11, 119), (0x2d, 120),
      (0x15, 121), (0x2c, 122), (0x0b, 48), (0x02, 49), (0x03, 50), (0x04, 51), (0x05, 52), (0x06, 53),
      (0x07, 54), (0x08, 55), (0x09, 56), (0x0a, 57), (0x1c, 10), (0x39, 32), (0x0e, 8), (0x0c, 45),
      (0x0d, 61), (0x1a, 91), (0x1b, 93), (0x2b, 92), (0x27, 59), (0x28, 39), (0x33, 44), (0x34, 46),
      (0x35, 47), (0x29, 96), (0x0f, 9)]"

definition apply_mods :: "kbd_mods \<Rightarrow> u8 \<Rightarrow> u8" where
  "apply_mods m ch =
     (let ch = (if is_caps_lock_pressed m \<noteq> 0 then handle_caps_lock ch else ch)
      in if is_lshift_down m \<noteq> 0 \<or> is_rshift_down m \<noteq> 0 then handle_shift ch else ch)"

definition kbd_scan_code_to_ascii :: "u8 \<Rightarrow> kbd_mods \<Rightarrow> kbd_mods \<times> u8" where
  "kbd_scan_code_to_ascii scan_code m =
     (if scan_code AND 0x80 \<noteq> 0 then
        (let scan_code = scan_code AND 0x7F
         in if scan_code = KBD_SC_LSHIFT then (toggle_left_shift m, NO_CHAR)
            else if scan_code = KBD_SC_RSHIFT then (toggle_right_shift m, NO_CHAR)
            else if scan_code = KBD_SC_CAPSLOCK then (toggle_caps_lock m, NO_CHAR)
            else (m, NO_CHAR))
      else case map_of scan_code_table scan_code of
             Some ch \<Rightarrow> (m, apply_mods m ch)
           | None \<Rightarrow>
               if scan_code = KBD_SC_LSHIFT then (let m = toggle_left_shift m in (m, apply_mods m NO_CHAR))
               else if scan_code = KBD_SC_RSHIFT then (let m = toggle_right_shift m in (m, apply_mods m NO_CHAR))
               else (m, NO_CHAR))"

section \<open>Reading\<close>

text \<open>\<open>*kbd_buffer.head++\<close> and the wrap-around.\<close>

definition kbd_next :: "kbd_buffer \<Rightarrow> kbd_buffer \<times> u8" where
  "kbd_next k =
     (let sc = kb_buffer k (kb_head k);
          k = k\<lparr>kb_head := kb_head k + 1\<rparr>
      in (if kb_head k = KBD_BUFFER_SIZE then k\<lparr>kb_head := 0\<rparr> else k, sc))"

text \<open>The reader is at the test of the outer or of the inner loop, or has returned.\<close>

datatype reader_pc = Outer | Inner | Returned

record reader =
  r_pc :: reader_pc
  r_kbd :: kbd_buffer
  r_mods :: kbd_mods
  r_mem :: mem
  r_i :: u32
  r_count :: u32

text \<open>One iteration of the inner loop; \<open>buf\<close> is the caller's buffer.\<close>

definition reader_take :: "u32 \<Rightarrow> reader \<Rightarrow> reader" where
  "reader_take buf r =
     (let (k, sc) = kbd_next (r_kbd r);
          (m, ch) = kbd_scan_code_to_ascii sc (r_mods r);
          r = r\<lparr>r_kbd := k, r_mods := m\<rparr>
      in if ch \<noteq> NO_CHAR
         then r\<lparr>r_mem := (r_mem r)(buf + r_i r := ch), r_i := r_i r + 1, r_count := r_count r - 1\<rparr> else r)"

text \<open>\<open>reader_interrupt\<close> is what an interrupt during the read does to the ring; the label of a step is the scan code that
  arrives in it, if any.\<close>

definition reader_interrupt :: "u8 \<Rightarrow> reader \<Rightarrow> reader" where
  "reader_interrupt sc r =
     r\<lparr>r_kbd := (if kb_count (r_kbd r) < KBD_BUFFER_SIZE then kbd_store sc (r_kbd r) else r_kbd r)\<rparr>"

inductive reader_step :: "u32 \<Rightarrow> reader \<Rightarrow> u8 list \<Rightarrow> reader \<Rightarrow> bool" for buf where
  enter: "r_pc r = Outer \<Longrightarrow> r_count r > 0 \<Longrightarrow> reader_step buf r [] (r\<lparr>r_pc := Inner\<rparr>)"
| return: "r_pc r = Outer \<Longrightarrow> \<not> r_count r > 0 \<Longrightarrow> reader_step buf r [] (r\<lparr>r_pc := Returned\<rparr>)"
| take: "r_pc r = Inner \<Longrightarrow> kb_head (r_kbd r) \<noteq> kb_tail (r_kbd r) \<Longrightarrow> reader_step buf r [] (reader_take buf r)"
| leave: "r_pc r = Inner \<Longrightarrow> kb_head (r_kbd r) = kb_tail (r_kbd r) \<Longrightarrow> reader_step buf r [] (r\<lparr>r_pc := Outer\<rparr>)"
| interrupt: "reader_step buf r [sc] (reader_interrupt sc r)"

inductive reader_steps :: "u32 \<Rightarrow> reader \<Rightarrow> u8 list \<Rightarrow> reader \<Rightarrow> bool" for buf where
  idle: "reader_steps buf r [] r"
| more: "reader_steps buf r xs r' \<Longrightarrow> reader_step buf r' ys r'' \<Longrightarrow> reader_steps buf r (xs @ ys) r''"

text \<open>\<open>kbd_read\<close> starts with nothing stored.\<close>

definition kbd_read_start :: "kbd_buffer \<Rightarrow> kbd_mods \<Rightarrow> mem \<Rightarrow> u32 \<Rightarrow> reader" where
  "kbd_read_start k m mm count =
     \<lparr>r_pc = Outer, r_kbd = k, r_mods = m, r_mem = mm, r_i = 0, r_count = count\<rparr>"

text \<open>The other device operations.\<close>

definition kbd_open :: int where "kbd_open = 0"
definition kbd_lookup :: int where "kbd_lookup = - 1"
definition kbd_write :: int where "kbd_write = - 1"
definition kbd_getattr :: int where "kbd_getattr = - 1"

inductive_cases reader_stepE: "reader_step buf r xs r'"

section \<open>The ring is a queue for the first 511 scan codes\<close>

definition kbd_valid :: "kbd_buffer \<Rightarrow> bool" where
  "kbd_valid k \<longleftrightarrow> kb_head k \<le> kb_tail k \<and> kb_tail k = kb_count k \<and> kb_count k < 512"

definition kbd_items :: "kbd_buffer \<Rightarrow> u8 list" where
  "kbd_items k = map (\<lambda>j. kb_buffer k (of_nat j)) [unat (kb_head k)..<unat (kb_tail k)]"

lemma kbd_items_empty: "kbd_valid k \<Longrightarrow> kb_head k = kb_tail k \<longleftrightarrow> kbd_items k = []"
  by (auto simp: kbd_valid_def kbd_items_def word_le_nat_alt word_unat_eq_iff)

lemma kbd_store_queue:
  assumes "kbd_valid k" and "kb_count k < 511"
  shows "kbd_valid (kbd_store sc k)" and "kbd_items (kbd_store sc k) = kbd_items k @ [sc]"
    and "unat (kb_count (kbd_store sc k)) = Suc (unat (kb_count k))"
proof -
  have v: "unat (kb_head k) \<le> unat (kb_tail k)" "kb_tail k = kb_count k" "unat (kb_tail k) < 511"
    using assms by (auto simp: kbd_valid_def word_le_nat_alt word_less_nat_alt)
  have u: "unat (kb_tail k + 1) = Suc (unat (kb_tail k))" using v(3) by (subst unat_add_nowrap) simp_all
  have ne: "kb_tail k + 1 \<noteq> 512" using u v(3) by (auto simp: word_unat_eq_iff)
  have st: "kbd_store sc k = k\<lparr>kb_buffer := (kb_buffer k)(kb_tail k := sc), kb_tail := kb_tail k + 1, kb_count := kb_count k + 1\<rparr>"
    using ne by (simp add: kbd_store_def Let_def)
  show "unat (kb_count (kbd_store sc k)) = Suc (unat (kb_count k))" using u v(2) by (simp add: st)
  show "kbd_valid (kbd_store sc k)" using u v by (simp add: st kbd_valid_def word_le_nat_alt word_less_nat_alt)
  have "(of_nat j :: u32) \<noteq> kb_tail k" if "j < unat (kb_tail k)" for j
    using that v(3) by (auto simp: word_unat_eq_iff unat_of_nat_small)
  then show "kbd_items (kbd_store sc k) = kbd_items k @ [sc]"
    using v(1) u by (simp add: st kbd_items_def upt_Suc)
qed

lemma kbd_next_queue:
  assumes "kbd_valid k" and "kbd_items k = x # xs"
  shows "kbd_valid (fst (kbd_next k))" and "kbd_items (fst (kbd_next k)) = xs" and "snd (kbd_next k) = x"
    and "kb_count (fst (kbd_next k)) = kb_count k"
proof -
  have ht: "kb_head k \<noteq> kb_tail k" using kbd_items_empty [OF assms(1)] assms(2) by simp
  have v: "unat (kb_head k) < unat (kb_tail k)" "kb_tail k = kb_count k" "unat (kb_tail k) < 512"
    using assms(1) ht by (auto simp: kbd_valid_def word_le_nat_alt word_less_nat_alt word_unat_eq_iff)
  have u: "unat (kb_head k + 1) = Suc (unat (kb_head k))" using v by (subst unat_add_nowrap) simp_all
  have ne: "kb_head k + 1 \<noteq> 512" using u v by (auto simp: word_unat_eq_iff)
  have nx: "kbd_next k = (k\<lparr>kb_head := kb_head k + 1\<rparr>, kb_buffer k (kb_head k))"
    using ne by (simp add: kbd_next_def Let_def)
  show "kbd_valid (fst (kbd_next k))" using u v by (simp add: nx kbd_valid_def word_le_nat_alt word_less_nat_alt)
  show "kb_count (fst (kbd_next k)) = kb_count k" by (simp add: nx)
  have "kbd_items k = kb_buffer k (kb_head k) # kbd_items (fst (kbd_next k))"
    using v(1) u by (simp add: kbd_items_def nx upt_conv_Cons)
  with assms(2) show "kbd_items (fst (kbd_next k)) = xs" "snd (kbd_next k) = x" by (simp_all add: nx)
qed

interpretation kbdq: fifo kbd_valid kbd_items "\<lambda>k. kb_count k < 511" kbd_store kbd_next
  by unfold_locales (use kbd_store_queue kbd_next_queue in blast)+

section \<open>What the reader has done\<close>

fun kbd_decode :: "u8 list \<Rightarrow> kbd_mods \<Rightarrow> kbd_mods \<times> u8 list" where
  "kbd_decode [] m = (m, [])"
| "kbd_decode (sc # scs) m =
     (let (m, ch) = kbd_scan_code_to_ascii sc m; (m, chs) = kbd_decode scs m
      in (m, if ch \<noteq> NO_CHAR then ch # chs else chs))"

lemma kbd_decode_snoc:
  "kbd_decode (scs @ [sc]) m =
     (let (m, chs) = kbd_decode scs m; (m, ch) = kbd_scan_code_to_ascii sc m
      in (m, if ch \<noteq> NO_CHAR then chs @ [ch] else chs))"
  by (induction scs arbitrary: m) (auto simp: split_beta Let_def)

lemma kbd_decode_length: "length (snd (kbd_decode scs m)) \<le> length scs"
  by (induction scs arbitrary: m) (auto simp: split_beta Let_def le_SucI)

text \<open>Bytes stored one after the other.\<close>

definition put_bytes :: "mem \<Rightarrow> u32 \<Rightarrow> u8 list \<Rightarrow> mem" where
  "put_bytes mm buf bs = fold (\<lambda>(j, b) m. m(buf + of_nat j := b)) (enumerate 0 bs) mm"

lemma put_bytes_snoc: "put_bytes mm buf (bs @ [b]) = (put_bytes mm buf bs)(buf + of_nat (length bs) := b)"
  by (simp add: put_bytes_def enumerate_append_eq)

lemma put_bytes_Nil [simp]: "put_bytes mm buf [] = mm"
  by (simp add: put_bytes_def)

definition reader_inv :: "u32 \<Rightarrow> reader \<Rightarrow> u8 list \<Rightarrow> reader \<Rightarrow> bool" where
  "reader_inv buf r0 arrived r \<longleftrightarrow>
     kbd_valid (r_kbd r) \<and> unat (kb_count (r_kbd r)) = unat (kb_count (r_kbd r0)) + length arrived \<and>
     (r_pc r = Returned \<longrightarrow> r_count r = 0) \<and>
     (\<exists>taken chs. taken @ kbd_items (r_kbd r) = kbd_items (r_kbd r0) @ arrived \<and>
        kbd_decode taken (r_mods r0) = (r_mods r, chs) \<and> r_i r = of_nat (length chs) \<and>
        r_count r = r_count r0 - of_nat (length chs) \<and> r_mem r = put_bytes (r_mem r0) buf chs)"

lemma reader_inv_take:
  assumes inv: "reader_inv buf r0 arrived r" and pc: "r_pc r = Inner" and ne: "kb_head (r_kbd r) \<noteq> kb_tail (r_kbd r)"
  shows "reader_inv buf r0 arrived (reader_take buf r)" and "r_pc (reader_take buf r) = Inner"
    and "kbd_items (r_kbd (reader_take buf r)) = tl (kbd_items (r_kbd r))"
proof -
  obtain taken chs where tc: "taken @ kbd_items (r_kbd r) = kbd_items (r_kbd r0) @ arrived"
      "kbd_decode taken (r_mods r0) = (r_mods r, chs)" "r_i r = of_nat (length chs)"
      "r_count r = r_count r0 - of_nat (length chs)" "r_mem r = put_bytes (r_mem r0) buf chs"
    and v: "kbd_valid (r_kbd r)" "unat (kb_count (r_kbd r)) = unat (kb_count (r_kbd r0)) + length arrived"
    using inv unfolding reader_inv_def by blast
  obtain x xs where i: "kbd_items (r_kbd r) = x # xs"
    using kbd_items_empty [OF v(1)] ne by (cases "kbd_items (r_kbd r)") auto
  note nx = kbd_next_queue [OF v(1) i]
  obtain m ch where mc: "kbd_scan_code_to_ascii x (r_mods r) = (m, ch)" by fastforce
  have dec: "kbd_decode (taken @ [x]) (r_mods r0) = (m, if ch \<noteq> NO_CHAR then chs @ [ch] else chs)"
    by (simp add: kbd_decode_snoc tc(2) mc)
  have t: "reader_take buf r = (let r = r\<lparr>r_kbd := fst (kbd_next (r_kbd r)), r_mods := m\<rparr> in
      if ch \<noteq> NO_CHAR then r\<lparr>r_mem := (r_mem r)(buf + r_i r := ch), r_i := r_i r + 1, r_count := r_count r - 1\<rparr> else r)"
    using nx(3) mc by (simp add: reader_take_def split_beta Let_def)
  have f: "r_kbd (reader_take buf r) = fst (kbd_next (r_kbd r))" "r_mods (reader_take buf r) = m" "r_pc (reader_take buf r) = Inner"
    using pc by (simp_all add: t Let_def)
  show "r_pc (reader_take buf r) = Inner" "kbd_items (r_kbd (reader_take buf r)) = tl (kbd_items (r_kbd r))"
    using f nx i by simp_all
  let ?chs = "if ch \<noteq> NO_CHAR then chs @ [ch] else chs"
  have "r_i (reader_take buf r) = of_nat (length ?chs)" "r_count (reader_take buf r) = r_count r0 - of_nat (length ?chs)"
    "r_mem (reader_take buf r) = put_bytes (r_mem r0) buf ?chs"
    using tc(3-5) by (auto simp: t Let_def put_bytes_snoc)
  moreover have "(taken @ [x]) @ kbd_items (r_kbd (reader_take buf r)) = kbd_items (r_kbd r0) @ arrived"
    using tc(1) i nx(2) f(1) by simp
  ultimately show "reader_inv buf r0 arrived (reader_take buf r)"
    unfolding reader_inv_def using f dec nx(1,4) v(2) by (auto simp del: append_assoc)
qed

lemma reader_inv_interrupt:
  assumes inv: "reader_inv buf r0 arrived r" and b: "unat (kb_count (r_kbd r0)) + length arrived < 511"
  shows "reader_inv buf r0 (arrived @ [sc]) (reader_interrupt sc r)"
proof -
  have v: "kbd_valid (r_kbd r)" "unat (kb_count (r_kbd r)) = unat (kb_count (r_kbd r0)) + length arrived"
    using inv unfolding reader_inv_def by blast+
  then have c: "kb_count (r_kbd r) < 511" using b by (simp add: word_less_nat_alt)
  then have "kb_count (r_kbd r) < 512" by (rule less_trans) simp
  then have f: "reader_interrupt sc r = r\<lparr>r_kbd := kbd_store sc (r_kbd r)\<rparr>" by (simp add: reader_interrupt_def)
  from inv show ?thesis
    unfolding reader_inv_def f using kbd_store_queue [OF v(1) c, of sc] by auto
qed

lemma reader_inv_step:
  assumes "reader_inv buf r0 arrived r" and "reader_step buf r ys r'"
    and "unat (kb_count (r_kbd r0)) + length (arrived @ ys) \<le> 511"
  shows "reader_inv buf r0 (arrived @ ys) r'"
  using assms(2)
proof cases
  case take
  then show ?thesis using reader_inv_take(1) [OF assms(1)] by simp
next
  case (interrupt sc)
  then show ?thesis using reader_inv_interrupt [OF assms(1)] assms(3) by simp
qed (use assms(1) in \<open>auto simp: reader_inv_def word_gt_0\<close>)

lemma reader_inv_steps:
  assumes "reader_steps buf r0 arrived r" and "kbd_valid (r_kbd r0)" and "r_i r0 = 0" and "r_pc r0 \<noteq> Returned"
    and "unat (kb_count (r_kbd r0)) + length arrived \<le> 511"
  shows "reader_inv buf r0 arrived r"
  using assms
proof (induction rule: reader_steps.induct)
  case (idle r)
  then show ?case by (auto simp: reader_inv_def intro!: exI [of _ "[]"])
next
  case (more r xs r' ys r'')
  then have "reader_inv buf r xs r'" by simp
  with more show ?case by (intro reader_inv_step [OF _ more.hyps(2)]) simp_all
qed

lemma reader_steps_one: "reader_step buf r ys r' \<Longrightarrow> reader_steps buf r ys r'"
  using reader_steps.more [OF reader_steps.idle] by fastforce

lemma reader_steps_trans:
  assumes "reader_steps buf b ys c" and "reader_steps buf a xs b"
  shows "reader_steps buf a (xs @ ys) c"
  using assms
proof (induction rule: reader_steps.induct)
  case (more r ys r' zs r'')
  then show ?case using reader_steps.more [of buf a "xs @ ys" r' zs r''] by simp
qed simp

text \<open>Without interrupts the inner loop empties the ring.\<close>

lemma reader_drains:
  assumes "reader_inv buf r0 arrived r" and "r_pc r = Inner"
  shows "\<exists>r'. reader_steps buf r [] r' \<and> reader_inv buf r0 arrived r' \<and> r_pc r' = Inner \<and> kbd_items (r_kbd r') = []"
  using assms
proof (induction "length (kbd_items (r_kbd r))" arbitrary: r)
  case 0
  then show ?case using reader_steps.idle by auto
next
  case (Suc n)
  have v: "kbd_valid (r_kbd r)" using Suc.prems(1) by (simp add: reader_inv_def)
  have ne: "kb_head (r_kbd r) \<noteq> kb_tail (r_kbd r)" using kbd_items_empty [OF v] Suc.hyps(2) by auto
  note t = reader_inv_take [OF Suc.prems ne]
  have "n = length (kbd_items (r_kbd (reader_take buf r)))" using t(3) Suc.hyps(2) by simp
  from Suc.hyps(1) [OF this t(1,2)] obtain r' where
    r': "reader_steps buf (reader_take buf r) [] r'" "reader_inv buf r0 arrived r'" "r_pc r' = Inner" "kbd_items (r_kbd r') = []" by blast
  have "reader_steps buf r [] (reader_take buf r)"
    by (rule reader_steps_one [OF reader_step.take [OF Suc.prems(2) ne]])
  from reader_steps_trans [OF r'(1) this] have "reader_steps buf r [] r'" by simp
  with r' show ?case by blast
qed

lemma read_drains:
  assumes "kbd_valid k" and "count \<noteq> 0" and dec: "kbd_decode (kbd_items k) m = (m', chs)"
  obtains r where "reader_steps buf (kbd_read_start k m mm count) [] r" "r_pc r = Outer"
    "r_mem r = put_bytes mm buf chs" "r_i r = of_nat (length chs)" "r_count r = count - of_nat (length chs)"
proof -
  let ?r0 = "kbd_read_start k m mm count"
  let ?r1 = "?r0\<lparr>r_pc := Inner\<rparr>"
  have s1: "reader_step buf ?r0 [] ?r1"
    using assms(2) by (intro reader_step.enter) (simp_all add: kbd_read_start_def word_gt_0)
  have k511: "unat (kb_count k) \<le> 511" using assms(1) by (simp add: kbd_valid_def word_less_nat_alt)
  have inv: "reader_inv buf ?r1 [] ?r1" "r_pc ?r1 = Inner"
    using reader_inv_steps [OF reader_steps.idle, of ?r1 buf] assms(1) k511 by (simp_all add: kbd_read_start_def)
  from reader_drains [OF this] obtain r2 where
    r2: "reader_steps buf ?r1 [] r2" "reader_inv buf ?r1 [] r2" "r_pc r2 = Inner" "kbd_items (r_kbd r2) = []" by blast
  from reader_steps_trans [OF r2(1) reader_steps_one [OF s1]] have s2: "reader_steps buf ?r0 [] r2" by simp
  have v2: "kbd_valid (r_kbd r2)" using r2(2) by (simp add: reader_inv_def)
  have ht: "kb_head (r_kbd r2) = kb_tail (r_kbd r2)" using kbd_items_empty [OF v2] r2(4) by simp
  have s3: "reader_steps buf ?r0 [] (r2\<lparr>r_pc := Outer\<rparr>)"
    using reader_steps.more [OF s2 reader_step.leave [OF r2(3) ht]] by simp
  from r2(2,4) dec have "r_mem r2 = put_bytes mm buf chs" "r_i r2 = of_nat (length chs)" "r_count r2 = count - of_nat (length chs)"
    by (auto simp: reader_inv_def kbd_read_start_def)
  with s3 show thesis by (intro that [of "r2\<lparr>r_pc := Outer\<rparr>"]) simp_all
qed

section \<open>Layout\<close>

lemma table_distinct:
  "\<forall>c\<in>{False, True}. \<forall>s\<in>{False, True}.
     distinct (map (\<lambda>(sc, ch). uint (let ch = (if c then handle_caps_lock ch else ch) in if s then handle_shift ch else ch))
       scan_code_table)"
  by code_simp

lemma map_of_distinct_inj:
  assumes "distinct (map (\<lambda>(a, b). f b) xs)" and "map_of xs a = Some b" and "map_of xs a' = Some b'" and "f b = f b'"
  shows "a = a'"
proof -
  have m: "(a, b) \<in> set xs" "(a', b') \<in> set xs" using assms(2,3) by (simp_all add: map_of_SomeD)
  have "inj_on (\<lambda>(a, b). f b) (set xs)" using assms(1) by (simp add: distinct_map)
  from inj_onD [OF this _ m] assms(4) show ?thesis by simp
qed

section \<open>Five hundred and twelve scan codes\<close>

lemma kbd_init_valid: "kbd_valid (kbd_init k)" "kbd_items (kbd_init k) = []" "kb_count (kbd_init k) = 0" "kb_head (kbd_init k) = 0"
  by (simp_all add: kbd_init_def kbd_valid_def kbd_items_def)

lemma kbd_store_head [simp]: "kb_head (kbd_store sc k) = kb_head k"
  by (simp add: kbd_store_def Let_def)

lemma kbd_stores:
  "kbd_valid k \<Longrightarrow> unat (kb_count k) + length scs \<le> 511 \<Longrightarrow>
     kbd_valid (fold kbd_store scs k) \<and> unat (kb_count (fold kbd_store scs k)) = unat (kb_count k) + length scs \<and>
     kb_head (fold kbd_store scs k) = kb_head k"
proof (induction scs arbitrary: k)
  case (Cons sc scs)
  have "kb_count k < 511" using Cons.prems(2) by (simp add: word_less_nat_alt)
  note st = kbd_store_queue [OF Cons.prems(1) this, of sc]
  from Cons.IH [OF st(1)] st(3) Cons.prems(2) show ?case by simp
qed simp

lemma kbd_store_last:
  assumes "kbd_valid k" and "unat (kb_count k) = 511"
  shows "kb_count (kbd_store sc k) = 512" and "kb_tail (kbd_store sc k) = 0"
proof -
  have "unat (kb_count k + 1) = 512" and t: "kb_tail k = kb_count k"
    using assms by (simp_all add: kbd_valid_def unat_add_nowrap)
  then have "kb_count k + 1 = 512" by (simp add: word_unat_eq_iff)
  then show "kb_count (kbd_store sc k) = 512" "kb_tail (kbd_store sc k) = 0"
    by (simp_all add: kbd_store_def Let_def t)
qed

section \<open>Properties\<close>


text \<open>An example: three scan codes waiting, left shift pressed, \<open>h\<close>, left shift released.\<close>

definition example_kbd :: kbd_buffer where
  "example_kbd = fold kbd_store [0x2a, 0x23, 0xaa] \<lparr>kb_buffer = \<lambda>_. 0, kb_head = 0, kb_tail = 0, kb_count = 0\<rparr>"

definition no_mods :: kbd_mods where
  "no_mods = \<lparr>is_lshift_down = 0, is_rshift_down = 0, is_caps_lock_pressed = 0\<rparr>"

lemma example_kbd_facts: "kbd_valid example_kbd" "kbd_items example_kbd = [0x2a, 0x23, 0xaa]" "unat (kb_count example_kbd) = 3"
  by (simp_all add: example_kbd_def kbd_store_def Let_def kbd_valid_def kbd_items_def upt_conv_Cons)

lemma example_decode: "kbd_decode [0x2a, 0x23, 0xaa] no_mods = (no_mods, [72])"
  by (simp add: no_mods_def kbd_scan_code_to_ascii_def scan_code_table_def toggle_left_shift_def apply_mods_def
      handle_shift_def shift_table_def Let_def)

text \<open>With the right number of characters waiting \<open>kbd_read\<close> returns them without further interrupts; with more than
  requested it does not stop at the end of the buffer: all characters waiting are
  stored, past the end of the buffer, and the counter of characters still to read has wrapped around.\<close>

lemma kbd_read_drains_all:
  assumes "kbd_valid k" and "n \<noteq> 0" and "kbd_decode (kbd_items k) m = (m', chs)"
  shows "(length chs = unat n \<longrightarrow>
            (\<exists>r. reader_steps buf (kbd_read_start k m mm n) [] r \<and> r_pc r = Returned \<and> r_mem r = put_bytes mm buf chs)) \<and>
         (unat n < length chs \<longrightarrow>
            (\<exists>r. reader_steps buf (kbd_read_start k m mm n) [] r \<and> r_pc r = Outer \<and> r_mem r = put_bytes mm buf chs \<and>
                 r_count r = n - of_nat (length chs)))"
proof -
  obtain r where r: "reader_steps buf (kbd_read_start k m mm n) [] r" "r_pc r = Outer"
    "r_mem r = put_bytes mm buf chs" "r_i r = of_nat (length chs)" "r_count r = n - of_nat (length chs)"
    by (rule read_drains [OF assms])
  have "\<exists>r. reader_steps buf (kbd_read_start k m mm n) [] r \<and> r_pc r = Returned \<and> r_mem r = put_bytes mm buf chs"
    if "length chs = unat n"
  proof -
    have "r_count r = 0" using r(5) that by simp
    then have "reader_step buf r [] (r\<lparr>r_pc := Returned\<rparr>)" using r(2) by (intro reader_step.return) simp_all
    from reader_steps.more [OF r(1) this] r(3) show ?thesis by auto
  qed
  with r show ?thesis by blast
qed


text \<open>Scan codes come out of the ring in the order in which they went in, in any legal mix of
  interrupts and reads, until 511 have gone in.\<close>

lemma kbd_ring_fifo:
  assumes "kbd_valid k" and "legal_ops kbd_items (\<lambda>k. kb_count k < 511) kbd_store kbd_next ops k"
  shows "snd (run_ops kbd_store kbd_next ops k) =
         take (length (snd (run_ops kbd_store kbd_next ops k))) (kbd_items k @ puts ops)"
  by (rule kbdq.outputs_prefix [OF assms])

text \<open>C39. The 512th scan code since initialisation is the last one the driver takes, because \<open>kbd_read\<close> never lowers the
  count: if nothing was read before, all 512 are lost at that moment (the ring looks empty),
  and in any case every later interrupt leaves the ring as it is, however much is read.\<close>

theorem kbd_dead_after_512:
  assumes "length scs = 512"
  shows "kb_head (fold kbd_store scs (kbd_init k)) = kb_tail (fold kbd_store scs (kbd_init k)) \<and>
         kb_count (fold kbd_store scs (kbd_init k)) = 512 \<and>
         (\<forall>k'. kb_count k' = 512 \<longrightarrow> kb_count (fst (kbd_next k')) = 512 \<and>
            fst (keyboard_handle_interrupt (k', s)) = k')"
proof -
  from assms obtain xs x where scs: "scs = xs @ [x]" "length xs = 511" by (cases scs rule: rev_cases) auto
  have "kbd_valid (fold kbd_store xs (kbd_init k))" "unat (kb_count (fold kbd_store xs (kbd_init k))) = 511"
    "kb_head (fold kbd_store xs (kbd_init k)) = 0"
    using kbd_stores [of "kbd_init k" xs] kbd_init_valid scs(2) by simp_all
  with kbd_store_last [of "fold kbd_store xs (kbd_init k)" x] show ?thesis
    by (auto simp: scs(1) kbd_next_def Let_def keyboard_handle_interrupt_def)
qed

theorem kbd_dead_after_512_witness:
  "kb_count (fold kbd_store (replicate 512 0x1e) (kbd_init example_kbd)) = 512"
  using kbd_dead_after_512 [of "replicate 512 0x1e" example_kbd] by simp

text \<open>The layout is unambiguous: with the same modifiers two different keys never give the same
  character; a key release gives none; and pressing and releasing a shift key brings the
  modifiers back when it was up.\<close>

lemma kbd_layout_injective:
  "(\<forall>m sc sc' ch. kbd_scan_code_to_ascii sc m = (m, ch) \<and> kbd_scan_code_to_ascii sc' m = (m, ch) \<and>
       map_of scan_code_table sc \<noteq> None \<and> map_of scan_code_table sc' \<noteq> None \<and> sc AND 0x80 = 0 \<and> sc' AND 0x80 = 0 \<longrightarrow> sc = sc') \<and>
   (\<forall>m sc. sc AND 0x80 \<noteq> 0 \<longrightarrow> snd (kbd_scan_code_to_ascii sc m) = NO_CHAR) \<and>
   (\<forall>m. is_lshift_down m = 0 \<longrightarrow> kbd_decode [0x2a, 0xaa] m = (m, []))"
proof (intro conjI allI impI)
  fix m sc sc' ch
  assume h: "kbd_scan_code_to_ascii sc m = (m, ch) \<and> kbd_scan_code_to_ascii sc' m = (m, ch) \<and>
       map_of scan_code_table sc \<noteq> None \<and> map_of scan_code_table sc' \<noteq> None \<and> sc AND 0x80 = 0 \<and> sc' AND 0x80 = 0"
  then obtain b b' where b: "map_of scan_code_table sc = Some b" "map_of scan_code_table sc' = Some b'" by auto
  have ap: "apply_mods m b = apply_mods m b'" using h b by (auto simp: kbd_scan_code_to_ascii_def)
  let ?f = "\<lambda>ch. uint (let ch = (if is_caps_lock_pressed m \<noteq> 0 then handle_caps_lock ch else ch)
     in if is_lshift_down m \<noteq> 0 \<or> is_rshift_down m \<noteq> 0 then handle_shift ch else ch)"
  have "distinct (map (\<lambda>(sc, ch). ?f ch) scan_code_table)" using table_distinct by blast
  from map_of_distinct_inj [OF this b] ap show "sc = sc'" unfolding apply_mods_def by simp
next
  fix m :: kbd_mods assume "is_lshift_down m = 0"
  then show "kbd_decode [0x2a, 0xaa] m = (m, [])"
    by (cases m) (simp add: kbd_scan_code_to_ascii_def scan_code_table_def toggle_left_shift_def apply_mods_def
        handle_shift_def handle_caps_lock_def shift_table_def Let_def)
qed (simp add: kbd_scan_code_to_ascii_def Let_def)

end
