(* ===== verification/Vnode.thy ===== *)
theory Vnode
  imports Prelude
begin

text \<open>
  The file objects of \<open>vnode.h\<close>, \<open>vattr.h\<close> and \<open>vnode.c\<close>. A table of operations is one of the four
  static \<open>vnodeops_t\<close> structures of the kernel, so the model names the table instead of its address.
  Names and paths are terminated strings; the model keeps them as lists of their bytes.
\<close>

type_synonym cstring = "u8 list"

datatype vnodeops = Aefs_vnodeops | Devfs_vnodeops | Fb_vnodeops | Kbd_vnodeops

record vnode =
  v_op :: vnodeops
  v_data :: u32

record vattr =
  file_size :: u32

text \<open>The mounted file systems of \<open>vfs.h\<close>; \<open>vfs_next\<close> is an address, 0 for \<open>NULL\<close>.\<close>

datatype vfsops = No_vfsops | Aefs_vfsops | Devfs_vfsops

record vfs =
  vfs_next :: u32
  vfs_op :: vfsops
  mount_path :: cstring
  vfs_data :: u32

definition vnode_copy :: "vnode \<Rightarrow> vnode \<Rightarrow> vnode" where
  "vnode_copy from to = to\<lparr>v_op := v_op from, v_data := v_data from\<rparr>"

lemma vnode_copy_eq [simp]: "vnode_copy from to = from"
  by (simp add: vnode_copy_def)

end
