(* ===== verification/Aefs.thy ===== *)
theory Aefs
  imports Vnode Cstring Kmath Paging_Kernel
begin

text \<open>
  The file system \<open>aefs\<close> of \<open>aefs.h\<close> and \<open>aefs.c\<close>: an image in memory whose first block holds the
  superblock, followed by the inodes (16 bytes each) and, from block \<open>start_block\<close> on, the data blocks
  of 1024 bytes. Files longer than five blocks go on in further inodes through \<open>inode_tail\<close>. The
  structures are read from memory byte by byte, as their packed layout in \<open>aefs.h\<close> says; \<open>m\<close> is the
  kernel's view of memory.
\<close>

section \<open>Model\<close>

abbreviation (input) AEFS_BLOCK_SIZE :: u32 where "AEFS_BLOCK_SIZE \<equiv> 1024"
abbreviation (input) AEFS_INODE_NUM_BLOCKS :: u32 where "AEFS_INODE_NUM_BLOCKS \<equiv> 5"
abbreviation (input) AEFS_FILENAME_MAX_LEN :: u32 where "AEFS_FILENAME_MAX_LEN \<equiv> 254"
abbreviation (input) AEFS_MAGIC_NUMBER :: u32 where "AEFS_MAGIC_NUMBER \<equiv> 0xAE12AE34"
abbreviation (input) AEFS_DIRENTRIES_PER_BLOCK :: u32 where "AEFS_DIRENTRIES_PER_BLOCK \<equiv> 4"
abbreviation (input) ROOT_INODE_ID :: u16 where "ROOT_INODE_ID \<equiv> 1"

record aefs =
  fs_paddr :: u32
  fs_size :: u32
  sb :: u32
  root_inode :: u32
  fs_start :: u32

definition inode_type :: "mem \<Rightarrow> u32 \<Rightarrow> u8" where
  "inode_type m inode = m inode"

definition AEFS_INODE_SIZE :: "mem \<Rightarrow> u32 \<Rightarrow> u32" where
  "AEFS_INODE_SIZE m inode = push_bit 16 (ucast (m (inode + 1))) OR ucast (load16 m (inode + 2))"

definition inode_block :: "mem \<Rightarrow> u32 \<Rightarrow> u32 \<Rightarrow> u16" where
  "inode_block m inode k = load16 m (inode + 4 + 2 * k)"

definition inode_tail :: "mem \<Rightarrow> u32 \<Rightarrow> u16" where
  "inode_tail m inode = load16 m (inode + 14)"

definition AEFS_INODE_IS_REG :: "mem \<Rightarrow> u32 \<Rightarrow> bool" where
  "AEFS_INODE_IS_REG m inode \<longleftrightarrow> inode_type m inode = 0"

definition AEFS_INODE_IS_DIR :: "mem \<Rightarrow> u32 \<Rightarrow> bool" where
  "AEFS_INODE_IS_DIR m inode \<longleftrightarrow> inode_type m inode = 1"

definition aefs_root :: "aefs \<Rightarrow> vnode \<times> int" where
  "aefs_root fs = (\<lparr>v_op = Aefs_vnodeops, v_data = root_inode fs\<rparr>, 0)"

definition get_inode :: "aefs \<Rightarrow> u16 \<Rightarrow> u32" where
  "get_inode fs inode_id = fs_start fs + 1024 + 16 * ucast inode_id"

definition get_block :: "aefs \<Rightarrow> mem \<Rightarrow> u32 \<Rightarrow> u32" where
  "get_block fs m i = fs_start fs + 1024 * (ucast (load16 m (sb fs + 6)) + i)"

definition aefs_getattr :: "mem \<Rightarrow> vnode \<Rightarrow> vattr \<times> int" where
  "aefs_getattr m vnode = (\<lparr>file_size = AEFS_INODE_SIZE m (v_data vnode)\<rparr>, 0)"

text \<open>The step to the next inode of a chain, before block \<open>i\<close>.\<close>

definition inode_for :: "aefs \<Rightarrow> mem \<Rightarrow> u32 \<Rightarrow> u32 \<Rightarrow> u32" where
  "inode_for fs m current i =
     (if i mod AEFS_INODE_NUM_BLOCKS = 0 \<and> i \<noteq> 0 then get_inode fs (inode_tail m current) else current)"

function aefs_read_loop :: "aefs \<Rightarrow> mem \<Rightarrow> u32 \<Rightarrow> u32 \<Rightarrow> u32 \<Rightarrow> u32 \<Rightarrow> u32 \<Rightarrow> u32 \<Rightarrow> mem \<times> u32" where
  "aefs_read_loop fs m buf current i blocks sz rd =
     (if i < blocks then
        (let current = inode_for fs m current i;
             to_read = minu sz AEFS_BLOCK_SIZE;
             m = memcpy m (buf + rd)
                   (get_block fs m (ucast (inode_block m current (i mod AEFS_INODE_NUM_BLOCKS)))) to_read
         in aefs_read_loop fs m buf current (i + 1) blocks (sz - to_read) (rd + to_read))
      else (m, rd))"
  by pat_completeness auto
termination
  by (relation "measure (\<lambda>(fs, m, buf, current, i, blocks, sz, rd). unat blocks - unat i)")
     (auto intro: loop_measure)

declare aefs_read_loop.simps [simp del]

text \<open>The result is the number of bytes as an \<open>int\<close>, or -1.\<close>

definition aefs_read :: "aefs \<Rightarrow> mem \<Rightarrow> vnode \<Rightarrow> u32 \<Rightarrow> u32 \<Rightarrow> mem \<times> int" where
  "aefs_read fs m vnode buf count =
     (let inode = v_data vnode
      in if \<not> AEFS_INODE_IS_REG m inode then (m, - 1)
         else
           (let sz = minu count (AEFS_INODE_SIZE m inode);
                blocks = div_ceil sz AEFS_BLOCK_SIZE;
                (m, rd) = aefs_read_loop fs m buf inode 0 blocks sz 0
            in (m, sint rd)))"

definition aefs_write :: int where "aefs_write = - 1"

definition aefs_open :: int where "aefs_open = 0"

text \<open>\<open>strncmp\<close> on a name field in memory and a string; like the code it never moves past the first
  character.\<close>

definition first_char :: "cstring \<Rightarrow> u8" where
  "first_char xs = (case xs of [] \<Rightarrow> 0 | x # _ \<Rightarrow> x)"

function strncmp_name_loop :: "u8 \<Rightarrow> u8 \<Rightarrow> u32 \<Rightarrow> u32 \<Rightarrow> int" where
  "strncmp_name_loop c1 c2 i n =
     (if i < n then
        (if c1 = c2 then strncmp_name_loop c1 c2 (i + 1) n
         else if c1 = 0 \<and> c2 \<noteq> 0 then - 1
         else if c2 = 0 \<and> c1 \<noteq> 0 then 1
         else if char_less c1 c2 then - 1
         else 1)
      else 0)"
  by pat_completeness auto
termination
  by (relation "measure (\<lambda>(c1, c2, i, n). unat n - unat i)") (auto intro: loop_measure)

declare strncmp_name_loop.simps [simp del]

definition strncmp_name :: "mem \<Rightarrow> u32 \<Rightarrow> cstring \<Rightarrow> u32 \<Rightarrow> int" where
  "strncmp_name m s1 s2 n = strncmp_name_loop (m s1) (first_char s2) 0 n"

function direntry_loop :: "mem \<Rightarrow> u32 \<Rightarrow> cstring \<Rightarrow> u32 \<Rightarrow> u16 option" where
  "direntry_loop m entry name j =
     (if j < AEFS_DIRENTRIES_PER_BLOCK then
        (if strncmp_name m entry name AEFS_FILENAME_MAX_LEN = 0 then Some (load16 m (entry + 254))
         else direntry_loop m (entry + 256) name (j + 1))
      else None)"
  by pat_completeness auto
termination
  by (relation "measure (\<lambda>(m, entry, name, j). 4 - unat j)") (auto intro: loop_measure)

declare direntry_loop.simps [simp del]

function aefs_lookup_loop :: "aefs \<Rightarrow> mem \<Rightarrow> cstring \<Rightarrow> u32 \<Rightarrow> u32 \<Rightarrow> u32 \<Rightarrow> u16 option" where
  "aefs_lookup_loop fs m name current i num_blocks =
     (if i < num_blocks then
        (let current = inode_for fs m current i;
             block = get_block fs m (ucast (inode_block m current (i mod AEFS_INODE_NUM_BLOCKS)))
         in case direntry_loop m block name 0 of
              Some inode_id \<Rightarrow> Some inode_id
            | None \<Rightarrow> aefs_lookup_loop fs m name current (i + 1) num_blocks)
      else None)"
  by pat_completeness auto
termination
  by (relation "measure (\<lambda>(fs, m, name, current, i, num_blocks). unat num_blocks - unat i)")
     (auto intro: loop_measure)

declare aefs_lookup_loop.simps [simp del]

text \<open>\<open>res\<close> is written on success only.\<close>

definition aefs_lookup :: "aefs \<Rightarrow> mem \<Rightarrow> vnode \<Rightarrow> cstring \<Rightarrow> vnode \<Rightarrow> vnode \<times> int" where
  "aefs_lookup fs m dir name res =
     (let inode = v_data dir
      in if \<not> AEFS_INODE_IS_DIR m inode then (res, - 1)
         else
           (case aefs_lookup_loop fs m name inode 0 (div_ceil (AEFS_INODE_SIZE m inode) AEFS_BLOCK_SIZE) of
              Some inode_id \<Rightarrow> (\<lparr>v_op = Aefs_vnodeops, v_data = get_inode fs inode_id\<rparr>, 0)
            | None \<Rightarrow> (res, - 1)))"

section \<open>Mounting\<close>

text \<open>The arguments of \<open>pdt_map_kernel_memory\<close> stand in the order of the code: \<open>PAGING_PL0\<close> for the
  access and \<open>PAGING_READ_ONLY\<close> for the privilege level, both 0.\<close>

definition map_aefs_to_virtual_memory :: "paging \<Rightarrow> u32 \<Rightarrow> u32 \<Rightarrow> (paging \<times> u32) option" where
  "map_aefs_to_virtual_memory pg paddr sz =
     (let (pg, fs_vaddr) = pdt_kernel_find_next_vaddr pg sz
      in if fs_vaddr = 0 then Some (pg, 0)
         else Option.bind (pdt_map_kernel_memory pg paddr fs_vaddr sz PAGING_PL0 PAGING_READ_ONLY)
                (\<lambda>(pg, mapped_mem_size). Some (pg, if mapped_mem_size < sz then 0 else fs_vaddr)))"

text \<open>\<open>m\<close> gives memory as the kernel sees it under a paging state.\<close>

definition aefs_init ::
  "(paging \<Rightarrow> mem) \<Rightarrow> paging \<Rightarrow> aefs \<Rightarrow> u32 \<Rightarrow> u32 \<Rightarrow> vfs \<Rightarrow> (paging \<times> aefs \<times> vfs \<times> u32) option" where
  "aefs_init m pg fs paddr sz vfs =
     (let fs = fs\<lparr>fs_paddr := paddr, fs_size := sz\<rparr>
      in Option.bind (map_aefs_to_virtual_memory pg paddr sz) (\<lambda>(pg, fs_vaddr).
           if fs_vaddr = 0 then Some (pg, fs, vfs, 1)
           else
             (let fs = fs\<lparr>fs_start := fs_vaddr, sb := fs_vaddr\<rparr>
              in if load32 (m pg) (sb fs) \<noteq> AEFS_MAGIC_NUMBER then Some (pg, fs, vfs, 1)
                 else Some (pg, fs\<lparr>root_inode := get_inode fs ROOT_INODE_ID\<rparr>,
                            vfs\<lparr>vfs_next := 0, vfs_op := Aefs_vfsops\<rparr>, 0))))"

section \<open>The contents of a file\<close>

text \<open>The inodes of a file, and the address of byte \<open>k\<close> of its contents.\<close>

primrec chain :: "aefs \<Rightarrow> mem \<Rightarrow> u32 \<Rightarrow> nat \<Rightarrow> u32" where
  "chain fs m inode 0 = inode"
| "chain fs m inode (Suc j) = get_inode fs (inode_tail m (chain fs m inode j))"

definition block_addr :: "aefs \<Rightarrow> mem \<Rightarrow> u32 \<Rightarrow> nat \<Rightarrow> u32" where
  "block_addr fs m inode i =
     get_block fs m (ucast (inode_block m (chain fs m inode (i div 5)) (of_nat (i mod 5))))"

definition file_addr :: "aefs \<Rightarrow> mem \<Rightarrow> u32 \<Rightarrow> nat \<Rightarrow> u32" where
  "file_addr fs m inode k = block_addr fs m inode (k div 1024) + of_nat (k mod 1024)"

text \<open>The first \<open>n\<close> bytes of a file and everything needed to find them lie in \<open>I\<close>.\<close>

definition file_in :: "aefs \<Rightarrow> mem \<Rightarrow> u32 set \<Rightarrow> u32 \<Rightarrow> nat \<Rightarrow> bool" where
  "file_in fs m I inode n \<longleftrightarrow> sb fs + 6 \<in> I \<and> sb fs + 6 + 1 \<in> I \<and>
     (\<forall>j k. 5120 * j < n \<and> k < 16 \<longrightarrow> chain fs m inode j + of_nat k \<in> I) \<and>
     (\<forall>k<n. file_addr fs m inode k \<in> I)"

lemma agree_inode:
  assumes "\<And>k. k < 16 \<Longrightarrow> m' (p + of_nat k) = m (p + of_nat k)"
  shows "inode_tail m' p = inode_tail m p" and "k < 5 \<Longrightarrow> inode_block m' p k = inode_block m p k"
proof -
  show "inode_tail m' p = inode_tail m p"
    using assms [of 14] assms [of 15] by (simp add: inode_tail_def load16_def algebra_simps)
  assume "k < 5"
  then have u: "unat k < 5" by (simp add: word_less_nat_alt)
  have e: "p + of_nat (4 + 2 * unat k) = p + 4 + 2 * k" "p + of_nat (5 + 2 * unat k) = p + 4 + 2 * k + 1"
    by (simp_all add: algebra_simps)
  have "4 + 2 * unat k < 16" "5 + 2 * unat k < 16" using u by simp_all
  note this [THEN assms, unfolded e]
  then show "inode_block m' p k = inode_block m p k" unfolding inode_block_def load16_def by (simp only:)
qed

lemma agree_chain:
  assumes "file_in fs m I inode n" and "\<And>a. a \<in> I \<Longrightarrow> m' a = m a" and "5120 * j < n"
  shows "chain fs m' inode j = chain fs m inode j"
  using assms(3)
proof (induction j)
  case (Suc j)
  then have j: "5120 * j < n" and IH: "chain fs m' inode j = chain fs m inode j" by simp_all
  have "m' (chain fs m inode j + of_nat k) = m (chain fs m inode j + of_nat k)" if "k < 16" for k
    using assms(1,2) j that unfolding file_in_def by blast
  with agree_inode(1) [of m' "chain fs m inode j" m] IH show ?case by simp
qed simp

lemma agree_block:
  assumes "file_in fs m I inode n" and "\<And>a. a \<in> I \<Longrightarrow> m' a = m a" and "1024 * i < n"
  shows "block_addr fs m' inode i = block_addr fs m inode i"
proof -
  let ?c = "chain fs m inode (i div 5)"
  have j: "5120 * (i div 5) < n" using assms(3) by simp
  have m: "m' (?c + of_nat k) = m (?c + of_nat k)" if "k < 16" for k
    using assms(1,2) j that unfolding file_in_def by blast
  have "(of_nat (i mod 5) :: u32) < 5" by (simp add: word_less_nat_alt unat_of_nat_small)
  moreover have "load16 m' (sb fs + 6) = load16 m (sb fs + 6)"
    using assms(1,2) unfolding file_in_def load16_def by metis
  ultimately show ?thesis
    using agree_chain [OF assms(1,2) j] agree_inode(2) [of m' ?c m, OF m] by (simp add: block_addr_def get_block_def)
qed

section \<open>Reading a file\<close>

lemma disjoint_regionsI:
  assumes "\<And>x. x - d < n \<Longrightarrow> x - s < n \<Longrightarrow> False"
  shows "disjoint_regions d s n"
proof (rule ccontr)
  assume "\<not> disjoint_regions d s n"
  then consider "s - d < n" | "d - s < n" by (auto simp: disjoint_regions_def not_le)
  then show False
  proof cases
    case 1
    moreover have "s - s < n" using 1 by (simp add: word_greater_zero_iff) (metis not_less_zero word_gt_0 word_not_simps(1))
    ultimately show False by (rule assms)
  next
    case 2
    moreover have "d - d < n" using 2 by (simp add: word_greater_zero_iff) (metis word_not_simps(1))
    ultimately show False by (metis assms)
  qed
qed

text \<open>The state of the loop before block \<open>i\<close>: \<open>rd\<close> bytes copied, the inode of the block before.\<close>

definition read_state :: "aefs \<Rightarrow> mem \<Rightarrow> u32 \<Rightarrow> u32 \<Rightarrow> u32 \<Rightarrow> mem" where
  "read_state fs m inode buf rd = (\<lambda>a. if a - buf < rd then m (file_addr fs m inode (unat (a - buf))) else m a)"

lemma current_inode:
  assumes "unat i = k"
  shows "inode_for fs m (chain fs m inode ((k - 1) div 5)) i = chain fs m inode (k div 5)"
proof (cases "k mod 5 = 0 \<and> k \<noteq> 0")
  case True
  then obtain j where j: "k = 5 * Suc j" by (metis dvd_eq_mod_eq_0 dvdE mult_0_right not0_implies_Suc)
  have "i mod 5 = 0" "i \<noteq> 0" using True assms by (auto simp: unat_eq_zero [symmetric] unat_mod)
  moreover have "(k - 1) div 5 = j" "k div 5 = Suc j" using j by simp_all
  ultimately show ?thesis by (simp add: inode_for_def)
next
  case False
  then have "\<not> (i mod 5 = 0 \<and> i \<noteq> 0)" using assms by (auto simp: unat_eq_zero [symmetric] unat_mod)
  moreover have "(k - 1) div 5 = k div 5"
  proof (cases "k = 0")
    case False
    with \<open>\<not> (k mod 5 = 0 \<and> k \<noteq> 0)\<close> have "k mod 5 \<noteq> 0" by simp
    then have "5 * (k div 5) \<le> k - 1" using mult_div_mod_eq [of 5 k] by linarith
    moreover have "k - 1 < 5 * Suc (k div 5)" using dividend_less_times_div [of 5 k] by simp
    ultimately show ?thesis by (rule div_nat_eqI)
  qed simp
  ultimately show ?thesis by (auto simp: inode_for_def)
qed

lemma read_loop_empty: "aefs_read_loop fs m buf current i blocks 0 rd = (m, rd)"
proof (induction fs m buf current i blocks "0 :: u32" rd rule: aefs_read_loop.induct)
  case (1 fs m buf current i blocks rd)
  have z: "minu 0 1024 = 0" by (simp add: minu_def)
  have c: "memcpy m a b 0 = m" for m a b by (simp add: memcpy_def memcpy_loop.simps)
  show ?case
  proof (cases "i < blocks")
    case True
    from 1 [OF True refl refl refl] True show ?thesis by (subst aefs_read_loop.simps) (simp add: z c)
  qed (subst aefs_read_loop.simps, simp)
qed

text \<open>Offsets in a buffer of which \<open>rd\<close> bytes are filled and \<open>t\<close> more follow.\<close>

lemma buffer_offset:
  fixes a b rd t :: u32
  assumes "unat (rd + t) = unat rd + unat t" and "a - (b + rd) < t"
  shows "unat (a - b) = unat rd + unat (a - (b + rd))"
proof -
  have "unat rd + unat (a - (b + rd)) < 2 ^ 32"
    using assms unat_lt_u32 [of "rd + t"] by (simp add: word_less_nat_alt)
  then have "unat (rd + (a - (b + rd))) = unat rd + unat (a - (b + rd))" by (subst unat_add_nowrap) simp_all
  moreover have "rd + (a - (b + rd)) = a - b" by (simp add: algebra_simps)
  ultimately show ?thesis by simp
qed

lemma buffer_extend:
  fixes a b rd t :: u32
  assumes "unat (rd + t) = unat rd + unat t"
  shows "a - b < rd + t \<longleftrightarrow> a - b < rd \<or> a - (b + rd) < t"
proof (cases "a - b < rd")
  case True
  with assms show ?thesis by (simp add: word_less_nat_alt)
next
  case False
  have "a - b - rd = a - (b + rd)" by simp
  with False have "unat (a - (b + rd)) = unat (a - b) - unat rd"
    by (metis not_less unat_sub_nowrap word_le_nat_alt)
  with False assms show ?thesis by (auto simp: word_less_nat_alt)
qed

text \<open>One round: the next block, or what is left of the file, is copied behind the bytes already
  there.\<close>

lemma round_size:
  assumes "unat rd = 1024 * k" and "rd < n" and "to_read = minu (n - rd) 1024"
  shows "unat (rd + to_read) = unat rd + unat to_read" and "unat to_read \<le> 1024" and "rd + to_read \<le> n"
    and "unat (rd + to_read) = min (1024 * Suc k) (unat n)"
proof -
  have rn: "unat rd < unat n" using assms(2) by (simp add: word_less_nat_alt)
  have ut: "unat to_read = min (unat n - unat rd) 1024"
    unfolding assms(3) using rn by (simp add: unat_minu unat_sub_nowrap)
  then show "unat to_read \<le> 1024" by simp
  show ur: "unat (rd + to_read) = unat rd + unat to_read"
    using ut rn unat_lt_u32 [of n] by (subst unat_add_nowrap) simp_all
  show "unat (rd + to_read) = min (1024 * Suc k) (unat n)" using ur ut assms(1) rn by simp
  then show "rd + to_read \<le> n" by (simp add: word_le_nat_alt)
qed

lemma file_addr_block:
  "k < 1024 \<Longrightarrow> file_addr fs m inode (1024 * i + k) = block_addr fs m inode i + of_nat k"
proof -
  assume "k < 1024"
  then have "(1024 * i + k) div 1024 = i" "(1024 * i + k) mod 1024 = k" by simp_all
  then show ?thesis by (simp only: file_addr_def)
qed

lemma read_round:
  assumes fin: "file_in fs m I inode (unat n)" and buf: "\<And>x. x - buf < n \<Longrightarrow> x \<notin> I"
    and rd: "unat rd = 1024 * k" "rd < n" and t: "to_read = minu (n - rd) 1024"
  defines "m1 \<equiv> read_state fs m inode buf rd"
  shows "memcpy m1 (buf + rd) (block_addr fs m1 inode k) to_read = read_state fs m inode buf (rd + to_read)"
proof -
  note sz = round_size [OF rd t]
  have agree: "m1 a = m a" if "a \<in> I" for a
    using buf [of a] that rd(2) unfolding m1_def read_state_def by (meson order.strict_trans)
  let ?b = "block_addr fs m inode k"
  have b: "block_addr fs m1 inode k = ?b"
    by (rule agree_block [OF fin agree]) (use rd in \<open>simp_all add: word_less_nat_alt\<close>)
  have off: "unat x < 1024 \<and> 1024 * k + unat x < unat n" if "x < to_read" for x
    using that sz rd by (simp add: word_less_nat_alt word_le_nat_alt)
  have src: "?b + x \<in> I" if "x < to_read" for x
  proof -
    have "file_addr fs m inode (1024 * k + unat x) \<in> I" using fin off [OF that] unfolding file_in_def by blast
    then show ?thesis using file_addr_block [of "unat x"] off [OF that] by simp
  qed
  have dst: "x - buf < n" if "x - (buf + rd) < to_read" for x
    using buffer_extend [OF sz(1), of x buf] that sz(3) by (meson order.strict_trans2)
  have "disjoint_regions (buf + rd) ?b to_read"
  proof (rule disjoint_regionsI)
    fix x assume "x - (buf + rd) < to_read" "x - ?b < to_read"
    with dst [of x] src [of "x - ?b"] buf [of x] show False by simp
  qed
  note copy = memcpy_eq [OF this, of m1]
  have "(if a - (buf + rd) < to_read then m1 (?b + (a - (buf + rd))) else m1 a) = read_state fs m inode buf (rd + to_read) a" for a
  proof (cases "a - (buf + rd) < to_read")
    case True
    have "file_addr fs m inode (unat (a - buf)) = ?b + (a - (buf + rd))"
      using buffer_offset [OF sz(1) True] off [OF True] file_addr_block [of "unat (a - (buf + rd))"] rd(1) by simp
    with True agree [OF src [OF True]] buffer_extend [OF sz(1), of a buf] show ?thesis by (simp add: read_state_def)
  next
    case False
    with buffer_extend [OF sz(1), of a buf] show ?thesis by (simp add: m1_def read_state_def)
  qed
  then show ?thesis unfolding b copy by blast
qed

lemma read_loop_result:
  assumes fin: "file_in fs m I inode (unat n)" and buf: "\<And>x. x - buf < n \<Longrightarrow> x \<notin> I"
    and blocks: "unat blocks = (unat n + 1023) div 1024"
    and rd: "unat rd = min (1024 * unat i) (unat n)" and i: "i \<le> blocks"
    and cur: "unat i = 0 \<longrightarrow> current = inode" "unat i \<noteq> 0 \<longrightarrow> current = chain fs m inode ((unat i - 1) div 5)"
  shows "aefs_read_loop fs (read_state fs m inode buf rd) buf current i blocks (n - rd) rd = (read_state fs m inode buf n, n)"
  using rd i cur
proof (induction "unat blocks - unat i" arbitrary: i rd current rule: less_induct)
  case less
  let ?m1 = "read_state fs m inode buf rd"
  show ?case
  proof (cases "i < blocks")
    case False
    with less.prems(2) have "i = blocks" by simp
    then have "unat rd = unat n" using less.prems(1) blocks by simp
    then have "rd = n" by (simp add: word_unat_eq_iff)
    with False show ?thesis by (subst aefs_read_loop.simps) simp
  next
    case True
    let ?k = "unat i" and ?t = "minu (n - rd) 1024"
    have ki: "1024 * ?k < unat n" using True blocks by (simp add: word_less_nat_alt)
    then have r: "unat rd = 1024 * ?k" "rd < n" using less.prems(1) by (simp_all add: word_less_nat_alt)
    have agree: "?m1 a = m a" if "a \<in> I" for a
      using buf [of a] that r(2) unfolding read_state_def by (meson order.strict_trans)
    have chain1: "chain fs ?m1 inode j = chain fs m inode j" if "5120 * j < unat n" for j
      by (rule agree_chain [OF fin agree that])
    have c: "current = chain fs ?m1 inode ((?k - 1) div 5)"
      using less.prems(3,4) chain1 [of "(?k - 1) div 5"] ki by (cases "?k = 0") auto
    have cur': "inode_for fs ?m1 current i = chain fs ?m1 inode (?k div 5)"
      unfolding c by (rule current_inode [OF refl])
    have "of_nat (?k mod 5) = i mod 5" by (rule word_unat_eq_iff [THEN iffD2]) (simp add: unat_mod unat_of_nat_small)
    then have blk: "get_block fs ?m1 (ucast (inode_block ?m1 (inode_for fs ?m1 current i) (i mod 5))) = block_addr fs ?m1 inode ?k"
      unfolding cur' block_addr_def by simp
    note rnd = read_round [OF fin buf r refl] and sz = round_size [OF r refl]
    have i1: "unat (i + 1) = Suc ?k" by (rule unat_inc [OF True])
    have left: "n - rd - ?t = n - (rd + ?t)" by simp
    have "aefs_read_loop fs ?m1 buf current i blocks (n - rd) rd =
        aefs_read_loop fs (read_state fs m inode buf (rd + ?t)) buf (inode_for fs ?m1 current i) (i + 1) blocks (n - (rd + ?t)) (rd + ?t)"
      using True by (subst aefs_read_loop.simps) (simp only: Let_def if_True blk rnd left)
    also have "\<dots> = (read_state fs m inode buf n, n)"
    proof (rule less.hyps)
      show "unat blocks - unat (i + 1) < unat blocks - unat i" using True i1 by (simp add: word_less_nat_alt)
      show "unat (rd + ?t) = min (1024 * unat (i + 1)) (unat n)" using sz(4) i1 by simp
      show "i + 1 \<le> blocks" using True i1 by (simp add: word_le_nat_alt word_less_nat_alt)
      show "unat (i + 1) \<noteq> 0 \<longrightarrow> inode_for fs ?m1 current i = chain fs m inode ((unat (i + 1) - 1) div 5)"
        using cur' chain1 [of "?k div 5"] ki i1 by simp
    qed (use i1 in simp)
    finally show ?thesis .
  qed
qed

lemma inode_size_bound: "unat (AEFS_INODE_SIZE m inode) < 2 ^ 24"
proof -
  have "take_bit 24 (AEFS_INODE_SIZE m inode) = AEFS_INODE_SIZE m inode"
    by (rule bit_word_eqI) (auto simp: AEFS_INODE_SIZE_def bit_simps dest: bit_imp_le_length)
  then have "AEFS_INODE_SIZE m inode = AEFS_INODE_SIZE m inode mod 0x1000000" by (simp add: take_bit_eq_mod)
  then have "unat (AEFS_INODE_SIZE m inode) = unat (AEFS_INODE_SIZE m inode) mod 0x1000000"
    using unat_mod [of "AEFS_INODE_SIZE m inode" "0x1000000"] by simp
  then show ?thesis using mod_less_divisor [of "0x1000000" "unat (AEFS_INODE_SIZE m inode)"] by simp
qed

lemma sint_small:
  fixes n :: u32
  assumes "unat n < 2 ^ 24"
  shows "sint n = int (unat n)"
proof -
  have u: "uint n = int (unat n)" by simp
  moreover have "unat n < 0x1000000" using assms by simp
  ultimately have "- 0x80000000 \<le> uint n" "uint n < 0x80000000" by linarith+
  then have "signed_take_bit 31 (uint n) = uint n" by (intro signed_take_bit_int_eq_self) simp_all
  moreover have "sint n = signed_take_bit 31 (uint n)" by (simp add: sint_uint)
  ultimately show ?thesis using u by (simp only:)
qed

section \<open>Looking up a name\<close>

lemma strncmp_name_loop_eq: "strncmp_name_loop c1 c2 i n = 0 \<longleftrightarrow> n \<le> i \<or> c1 = c2"
proof (induction c1 c2 i n rule: strncmp_name_loop.induct)
  case (1 c1 c2 i n)
  then show ?case by (subst strncmp_name_loop.simps) (auto simp: not_less)
qed

lemma strncmp_name_eq: "strncmp_name m s1 s2 254 = 0 \<longleftrightarrow> m s1 = first_char s2"
  by (simp add: strncmp_name_def strncmp_name_loop_eq)

text \<open>The directory entries in the order the code visits them.\<close>

definition block_entries :: "u32 \<Rightarrow> u32 list" where
  "block_entries b = [b, b + 256, b + 256 + 256, b + 256 + 256 + 256]"

definition dir_entries :: "aefs \<Rightarrow> mem \<Rightarrow> u32 \<Rightarrow> nat \<Rightarrow> nat \<Rightarrow> u32 list" where
  "dir_entries fs m inode i n = concat (map (\<lambda>k. block_entries (block_addr fs m inode k)) [i ..< n])"

definition entry_inode :: "mem \<Rightarrow> u32 \<Rightarrow> u16" where
  "entry_inode m e = load16 m (e + 254)"

lemma direntry_loop_eq:
  "direntry_loop m b name 0 = map_option (entry_inode m) (List.find (\<lambda>e. m e = first_char name) (block_entries b))"
proof -
  have s: "direntry_loop m e name j = (if j < 4 then if m e = first_char name then Some (entry_inode m e)
      else direntry_loop m (e + 256) name (j + 1) else None)" for e j
    by (subst direntry_loop.simps) (simp add: strncmp_name_eq entry_inode_def)
  show ?thesis
    by (subst s, subst s, subst s, subst s, subst s) (simp add: block_entries_def)
qed

lemma find_append: "List.find P (xs @ ys) = (case List.find P xs of None \<Rightarrow> List.find P ys | Some x \<Rightarrow> Some x)"
  by (induction xs) auto

lemma lookup_loop_eq:
  assumes "i \<le> n" and "current = chain fs m inode ((unat i - 1) div 5)"
  shows "aefs_lookup_loop fs m name current i n =
    map_option (entry_inode m) (List.find (\<lambda>e. m e = first_char name) (dir_entries fs m inode (unat i) (unat n)))"
  using assms
proof (induction "unat n - unat i" arbitrary: i current rule: less_induct)
  case less
  show ?case
  proof (cases "i < n")
    case False
    with less.prems(1) have "i = n" by simp
    then show ?thesis by (subst aefs_lookup_loop.simps) (simp add: dir_entries_def)
  next
    case True
    let ?k = "unat i" and ?c = "inode_for fs m current i"
    have i1: "unat (i + 1) = Suc ?k" by (rule unat_inc [OF True])
    have c: "?c = chain fs m inode (?k div 5)" unfolding less.prems(2) by (rule current_inode [OF refl])
    have "of_nat (?k mod 5) = i mod 5" by (rule word_unat_eq_iff [THEN iffD2]) (simp add: unat_mod unat_of_nat_small)
    then have blk: "get_block fs m (ucast (inode_block m ?c (i mod 5))) = block_addr fs m inode ?k"
      unfolding c block_addr_def by simp
    have "[?k ..< unat n] = ?k # [Suc ?k ..< unat n]" using True by (simp add: upt_conv_Cons word_less_nat_alt)
    then have split: "dir_entries fs m inode ?k (unat n) =
        block_entries (block_addr fs m inode ?k) @ dir_entries fs m inode (Suc ?k) (unat n)"
      by (simp add: dir_entries_def)
    have IH: "aefs_lookup_loop fs m name ?c (i + 1) n =
        map_option (entry_inode m) (List.find (\<lambda>e. m e = first_char name) (dir_entries fs m inode (Suc ?k) (unat n)))"
      unfolding i1 [symmetric]
      by (rule less.hyps) (use True i1 c in \<open>simp_all add: word_less_nat_alt word_le_nat_alt\<close>)
    show ?thesis
      using True IH by (subst aefs_lookup_loop.simps)
        (simp add: Let_def blk direntry_loop_eq split find_append split: option.splits)
  qed
qed

section \<open>Properties\<close>

lemma aefs_read_result:
  assumes "n = minu count (AEFS_INODE_SIZE m (v_data v))"
    and "file_in fs m I (v_data v) (unat n)" and "\<And>x. x - buf < n \<Longrightarrow> x \<notin> I"
  shows "aefs_read fs m v buf count =
    (if AEFS_INODE_IS_REG m (v_data v)
     then (\<lambda>a. if a - buf < n then m (file_addr fs m (v_data v) (unat (a - buf))) else m a, int (unat n))
     else (m, - 1))"
proof (cases "AEFS_INODE_IS_REG m (v_data v)")
  case True
  let ?p = "v_data v"
  have "unat n < 2 ^ 24" using inode_size_bound [of m ?p] assms(1) by (simp add: unat_minu min_def)
  then have s: "sint n = int (unat n)" by (rule sint_small)
  have "aefs_read_loop fs m buf ?p 0 (div_ceil n 1024) n 0 = (read_state fs m ?p buf n, n)"
  proof (cases "n = 0")
    case False
    have "unat (div_ceil n 1024) = (unat n + 1023) div 1024" using unat_div_ceil [OF False, of 1024] by simp
    from read_loop_result [OF assms(2,3) this, where i = 0 and rd = 0 and current = ?p] show ?thesis
      by (simp add: read_state_def)
  qed (simp add: read_loop_empty read_state_def)
  with True assms(1) s show ?thesis by (simp add: aefs_read_def Let_def read_state_def)
qed (simp add: aefs_read_def Let_def)

text \<open>C7. \<open>aefs_read\<close> of a regular file returns the number of bytes asked for, or the size of the file
  when that is less, and puts exactly these bytes of the file, found through its chain of inodes and
  blocks, into the buffer; no other byte of memory changes. It holds for files over any number of
  inodes and for the empty file, as long as the buffer lies outside the part of the image that holds
  the file. Reading anything that is not a regular file is refused.\<close>

theorem aefs_read_correct:
  assumes "n = minu count (AEFS_INODE_SIZE m (v_data v))"
    and "file_in fs m I (v_data v) (unat n)" and "\<And>x. x - buf < n \<Longrightarrow> x \<notin> I"
  shows "aefs_read fs m v buf count =
    (if AEFS_INODE_IS_REG m (v_data v)
     then (\<lambda>a. if a - buf < n then m (file_addr fs m (v_data v) (unat (a - buf))) else m a, int (unat n))
     else (m, - 1))"
  by (rule aefs_read_result [OF assms])

text \<open>An image with one file of 1026 bytes: inode 2 with the blocks 0 and 1, the data from block 3
  on.\<close>

definition example_image :: mem where
  "example_image = (\<lambda>_. 0)(0xD0000006 := 3, 0xD0000422 := 2, 0xD0000423 := 4, 0xD0000426 := 1,
     0xD0000C00 := 65, 0xD0000FFF := 66, 0xD0001000 := 67, 0xD0001001 := 68)"

definition example_aefs :: aefs where
  "example_aefs = \<lparr>fs_paddr = 0x400000, fs_size = 0x2000, sb = 0xD0000000, root_inode = 0xD0000410, fs_start = 0xD0000000\<rparr>"

lemma example_file: "file_in example_aefs example_image {x. 0xD0000000 \<le> x \<and> x < 0xD0002000} 0xD0000420 1026"
proof -
  have b0: "block_addr example_aefs example_image 0xD0000420 0 = 0xD0000C00"
    and b1: "block_addr example_aefs example_image 0xD0000420 1 = 0xD0001000"
    by (simp_all add: block_addr_def get_block_def inode_block_def load16_def example_aefs_def example_image_def)
  show ?thesis
    unfolding file_in_def
  proof (intro conjI allI impI)
    fix j k :: nat
    assume jk: "5120 * j < 1026 \<and> k < 16"
    then have "j = 0" by simp
    with jk show "chain example_aefs example_image 0xD0000420 j + of_nat k \<in> {x. 0xD0000000 \<le> x \<and> x < 0xD0002000}"
      by (simp add: word_le_nat_alt word_less_nat_alt unat_add_nowrap unat_of_nat_small)
  next
    fix k :: nat
    assume k: "k < 1026"
    show "file_addr example_aefs example_image 0xD0000420 k \<in> {x. 0xD0000000 \<le> x \<and> x < 0xD0002000}"
    proof (cases "k < 1024")
      case True
      then have "file_addr example_aefs example_image 0xD0000420 k = 0xD0000C00 + of_nat k" using b0 by (simp add: file_addr_def)
      with True show ?thesis by (simp add: word_le_nat_alt word_less_nat_alt unat_add_nowrap unat_of_nat_small)
    next
      case False
      then have "k div 1024 = 1" "k mod 1024 = k - 1024" using k by (simp_all add: div_nat_eqI le_mod_geq)
      then have "file_addr example_aefs example_image 0xD0000420 k = 0xD0001000 + of_nat (k - 1024)" using b1 by (simp add: file_addr_def)
      with k show ?thesis by (simp add: word_le_nat_alt word_less_nat_alt unat_add_nowrap unat_of_nat_small)
    qed
  qed (simp_all add: example_aefs_def)
qed

theorem aefs_read_correct_witness:
  "snd (aefs_read example_aefs example_image \<lparr>v_op = Aefs_vnodeops, v_data = 0xD0000420\<rparr> 0xE0000000 4096) = 1026 \<and>
   fst (aefs_read example_aefs example_image \<lparr>v_op = Aefs_vnodeops, v_data = 0xD0000420\<rparr> 0xE0000000 4096) 0xE0000401 = 68"
proof -
  let ?v = "\<lparr>v_op = Aefs_vnodeops, v_data = 0xD0000420\<rparr> :: vnode"
  have sz: "(1026 :: u32) = minu 4096 (AEFS_INODE_SIZE example_image (v_data ?v))" by code_simp
  have fin: "file_in example_aefs example_image {x. 0xD0000000 \<le> x \<and> x < 0xD0002000} (v_data ?v) (unat (1026 :: u32))"
    using example_file by simp
  have buf: "x \<notin> {x. 0xD0000000 \<le> x \<and> x < 0xD0002000}" if "x - 0xE0000000 < (1026 :: u32)" for x
  proof
    assume "x \<in> {x. 0xD0000000 \<le> x \<and> x < 0xD0002000}"
    then have "unat x < 0xD0002000" "0xD0000000 \<le> unat x" by (simp_all add: word_le_nat_alt word_less_nat_alt)
    moreover have "unat (x - 0xE0000000) < 1026" using that by (simp add: word_less_nat_alt)
    ultimately show False using unat_sub_if' [of x "0xE0000000"] by (simp split: if_splits)
  qed
  have r: "AEFS_INODE_IS_REG example_image (v_data ?v)" by code_simp
  have f: "file_addr example_aefs example_image 0xD0000420 1025 = 0xD0001001" by code_simp
  from aefs_read_correct [OF sz fin buf] r f show ?thesis by (simp add: example_image_def)
qed

text \<open>\<open>aefs_lookup\<close> in a directory returns the inode of the first entry, in the order of the blocks
  and of the entries in them, whose name has the same first character as the name asked for, and -1
  when there is none or \<open>dir\<close> is no directory: \<open>strncmp\<close> never gets past the first character, so files
  are told apart by it alone.\<close>

lemma aefs_lookup_first_char:
  "aefs_lookup fs m dir name res =
    (if AEFS_INODE_IS_DIR m (v_data dir)
     then (case List.find (\<lambda>e. m e = first_char name)
                (dir_entries fs m (v_data dir) 0 (unat (div_ceil (AEFS_INODE_SIZE m (v_data dir)) 1024))) of
             Some e \<Rightarrow> (\<lparr>v_op = Aefs_vnodeops, v_data = get_inode fs (entry_inode m e)\<rparr>, 0)
           | None \<Rightarrow> (res, - 1))
     else (res, - 1))"
  using lookup_loop_eq [of 0 "div_ceil (AEFS_INODE_SIZE m (v_data dir)) 1024" "v_data dir" fs m "v_data dir" name]
  by (simp add: aefs_lookup_def Let_def split: option.splits)

end
