(* ===== verification/Heap_Interface.thy ===== *)
theory Heap_Interface
  imports Prelude
begin

text \<open>
  What the kernel relies on when it calls \<open>kmalloc\<close> and \<open>kfree\<close>: a contract over the set of live
  blocks and the bytes they occupy, and its consequence for any sequence of calls.
\<close>

datatype heap_op = Request u32 | Release nat

text \<open>A sequence of calls; the state carries the live blocks (address, size asked for), the latest
  first. \<open>Release i\<close> gives back the \<open>i\<close>-th of them.\<close>

fun run_heap :: "('s \<Rightarrow> u32 \<Rightarrow> ('s \<times> u32) option) \<Rightarrow> ('s \<Rightarrow> u32 \<Rightarrow> 's option) \<Rightarrow> heap_op list \<Rightarrow>
    's \<times> (u32 \<times> u32) list \<Rightarrow> ('s \<times> (u32 \<times> u32) list) option" where
  "run_heap alloc free [] st = Some st"
| "run_heap alloc free (Request n # ops) (s, bs) =
     Option.bind (alloc s n) (\<lambda>(s', p). run_heap alloc free ops (s', if p = 0 then bs else (p, n) # bs))"
| "run_heap alloc free (Release i # ops) (s, bs) =
     (if i < length bs
      then Option.bind (free s (fst (bs ! i))) (\<lambda>s'. run_heap alloc free ops (s', take i bs @ drop (Suc i) bs))
      else run_heap alloc free ops (s, bs))"

definition block_bytes :: "u32 \<times> u32 \<Rightarrow> nat set" where
  "block_bytes b = {unat (fst b) ..< unat (fst b) + unat (snd b)}"

lemma remove_nth_facts:
  assumes "i < length bs" and "distinct (map f bs)"
  shows "distinct (map f (take i bs @ drop (Suc i) bs))"
    and "f ` set (take i bs @ drop (Suc i) bs) = f ` set bs - {f (bs ! i)}"
proof -
  have bs: "bs = take i bs @ bs ! i # drop (Suc i) bs" using assms(1) by (rule id_take_nth_drop)
  then have "distinct (map f (take i bs @ bs ! i # drop (Suc i) bs))" using assms(2) by simp
  then show "distinct (map f (take i bs @ drop (Suc i) bs))" by auto
  have "f ` set bs = f ` set (take i bs @ bs ! i # drop (Suc i) bs)" using bs by simp
  then show "f ` set (take i bs @ drop (Suc i) bs) = f ` set bs - {f (bs ! i)}"
    using \<open>distinct (map f (take i bs @ bs ! i # drop (Suc i) bs))\<close> by (simp add: image_Un)
qed

locale heap_allocator =
  fixes inv :: "'s \<Rightarrow> u32 set \<Rightarrow> bool"
    and extent :: "'s \<Rightarrow> u32 \<Rightarrow> nat set"
    and alloc :: "'s \<Rightarrow> u32 \<Rightarrow> ('s \<times> u32) option"
    and free :: "'s \<Rightarrow> u32 \<Rightarrow> 's option"
    and limit :: u32
  assumes alloc_returns: "inv s L \<Longrightarrow> n \<le> limit \<Longrightarrow> \<exists>s' p. alloc s n = Some (s', p)"
    and alloc_null: "inv s L \<Longrightarrow> n \<le> limit \<Longrightarrow> alloc s n = Some (s', 0) \<Longrightarrow> inv s' L"
    and alloc_block: "inv s L \<Longrightarrow> n \<le> limit \<Longrightarrow> alloc s n = Some (s', p) \<Longrightarrow> p \<noteq> 0 \<Longrightarrow>
        p \<notin> L \<and> inv s' (insert p L) \<and> block_bytes (p, n) \<subseteq> extent s' p"
    and alloc_keeps: "inv s L \<Longrightarrow> n \<le> limit \<Longrightarrow> alloc s n = Some (s', p) \<Longrightarrow> q \<in> L \<Longrightarrow>
        extent s' q = extent s q"
    and free_block: "inv s L \<Longrightarrow> p \<in> L \<Longrightarrow>
        \<exists>s'. free s p = Some s' \<and> inv s' (L - {p}) \<and> (\<forall>q \<in> L - {p}. extent s' q = extent s q)"
    and disjoint_blocks: "inv s L \<Longrightarrow> p \<in> L \<Longrightarrow> q \<in> L \<Longrightarrow> p \<noteq> q \<Longrightarrow> extent s p \<inter> extent s q = {}"
begin

definition tracks :: "'s \<Rightarrow> (u32 \<times> u32) list \<Rightarrow> bool" where
  "tracks s bs \<longleftrightarrow> distinct (map fst bs) \<and> inv s (fst ` set bs) \<and>
     (\<forall>b \<in> set bs. block_bytes b \<subseteq> extent s (fst b))"

lemma tracks_disjoint:
  assumes "tracks s bs" and "i < j" and "j < length bs"
  shows "block_bytes (bs ! i) \<inter> block_bytes (bs ! j) = {}"
proof -
  have m: "bs ! i \<in> set bs" "bs ! j \<in> set bs" using assms by auto
  have "map fst bs ! i \<noteq> map fst bs ! j"
    using assms nth_eq_iff_index_eq [of "map fst bs" i j] by (simp add: tracks_def)
  then have "extent s (fst (bs ! i)) \<inter> extent s (fst (bs ! j)) = {}"
    using assms m by (intro disjoint_blocks [of s "fst ` set bs"]) (auto simp: tracks_def)
  then show ?thesis using assms(1) m unfolding tracks_def by blast
qed

lemma tracks_alloc:
  assumes t: "tracks s bs" and n: "n \<le> limit" and a: "alloc s n = Some (s', p)"
  shows "tracks s' (if p = 0 then bs else (p, n) # bs)"
proof -
  have i: "inv s (fst ` set bs)" using t by (simp add: tracks_def)
  have old: "\<forall>b \<in> set bs. block_bytes b \<subseteq> extent s' (fst b)"
    using t alloc_keeps [OF i n a] by (auto simp: tracks_def)
  show ?thesis
  proof (cases "p = 0")
    case True
    with old t alloc_null [OF i n] a show ?thesis by (simp add: tracks_def)
  next
    case False
    with old t alloc_block [OF i n a False] show ?thesis by (auto simp: tracks_def)
  qed
qed

lemma tracks_free:
  assumes t: "tracks s bs" and i: "i < length bs"
  obtains s' where "free s (fst (bs ! i)) = Some s'" and "tracks s' (take i bs @ drop (Suc i) bs)"
proof -
  let ?p = "fst (bs ! i)" and ?bs = "take i bs @ drop (Suc i) bs"
  have inv: "inv s (fst ` set bs)" and d: "distinct (map fst bs)" using t by (simp_all add: tracks_def)
  have p: "?p \<in> fst ` set bs" using i by simp
  obtain s' where s': "free s ?p = Some s'" "inv s' (fst ` set bs - {?p})"
      "\<forall>q \<in> fst ` set bs - {?p}. extent s' q = extent s q"
    using free_block [OF inv p] by blast
  note r = remove_nth_facts [OF i d]
  have "fst b \<in> fst ` set bs - {?p}" "b \<in> set bs" if "b \<in> set ?bs" for b
    using that r(2) by (blast, auto dest: in_set_takeD in_set_dropD)
  with s'(3) t have "\<forall>b \<in> set ?bs. block_bytes b \<subseteq> extent s' (fst b)" by (simp add: tracks_def)
  with r s'(2) have "tracks s' ?bs" by (simp add: tracks_def)
  with s'(1) that show ?thesis by blast
qed

text \<open>Every call of a sequence returns, and the blocks that are live afterwards are pairwise
  disjoint.\<close>

lemma run_heap_tracks:
  assumes "tracks s bs" and "\<forall>n. Request n \<in> set ops \<longrightarrow> n \<le> limit"
  shows "\<exists>s' bs'. run_heap alloc free ops (s, bs) = Some (s', bs') \<and> tracks s' bs'"
  using assms
proof (induction ops arbitrary: s bs)
  case (Cons op ops)
  show ?case
  proof (cases op)
    case (Request n)
    then have n: "n \<le> limit" using Cons.prems(2) by simp
    obtain s' p where a: "alloc s n = Some (s', p)"
      using alloc_returns [OF _ n] Cons.prems(1) unfolding tracks_def by blast
    with Cons.IH [OF tracks_alloc [OF Cons.prems(1) n a]] Cons.prems(2) Request show ?thesis by simp
  next
    case (Release i)
    show ?thesis
    proof (cases "i < length bs")
      case True
      from tracks_free [OF Cons.prems(1) True] Cons.IH Cons.prems(2) Release True show ?thesis
        by (metis (no_types, lifting) bind.bind_lunit list.set_intros(2) run_heap.simps(3))
    next
      case False
      with Cons.IH [OF Cons.prems(1)] Cons.prems(2) Release show ?thesis by simp
    qed
  qed
qed auto

lemma run_heap_disjoint:
  assumes "inv s {}" and "\<forall>n. Request n \<in> set ops \<longrightarrow> n \<le> limit"
  shows "\<exists>s' bs. run_heap alloc free ops (s, []) = Some (s', bs) \<and>
     (\<forall>i j. i < j \<and> j < length bs \<longrightarrow> block_bytes (bs ! i) \<inter> block_bytes (bs ! j) = {})"
proof -
  have "tracks s []" using assms(1) by (simp add: tracks_def)
  from run_heap_tracks [OF this assms(2)] tracks_disjoint show ?thesis by blast
qed

end

end
