(* ===== verification/Ring.thy ===== *)
theory Ring
  imports Prelude
begin

text \<open>
  Circular lists ordered by address, as \<open>kmalloc.c\<close> keeps its free blocks: every node of a finite
  set points to the next greater one, and the greatest points back to the smallest. \<open>cnext\<close> is that
  successor and \<open>arc\<close> the nodes a walk meets; the lemmas describe walking the ring and inserting or
  removing one node.
\<close>

definition cnext :: "'a::linorder set \<Rightarrow> 'a \<Rightarrow> 'a" where
  "cnext F p = (if \<exists>q\<in>F. p < q then Min {q \<in> F. p < q} else Min F)"

definition arc :: "'a::linorder set \<Rightarrow> 'a \<Rightarrow> 'a \<Rightarrow> 'a set" where
  "arc F p f = {q \<in> F. if p \<le> f then p \<le> q \<and> q \<le> f else p \<le> q \<or> q \<le> f}"

lemma cnext_iff:
  assumes "finite F" and "F \<noteq> {}"
  shows "cnext F p = q \<longleftrightarrow> q \<in> F \<and>
    (p < q \<and> (\<forall>r\<in>F. p < r \<longrightarrow> q \<le> r) \<or> q \<le> p \<and> (\<forall>r\<in>F. r \<le> p \<and> q \<le> r))"
proof (cases "\<exists>q\<in>F. p < q")
  case True
  then have ne: "{q \<in> F. p < q} \<noteq> {}" and fin: "finite {q \<in> F. p < q}" using assms by auto
  have "cnext F p = Min {q \<in> F. p < q}" using True by (simp add: cnext_def)
  then have "cnext F p = q \<longleftrightarrow> q \<in> {q \<in> F. p < q} \<and> (\<forall>r\<in>{q \<in> F. p < q}. q \<le> r)"
    using Min_eq_iff [OF fin ne, of q] by auto
  then show ?thesis using True by fastforce
next
  case False
  then have "cnext F p = Min F" by (simp add: cnext_def)
  then have "cnext F p = q \<longleftrightarrow> q \<in> F \<and> (\<forall>r\<in>F. q \<le> r)"
    using Min_eq_iff [OF assms, of q] by auto
  then show ?thesis using False by (auto simp: not_less)
qed

lemma cnext_in: "finite F \<Longrightarrow> F \<noteq> {} \<Longrightarrow> cnext F p \<in> F"
  using cnext_iff [of F p "cnext F p"] by blast

lemma cnext_self: "finite F \<Longrightarrow> p \<in> F \<Longrightarrow> cnext F p = p \<Longrightarrow> F = {p}"
  using cnext_iff [of F p p] by (auto intro: order.antisym)

lemma arc_all:
  assumes "finite F" and "f \<in> F"
  shows "arc F (cnext F f) f = F"
  using assms cnext_iff [of F f "cnext F f"] by (fastforce simp: arc_def)

lemma arc_step:
  assumes "finite F" and "p \<in> F" and "f \<in> F" and "p \<noteq> f"
  shows "arc F (cnext F p) f = arc F p f - {p}"
proof -
  have c: "cnext F p \<in> F" "p < cnext F p \<and> (\<forall>r\<in>F. p < r \<longrightarrow> cnext F p \<le> r) \<or>
      cnext F p \<le> p \<and> (\<forall>r\<in>F. r \<le> p \<and> cnext F p \<le> r)"
    using assms cnext_iff [of F p "cnext F p"] by auto
  show ?thesis
  proof (cases "p < cnext F p")
    case True
    then have n: "r \<in> F \<Longrightarrow> cnext F p \<le> r \<longleftrightarrow> p < r" for r using c by (auto dest: less_le_trans)
    have "r \<in> F \<Longrightarrow> p \<le> r \<longleftrightarrow> r = p \<or> p < r" for r by auto
    with n assms(3,4) show ?thesis by (auto simp: arc_def not_le)
  next
    case False
    then have all: "r \<le> p" "cnext F p \<le> r" if "r \<in> F" for r using c that by auto
    have "f < p" using all(1) [OF assms(3)] assms(4) by simp
    moreover have "p \<le> r \<longleftrightarrow> r = p" if "r \<in> F" for r using all(1) [OF that] by auto
    ultimately show ?thesis using all(2) assms(2,3) by (auto simp: arc_def)
  qed
qed

lemma arc_ends: "p \<in> F \<Longrightarrow> f \<in> F \<Longrightarrow> p \<in> arc F p f \<and> f \<in> arc F p f"
  by (auto simp: arc_def)

lemma arc_subset: "arc F p f \<subseteq> F"
  by (auto simp: arc_def)

text \<open>Where a new node goes.\<close>

lemma pred_exists:
  assumes "finite F" and "F \<noteq> {}" and "b \<notin> F"
  obtains x where "x \<in> F" and "cnext (insert b F) x = b"
proof (cases "\<exists>q\<in>F. q < b")
  case True
  then have ne: "{q \<in> F. q < b} \<noteq> {}" "finite {q \<in> F. q < b}" using assms by auto
  obtain x where x: "x \<in> F" "x < b" "\<And>r. r \<in> F \<Longrightarrow> r < b \<Longrightarrow> r \<le> x"
    using Max_in [OF ne(2,1)] Max_ge [OF ne(2)] by blast
  have "b \<le> r" if "r \<in> insert b F" "x < r" for r using x(3) [of r] that by (auto simp: not_le [symmetric])
  then have "cnext (insert b F) x = b" using assms(1) x by (subst cnext_iff) auto
  with x(1) that show ?thesis by blast
next
  case False
  let ?x = "Max F"
  have x: "?x \<in> F" "\<forall>r\<in>F. r \<le> ?x" using assms by auto
  have "\<forall>r\<in>F. b < r" using False assms(3) by (metis linorder_less_linear)
  with x have "cnext (insert b F) ?x = b" using assms by (subst cnext_iff) (auto simp: less_imp_le)
  with x(1) that show ?thesis by blast
qed

lemma pred_condition:
  assumes "finite F" and "p \<in> F" and "b \<notin> F"
  shows "p < b \<and> b < cnext F p \<or> cnext F p \<le> p \<and> (p < b \<or> b < cnext F p) \<longleftrightarrow> cnext (insert b F) p = b"
proof -
  have c: "cnext F p \<in> F" "p < cnext F p \<and> (\<forall>r\<in>F. p < r \<longrightarrow> cnext F p \<le> r) \<or>
      cnext F p \<le> p \<and> (\<forall>r\<in>F. r \<le> p \<and> cnext F p \<le> r)"
    using assms cnext_iff [of F p "cnext F p"] by auto
  have eq: "cnext (insert b F) p = b \<longleftrightarrow>
    p < b \<and> (\<forall>r\<in>F. p < r \<longrightarrow> b \<le> r) \<or> b \<le> p \<and> (\<forall>r\<in>F. r \<le> p \<and> b \<le> r)"
    using assms(1) by (subst cnext_iff) auto
  have ne: "b \<noteq> p" "b \<noteq> cnext F p" using assms c(1) by auto
  show ?thesis
  proof (cases "p < cnext F p")
    case True
    with c have l: "\<forall>r\<in>F. p < r \<longrightarrow> cnext F p \<le> r" by auto
    have "(\<forall>r\<in>F. p < r \<longrightarrow> b \<le> r) \<longleftrightarrow> b < cnext F p"
      using l c(1) True ne(2) by (auto intro: order.strict_trans2 less_imp_le simp: order.strict_iff_order)
    moreover have "\<not> (\<forall>r\<in>F. r \<le> p \<and> b \<le> r)" using c(1) True by (auto simp: not_le)
    ultimately show ?thesis unfolding eq using True by auto
  next
    case False
    with c have l: "\<forall>r\<in>F. r \<le> p \<and> cnext F p \<le> r" by auto
    have "(\<forall>r\<in>F. p < r \<longrightarrow> b \<le> r)" using l by (auto simp: not_less [symmetric])
    moreover have "b \<le> p \<and> (\<forall>r\<in>F. r \<le> p \<and> b \<le> r) \<longleftrightarrow> b < cnext F p"
      using l c(1) ne(2) by (auto simp: order.strict_iff_order intro: order_trans)
    ultimately show ?thesis unfolding eq using False by auto
  qed
qed

lemma pred_unique:
  assumes "finite F" and "x \<in> F" and "y \<in> F" and "b \<notin> F"
    and "cnext (insert b F) x = b" and "cnext (insert b F) y = b"
  shows "x = y"
proof -
  have "p \<in> F \<Longrightarrow> cnext (insert b F) p = b \<Longrightarrow>
    p < b \<and> (\<forall>r\<in>F. p < r \<longrightarrow> b \<le> r) \<or> b \<le> p \<and> (\<forall>r\<in>F. r \<le> p \<and> b \<le> r)" for p
    using assms(1) cnext_iff [of "insert b F" p b] by auto
  from this [OF assms(2,5)] this [OF assms(3,6)] assms(2-4) show ?thesis
    by (metis leD linorder_less_linear order.antisym)
qed

lemma cnext_insert_new:
  assumes "finite F" and "x \<in> F" and "b \<notin> F" and "cnext (insert b F) x = b"
  shows "cnext (insert b F) b = cnext F x"
proof -
  have x: "x < b \<and> (\<forall>r\<in>F. x < r \<longrightarrow> b \<le> r) \<or> b \<le> x \<and> (\<forall>r\<in>F. r \<le> x \<and> b \<le> r)"
    using assms cnext_iff [of "insert b F" x b] by auto
  have c: "cnext F x \<in> F" "x < cnext F x \<and> (\<forall>r\<in>F. x < r \<longrightarrow> cnext F x \<le> r) \<or>
      cnext F x \<le> x \<and> (\<forall>r\<in>F. r \<le> x \<and> cnext F x \<le> r)"
    using assms cnext_iff [of F x "cnext F x"] by auto
  let ?c = "cnext F x"
  have ne: "?c \<noteq> b" using c(1) assms(3) by blast
  have "b < ?c \<and> (\<forall>r\<in>insert b F. b < r \<longrightarrow> ?c \<le> r) \<or> ?c \<le> b \<and> (\<forall>r\<in>insert b F. r \<le> b \<and> ?c \<le> r)"
    using x
  proof
    assume l: "x < b \<and> (\<forall>r\<in>F. x < r \<longrightarrow> b \<le> r)"
    from c(2) show ?thesis
    proof
      assume "x < ?c \<and> (\<forall>r\<in>F. x < r \<longrightarrow> ?c \<le> r)"
      with l c(1) ne show ?thesis by (auto dest: less_trans simp: order.strict_iff_order)
    next
      assume "?c \<le> x \<and> (\<forall>r\<in>F. r \<le> x \<and> ?c \<le> r)"
      with l show ?thesis by (auto intro: less_imp_le dest: le_less_trans)
    qed
  next
    assume l: "b \<le> x \<and> (\<forall>r\<in>F. r \<le> x \<and> b \<le> r)"
    with c(1) ne have "b < ?c" by (auto simp: order.strict_iff_order)
    moreover have "\<not> x < ?c" using l c(1) by (auto simp: not_less)
    with c(2) have "\<forall>r\<in>F. ?c \<le> r" by auto
    ultimately show ?thesis by auto
  qed
  with c(1) assms(1) show ?thesis by (subst cnext_iff) auto
qed

lemma cnext_insert_old:
  assumes "finite F" and "b \<notin> F" and "q \<in> F" and "cnext (insert b F) q \<noteq> b"
  shows "cnext (insert b F) q = cnext F q"
proof -
  let ?c = "cnext (insert b F) q"
  have i: "?c \<in> insert b F" "q < ?c \<and> (\<forall>r\<in>insert b F. q < r \<longrightarrow> ?c \<le> r) \<or>
      ?c \<le> q \<and> (\<forall>r\<in>insert b F. r \<le> q \<and> ?c \<le> r)"
    using assms(1) cnext_iff [of "insert b F" q ?c] by auto
  then have "?c \<in> F" "q < ?c \<and> (\<forall>r\<in>F. q < r \<longrightarrow> ?c \<le> r) \<or> ?c \<le> q \<and> (\<forall>r\<in>F. r \<le> q \<and> ?c \<le> r)"
    using assms(4) by auto
  then have "cnext F q = ?c" using assms(1) by (subst cnext_iff) auto
  then show ?thesis by simp
qed

text \<open>A pointer structure that is a ring over \<open>F\<close>, and the two pointer updates.\<close>

definition ring :: "('a \<Rightarrow> 'a) \<Rightarrow> 'a::linorder set \<Rightarrow> bool" where
  "ring nx F \<longleftrightarrow> finite F \<and> F \<noteq> {} \<and> (\<forall>q\<in>F. nx q = cnext F q)"

lemma ring_insert:
  assumes "ring nx F" and "x \<in> F" and "b \<notin> F" and "cnext (insert b F) x = b"
  shows "ring (nx(b := nx x, x := b)) (insert b F)"
proof -
  have fin: "finite F" and nx: "q \<in> F \<Longrightarrow> nx q = cnext F q" for q using assms(1) by (auto simp: ring_def)
  have "(nx(b := nx x, x := b)) q = cnext (insert b F) q" if q: "q \<in> insert b F" for q
  proof -
    consider (1) "q = b" | (2) "q = x" | (3) "q \<in> F" "q \<noteq> x" using q by auto
    then show ?thesis
    proof cases
      case 1
      with assms cnext_insert_new [OF fin assms(2-4)] nx [OF assms(2)] show ?thesis by auto
    next
      case 2
      with assms show ?thesis by simp
    next
      case 3
      then have "cnext (insert b F) q \<noteq> b" using pred_unique [OF fin] assms(2-4) by blast
      with 3 assms(3) nx cnext_insert_old [OF fin assms(3)] show ?thesis by auto
    qed
  qed
  with fin show ?thesis by (simp add: ring_def)
qed

lemma ring_remove:
  assumes "ring nx F" and "x \<in> F" and "nx x = y" and "y \<noteq> x"
  shows "ring (nx(x := nx y)) (F - {y})"
proof -
  let ?G = "F - {y}"
  have fin: "finite F" and nx: "q \<in> F \<Longrightarrow> nx q = cnext F q" for q using assms(1) by (auto simp: ring_def)
  have x: "x \<in> ?G" and y: "y \<in> F" using assms nx [OF assms(2)] cnext_in [OF fin] by auto
  have F: "F = insert y ?G" "y \<notin> ?G" "finite ?G" using y fin by auto
  have cx: "cnext (insert y ?G) x = y" using nx [OF assms(2)] assms(3) F(1) by simp
  have cy: "cnext ?G x = nx y"
    using cnext_insert_new [OF F(3) x F(2) cx] nx [OF y] F(1) by simp
  have "(nx(x := nx y)) q = cnext ?G q" if q: "q \<in> ?G" for q
  proof (cases "q = x")
    case False
    then have "cnext (insert y ?G) q \<noteq> y" using pred_unique [OF F(3) q x F(2) _ cx] by blast
    then have "cnext F q = cnext ?G q" using cnext_insert_old [OF F(3,2) q] F(1) by simp
    with False q nx show ?thesis by simp
  qed (use cy in simp)
  with F(3) x show ?thesis by (auto simp: ring_def)
qed

end
