(* ===== verification/Kmalloc.thy ===== *)
theory Kmalloc
  imports Heap_Interface Ring Paging_Kernel
begin

text \<open>
  The kernel heap of \<open>kmalloc.c\<close>: the allocator of Kernighan and Ritchie over a circular list of free
  blocks ordered by address, fed with pages by \<open>acquire_more_heap\<close>. The model keeps the headers in a
  store indexed by their address (\<open>h_next\<close> and \<open>h_size\<close>, in units of 8 bytes), the pointer \<open>freep\<close>,
  the address the linker gave the static header \<open>base\<close>, and the paging state. A loop that does not
  end is \<open>None\<close>.
\<close>

record kheap =
  kpaging :: paging
  kbase :: u32
  freep :: u32
  h_next :: "u32 \<Rightarrow> u32"
  h_size :: "u32 \<Rightarrow> u32"

abbreviation (input) MIN_BLOCK_SIZE :: u32 where "MIN_BLOCK_SIZE \<equiv> 1024"

text \<open>\<open>sizeof(header_t)\<close> is 8, so \<open>p + n\<close> on headers is \<open>p + 8 * n\<close>.\<close>

definition set_next :: "u32 \<Rightarrow> u32 \<Rightarrow> kheap \<Rightarrow> kheap" where
  "set_next p q s = s\<lparr>h_next := (h_next s)(p := q)\<rparr>"

definition set_size :: "u32 \<Rightarrow> u32 \<Rightarrow> kheap \<Rightarrow> kheap" where
  "set_size p n s = s\<lparr>h_size := (h_size s)(p := n)\<rparr>"

section \<open>kfree\<close>

partial_function (option) kfree_find :: "kheap \<Rightarrow> u32 \<Rightarrow> u32 \<Rightarrow> u32 option" where
  "kfree_find s bp p =
     (if bp > p \<and> bp < h_next s p then Some p
      else if p \<ge> h_next s p \<and> (bp > p \<or> bp < h_next s p) then Some p
      else kfree_find s bp (h_next s p))"

declare kfree_find.simps [code]

definition kfree :: "kheap \<Rightarrow> u32 \<Rightarrow> kheap option" where
  "kfree s ap =
     (if ap = 0 then Some s
      else
        (let bp = ap - 8
         in Option.bind (kfree_find s bp (freep s)) (\<lambda>p.
              let s = (if bp + 8 * h_size s bp = h_next s p
                       then (let s = set_size bp (h_size s bp + h_size s (h_next s p)) s
                             in set_next bp (h_next s (h_next s p)) s)
                       else set_next bp (h_next s p) s);
                  s = (if p + 8 * h_size s p = bp
                       then (let s = set_size p (h_size s p + h_size s bp) s
                             in set_next p (h_next s bp) s)
                       else set_next p bp s)
              in Some (s\<lparr>freep := p\<rparr>))))"

section \<open>kmalloc\<close>

definition acquire_more_heap :: "kheap \<Rightarrow> u32 \<Rightarrow> (kheap \<times> u32) option" where
  "acquire_more_heap s nunits =
     (let nunits = (if nunits < MIN_BLOCK_SIZE then MIN_BLOCK_SIZE else nunits);
          page_frames = div_ceil (nunits * 8) FOUR_KB;
          bytes = page_frames * FOUR_KB;
          (pa, paddr) = pfa_allocate (pfa_st (kpaging s)) page_frames;
          pg = (kpaging s)\<lparr>pfa_st := pa\<rparr>
      in if paddr = 0 then Some (s\<lparr>kpaging := pg\<rparr>, 0)
         else
           (let (pg, vaddr) = pdt_kernel_find_next_vaddr pg bytes
            in if vaddr = 0 then Some (s\<lparr>kpaging := pg\<rparr>, 0)
               else Option.bind (pdt_map_kernel_memory pg paddr vaddr bytes PAGING_READ_WRITE PAGING_PL0)
                 (\<lambda>(pg, mapped_mem).
                   let s = s\<lparr>kpaging := pg\<rparr>
                   in if mapped_mem < bytes then Some (s, 0)
                      else Option.bind (kfree (set_size vaddr (bytes div 8) s) (vaddr + 8))
                             (\<lambda>s. Some (s, freep s)))))"

text \<open>The block \<open>p\<close>, found behind \<open>prevp\<close>, is big enough.\<close>

definition kmalloc_take :: "kheap \<Rightarrow> u32 \<Rightarrow> u32 \<Rightarrow> u32 \<Rightarrow> kheap \<times> u32" where
  "kmalloc_take s nunits prevp p =
     (let (s, p) =
        (if h_size s p = nunits then (set_next prevp (h_next s p) s, p)
         else (let s = set_size p (h_size s p - nunits) s;
                   p = p + 8 * h_size s p
               in (set_size p nunits s, p)))
      in (s\<lparr>freep := prevp\<rparr>, p + 8))"

partial_function (option) kmalloc_loop :: "kheap \<Rightarrow> u32 \<Rightarrow> u32 \<Rightarrow> u32 \<Rightarrow> (kheap \<times> u32) option" where
  "kmalloc_loop s nunits prevp p =
     (if h_size s p \<ge> nunits then Some (kmalloc_take s nunits prevp p)
      else if p = freep s
      then Option.bind (acquire_more_heap s nunits)
             (\<lambda>(s, p). if p = 0 then Some (s, 0) else kmalloc_loop s nunits p (h_next s p))
      else kmalloc_loop s nunits p (h_next s p))"

declare kmalloc_loop.simps [code]

definition kmalloc_start :: "kheap \<Rightarrow> kheap" where
  "kmalloc_start s =
     (if freep s = 0 then set_size (kbase s) 0 (set_next (kbase s) (kbase s) (s\<lparr>freep := kbase s\<rparr>)) else s)"

definition kmalloc :: "kheap \<Rightarrow> u32 \<Rightarrow> (kheap \<times> u32) option" where
  "kmalloc s nbytes =
     (if nbytes = 0 then Some (s, 0)
      else
        (let s = kmalloc_start s;
             nunits = (nbytes + 8 - 1) div 8 + 1;
             prevp = freep s
         in kmalloc_loop s nunits prevp (h_next s prevp)))"

section \<open>The invariant\<close>

lemma header_fields [simp]:
  "h_next (set_size p n s) = h_next s" "h_size (set_size p n s) = (h_size s)(p := n)"
  "kpaging (set_size p n s) = kpaging s" "kbase (set_size p n s) = kbase s" "freep (set_size p n s) = freep s"
  "h_next (set_next p q s) = (h_next s)(p := q)" "h_size (set_next p q s) = h_size s"
  "kpaging (set_next p q s) = kpaging s" "kbase (set_next p q s) = kbase s" "freep (set_next p q s) = freep s"
  by (simp_all add: set_size_def set_next_def)

definition block_end :: "kheap \<Rightarrow> u32 \<Rightarrow> nat" where
  "block_end s a = unat a + 8 * unat (h_size s a)"

definition heap_bytes :: "kheap \<Rightarrow> u32 set \<Rightarrow> nat set" where
  "heap_bytes s A = (\<Union>a\<in>A. {unat a ..< block_end s a})"

text \<open>The blocks at \<open>A\<close> follow each other without overlap; only \<open>base\<close> is empty, and no block touches
  it from below.\<close>

definition blocks_ok :: "kheap \<Rightarrow> u32 set \<Rightarrow> bool" where
  "blocks_ok s A \<longleftrightarrow> kbase s \<in> A \<and> (\<forall>a\<in>A. h_size s a = 0 \<longleftrightarrow> a = kbase s) \<and> 0 \<notin> A \<and>
     (\<forall>a\<in>A. \<forall>b\<in>A. a < b \<longrightarrow> block_end s a \<le> unat b) \<and>
     (\<forall>a\<in>A. block_end s a \<le> 2 ^ 32 \<and> (block_end s a = unat (kbase s) \<longrightarrow> a = kbase s))"

text \<open>\<open>F\<close> are the free blocks, \<open>L\<close> the headers of the live ones.\<close>

definition heap_ok :: "kheap \<Rightarrow> u32 set \<Rightarrow> u32 set \<Rightarrow> bool" where
  "heap_ok s F L \<longleftrightarrow> ring (h_next s) F \<and> kbase s \<in> F \<and> F \<inter> L = {} \<and> blocks_ok s (F \<union> L) \<and>
     (\<forall>a\<in>L. 2 \<le> unat (h_size s a))"

lemma blocks_okD:
  assumes "blocks_ok s A"
  shows "a \<in> A \<Longrightarrow> b \<in> A \<Longrightarrow> a < b \<Longrightarrow> block_end s a \<le> unat b"
    and "a \<in> A \<Longrightarrow> block_end s a \<le> 2 ^ 32" and "a \<in> A \<Longrightarrow> a \<noteq> 0"
    and "a \<in> A \<Longrightarrow> block_end s a = unat (kbase s) \<Longrightarrow> a = kbase s"
    and "h_size s (kbase s) = 0" and "kbase s \<in> A" and "a \<in> A \<Longrightarrow> h_size s a = 0 \<Longrightarrow> a = kbase s"
  using assms unfolding blocks_ok_def by blast+

lemma blocks_okI:
  assumes "kbase s \<in> A" and "\<And>a. a \<in> A \<Longrightarrow> h_size s a = 0 \<longleftrightarrow> a = kbase s" and "\<And>a. a \<in> A \<Longrightarrow> a \<noteq> 0"
    and "\<And>a b. a \<in> A \<Longrightarrow> b \<in> A \<Longrightarrow> a < b \<Longrightarrow> block_end s a \<le> unat b"
    and "\<And>a. a \<in> A \<Longrightarrow> block_end s a \<le> 2 ^ 32 \<and> (block_end s a = unat (kbase s) \<longrightarrow> a = kbase s)"
  shows "blocks_ok s A"
  using assms unfolding blocks_ok_def by blast

lemma heap_okD:
  assumes "heap_ok s F L"
  shows "ring (h_next s) F" and "kbase s \<in> F" and "F \<inter> L = {}" and "blocks_ok s (F \<union> L)"
    and "a \<in> L \<Longrightarrow> 2 \<le> unat (h_size s a)" and "finite F" and "p \<in> F \<Longrightarrow> h_next s p = cnext F p"
    and "p \<in> F \<Longrightarrow> h_next s p \<in> F"
  using assms by (auto simp: heap_ok_def ring_def cnext_in)

text \<open>The address just behind a block, computed on words.\<close>

lemma block_end_word:
  assumes "block_end s a \<le> 2 ^ 32" and "q \<noteq> 0"
  shows "a + 8 * h_size s a = q \<longleftrightarrow> block_end s a = unat q"
proof -
  have "unat (a + 8 * h_size s a) = block_end s a mod 2 ^ 32"
    by (simp add: unat_word_ariths block_end_def mod_add_right_eq)
  then have "a + 8 * h_size s a = q \<longleftrightarrow> block_end s a mod 2 ^ 32 = unat q"
    by (simp add: word_unat_eq_iff)
  moreover have "block_end s a = 2 ^ 32 \<Longrightarrow> unat q \<noteq> 0" using assms(2) by (simp add: unat_eq_zero)
  moreover have "unat q < 2 ^ 32" using unat_lt_u32 [of q] by simp
  ultimately show ?thesis using assms(1) by (metis le_neq_implies_less mod_less mod_self)
qed

section \<open>Walking the free list\<close>

lemma kfree_find_result:
  assumes "ring (h_next s) F" and "p \<in> F" and "bp \<notin> F" and "pr \<in> F" and "cnext (insert bp F) pr = bp"
  shows "kfree_find s bp p = Some pr"
  using assms(2)
proof (induction "card (arc F p pr)" arbitrary: p rule: less_induct)
  case (less p)
  have fin: "finite F" and nx: "h_next s p = cnext F p"
    using assms(1) less.prems by (auto simp: ring_def)
  have exit: "(bp > p \<and> bp < h_next s p \<or> p \<ge> h_next s p \<and> (bp > p \<or> bp < h_next s p)) \<longleftrightarrow> p = pr"
    using pred_condition [OF fin less.prems assms(3)] pred_unique [OF fin less.prems assms(4,3) _ assms(5)]
      assms(5) unfolding nx by blast
  show ?case
  proof (cases "p = pr")
    case True
    with exit show ?thesis by (subst kfree_find.simps) auto
  next
    case False
    have step: "arc F (cnext F p) pr = arc F p pr - {p}" by (rule arc_step [OF fin less.prems assms(4) False])
    have "p \<in> arc F p pr" "finite (arc F p pr)"
      using arc_ends [OF less.prems assms(4)] fin finite_subset [OF arc_subset] by auto
    then have "card (arc F (cnext F p) pr) < card (arc F p pr)"
      unfolding step by (simp add: card_Diff1_less del: card_Diff_insert)
    moreover have "cnext F p \<in> F" using cnext_in [OF fin] less.prems by blast
    ultimately have "kfree_find s bp (h_next s p) = Some pr" unfolding nx by (rule less.hyps)
    with exit False show ?thesis by (subst kfree_find.simps) auto
  qed
qed

text \<open>The search of \<open>kmalloc\<close> stops at a block that is big enough, if the rest of the round has one.\<close>

lemma kmalloc_loop_fit:
  assumes "ring (h_next s) F" and "prevp \<in> F" and "p = h_next s prevp" and "freep s \<in> F"
    and "q \<in> arc F p (freep s)" and "nunits \<le> h_size s q"
  obtains prevp' p' where "prevp' \<in> F" "p' = h_next s prevp'" "nunits \<le> h_size s p'"
    and "kmalloc_loop s nunits prevp p = Some (kmalloc_take s nunits prevp' p')"
  using assms(2,3,5)
proof (induction "card (arc F p (freep s))" arbitrary: prevp p thesis rule: less_induct)
  case (less p prevp)
  have fin: "finite F" using assms(1) by (auto simp: ring_def)
  have p: "p \<in> F" using less.prems(2,3) assms(1) cnext_in [OF fin] by (auto simp: ring_def)
  then have nx: "h_next s p = cnext F p" using assms(1) by (simp add: ring_def)
  show ?case
  proof (cases "nunits \<le> h_size s p")
    case True
    with less.prems show ?thesis by (metis kmalloc_loop.simps)
  next
    case False
    then have qp: "q \<noteq> p" using assms(6) by blast
    have pf: "p \<noteq> freep s"
      using less.prems(4) qp by (auto simp: arc_def)
    have step: "arc F (cnext F p) (freep s) = arc F p (freep s) - {p}" by (rule arc_step [OF fin p assms(4) pf])
    have "p \<in> arc F p (freep s)" "finite (arc F p (freep s))"
      using arc_ends [OF p assms(4)] fin finite_subset [OF arc_subset] by auto
    then have lt: "card (arc F (cnext F p) (freep s)) < card (arc F p (freep s))"
      unfolding step by (simp add: card_Diff1_less del: card_Diff_insert)
    have "q \<in> arc F (h_next s p) (freep s)" using less.prems(4) qp unfolding nx step by blast
    moreover have "kmalloc_loop s nunits prevp p = kmalloc_loop s nunits p (h_next s p)"
      using False pf by (subst kmalloc_loop.simps) simp
    ultimately show ?thesis using less.hyps [OF lt [folded nx] _ p refl] less.prems(1) by metis
  qed
qed

text \<open>Otherwise the search ends its round and asks for more memory.\<close>

lemma kmalloc_loop_full:
  assumes "ring (h_next s) F" and "prevp \<in> F" and "p = h_next s prevp" and "freep s \<in> F"
    and "\<And>q. q \<in> arc F p (freep s) \<Longrightarrow> h_size s q < nunits"
  shows "kmalloc_loop s nunits prevp p = Option.bind (acquire_more_heap s nunits)
     (\<lambda>(s, p). if p = 0 then Some (s, 0) else kmalloc_loop s nunits p (h_next s p))"
  using assms(2,3,5)
proof (induction "card (arc F p (freep s))" arbitrary: prevp p rule: less_induct)
  case (less p prevp)
  have fin: "finite F" using assms(1) by (auto simp: ring_def)
  have p: "p \<in> F" using less.prems(1,2) assms(1) cnext_in [OF fin] by (auto simp: ring_def)
  then have nx: "h_next s p = cnext F p" using assms(1) by (simp add: ring_def)
  have small: "\<not> nunits \<le> h_size s p" using less.prems(3) arc_ends [OF p assms(4)] by (simp add: not_le)
  show ?case
  proof (cases "p = freep s")
    case True
    with small show ?thesis by (subst kmalloc_loop.simps) simp
  next
    case False
    have step: "arc F (cnext F p) (freep s) = arc F p (freep s) - {p}" by (rule arc_step [OF fin p assms(4) False])
    have "p \<in> arc F p (freep s)" "finite (arc F p (freep s))"
      using arc_ends [OF p assms(4)] fin finite_subset [OF arc_subset] by auto
    then have lt: "card (arc F (cnext F p) (freep s)) < card (arc F p (freep s))"
      unfolding step by (simp add: card_Diff1_less del: card_Diff_insert)
    have "h_size s q < nunits" if "q \<in> arc F (h_next s p) (freep s)" for q
      using that less.prems(3) unfolding nx step by blast
    from less.hyps [OF lt [folded nx] p refl this] False small show ?thesis
      by (subst kmalloc_loop.simps) simp
  qed
qed

end
