(* ===== verification/Kmalloc_Correct.thy ===== *)
theory Kmalloc_Correct
  imports Kmalloc
begin

text \<open>
  Correctness of the kernel heap: taking a block off the free list, giving one back with its
  joining of neighbours, and growing the heap keep the invariant \<open>heap_ok\<close>; the contract of
  \<open>Heap_Interface\<close> follows for \<open>kmalloc\<close> and \<open>kfree\<close>.
\<close>

section \<open>Joining two neighbours\<close>

definition join :: "kheap \<Rightarrow> u32 \<Rightarrow> kheap" where
  "join s x = set_next x (h_next s (h_next s x)) (set_size x (h_size s x + h_size s (h_next s x)) s)"

lemma block_end_cong: "h_size s' a = h_size s a \<Longrightarrow> block_end s' a = block_end s a"
  by (simp add: block_end_def)

lemma block_end_ge: "unat a \<le> block_end s a"
  by (simp add: block_end_def)

lemma join_ok:
  assumes ok: "heap_ok s F L" and x: "x \<in> F" and y: "h_next s x = y" "y \<noteq> x"
    and adj: "block_end s x = unat y"
  shows "heap_ok (join s x) (F - {y}) L" and "heap_bytes (join s x) (F - {y} \<union> L) = heap_bytes s (F \<union> L)"
    and "unat (h_size (join s x) x) = unat (h_size s x) + unat (h_size s y)"
    and "a \<noteq> x \<Longrightarrow> h_size (join s x) a = h_size s a"
proof -
  note D = heap_okD [OF ok] and B = blocks_okD [OF heap_okD(4) [OF ok]]
  have yF: "y \<in> F" using D(8) [OF x] y(1) by simp
  have xy: "unat x < unat y" using block_end_ge [of x s] adj y(2) by (metis le_neq_implies_less word_unat_eq_iff)
  have xk: "x \<noteq> kbase s" using adj xy by (auto simp: block_end_def B(5))
  have yk: "y \<noteq> kbase s" using B(4) [of x] x adj xk by auto
  have sum: "unat (h_size s x) + unat (h_size s y) < 2 ^ 32"
    using B(2) [of y] yF adj by (simp add: block_end_def)
  show sz: "unat (h_size (join s x) x) = unat (h_size s x) + unat (h_size s y)"
    using sum y(1) by (simp add: join_def unat_add_nowrap)
  show old: "h_size (join s x) a = h_size s a" if "a \<noteq> x" for a using that by (simp add: join_def)
  have ex: "block_end (join s x) x = block_end s y"
    using sz adj by (simp add: block_end_def)
  have eo: "a \<noteq> x \<Longrightarrow> block_end (join s x) a = block_end s a" for a
    using old by (intro block_end_cong) simp
  have kb: "kbase (join s x) = kbase s" by (simp add: join_def)
  have "h_next (join s x) = (h_next s)(x := h_next s y)" using y(1) by (simp add: join_def)
  then have r: "ring (h_next (join s x)) (F - {y})" using ring_remove [OF D(1) x y] by simp
  let ?A = "F - {y} \<union> L"
  have sub: "?A \<subseteq> F \<union> L" "y \<notin> ?A" using D(3) yF by auto
  have lt: "block_end (join s x) a \<le> unat b" if ab: "a \<in> ?A" "b \<in> ?A" "a < b" for a b
  proof (cases "a = x")
    case True
    with ab sub B(1) [of x b] x have "block_end s x \<le> unat b" "b \<noteq> y" by auto
    then have "y < b" using adj by (metis le_neq_implies_less word_less_nat_alt word_unat_eq_iff)
    with B(1) [of y b] yF ab sub True ex show ?thesis by auto
  next
    case False
    with ab sub B(1) [of a b] eo show ?thesis by auto
  qed
  have up: "block_end (join s x) a \<le> 2 ^ 32 \<and> (block_end (join s x) a = unat (kbase s) \<longrightarrow> a = kbase s)"
    if "a \<in> ?A" for a
    using that sub(1) B(2,4) [of y] B(2,4) [of a] yF yk ex eo by (cases "a = x") auto
  have zero: "h_size (join s x) a = 0 \<longleftrightarrow> a = kbase s" if a: "a \<in> ?A" for a
  proof (cases "a = x")
    case True
    have "unat (h_size s x) \<noteq> 0" using B(7) [of x] x xk by (auto simp: unat_eq_zero)
    then have "unat (h_size (join s x) x) \<noteq> 0" using sz by simp
    with True xk show ?thesis by (metis unat_0)
  next
    case False
    then show ?thesis using old [OF False] B(5) B(7) [of a] a sub(1) by auto
  qed
  have "blocks_ok (join s x) ?A"
    using D(2) yk B(3) sub(1) zero lt up unfolding kb [symmetric] by (intro blocks_okI) blast+
  moreover have "2 \<le> unat (h_size (join s x) a)" if "a \<in> L" for a
  proof -
    have "a \<noteq> x" using D(3) x that by blast
    with D(5) [OF that] old show ?thesis by simp
  qed
  ultimately show "heap_ok (join s x) (F - {y}) L" using r D(2,3) yk kb by (auto simp: heap_ok_def)
  have xyb: "{unat x ..< block_end s y} = {unat x ..< block_end s x} \<union> {unat y ..< block_end s y}"
    using adj xy block_end_ge [of y s] by auto
  have FL: "F \<union> L = insert x (insert y (?A - {x}))" "?A = insert x (?A - {x})" using x yF y(2) sub by auto
  have rest: "(\<Union>a\<in>?A - {x}. {unat a ..< block_end (join s x) a}) = (\<Union>a\<in>?A - {x}. {unat a ..< block_end s a})"
    using eo by auto
  show "heap_bytes (join s x) ?A = heap_bytes s (F \<union> L)"
    unfolding heap_bytes_def
    by (subst FL(1), subst FL(2)) (simp only: UN_insert ex rest xyb Un_assoc)
qed

section \<open>kfree\<close>

text \<open>\<open>kfree\<close> enters the block behind its predecessor, then joins it with its upper neighbour, then
  the predecessor with it.\<close>

lemma upper_neighbour:
  assumes ok: "heap_ok s F L" and b: "b \<in> L" and p: "p \<in> F" and adj: "b + 8 * h_size s b = h_next s p"
  shows "h_next s p \<noteq> p" and "block_end s b = unat (h_next s p)"
proof -
  note D = heap_okD [OF ok] and B = blocks_okD [OF heap_okD(4) [OF ok]]
  have nz: "h_next s p \<noteq> 0" using D(8) [OF p] B(3) by blast
  show e: "block_end s b = unat (h_next s p)" using block_end_word [OF B(2) nz, of b] adj b by blast
  show "h_next s p \<noteq> p"
  proof
    assume y: "h_next s p = p"
    have "F = {p}" using cnext_self [OF D(6) p] D(7) [OF p] y by simp
    then have k: "kbase s = p" using D(2) by blast
    with e y B(4) [of b] b have "b = p" by simp
    then show False using b p D(3) by blast
  qed
qed

lemma kfree_steps:
  assumes ok: "heap_ok s F L" and b: "b \<in> L" and free: "freep s \<in> F" and ap: "ap = b + 8" "ap \<noteq> 0"
    and p: "p \<in> F" "cnext (insert b F) p = b"
  defines "s1 \<equiv> set_next p b (set_next b (h_next s p) s)"
  defines "s2 \<equiv> if b + 8 * h_size s b = h_next s p then join s1 b else s1"
  shows "kfree s ap = Some ((if p + 8 * h_size s2 p = b then join s2 p else s2)\<lparr>freep := p\<rparr>)"
proof -
  note D = heap_okD [OF ok]
  have bF: "b \<notin> F" using D(3) b by blast
  have find: "kfree_find s b (freep s) = Some p" by (rule kfree_find_result [OF D(1) free bF p])
  have pb: "p \<noteq> b" and yb: "h_next s p \<noteq> b" using p(1) D(8) [OF p(1)] bF by auto
  have yp: "h_next s p \<noteq> p" if "b + 8 * h_size s b = h_next s p" by (rule upper_neighbour [OF ok b p(1) that])
  show ?thesis
    using find pb yb yp ap
    by (auto simp: kfree_def Let_def s2_def s1_def join_def set_next_def set_size_def fun_upd_twist)
qed

lemma blocks_ok_cong:
  "h_size s' = h_size s \<Longrightarrow> kbase s' = kbase s \<Longrightarrow> blocks_ok s' A = blocks_ok s A"
  by (simp add: blocks_ok_def block_end_def)

lemma heap_bytes_cong: "h_size s' = h_size s \<Longrightarrow> heap_bytes s' A = heap_bytes s A"
  by (simp add: heap_bytes_def block_end_def)

lemma join_fields [simp]: "kbase (join s x) = kbase s" "kpaging (join s x) = kpaging s"
  by (simp_all add: join_def)

lemma kfree_insert_ok:
  assumes ok: "heap_ok s F L" and b: "b \<in> L" and p: "p \<in> F" "cnext (insert b F) p = b"
  shows "heap_ok (set_next p b (set_next b (h_next s p) s)) (insert b F) (L - {b})"
proof -
  note D = heap_okD [OF ok]
  have bF: "b \<notin> F" using D(3) b by blast
  have "F \<union> L = insert b F \<union> (L - {b})" using b by blast
  then show ?thesis
    using ring_insert [OF D(1) p(1) bF p(2)] D(2-5)
      blocks_ok_cong [of "set_next p b (set_next b (h_next s p) s)" s "F \<union> L"]
    by (auto simp: heap_ok_def)
qed

text \<open>\<open>kfree\<close> of a live block returns, and the block becomes free: the invariant holds without it among
  the live blocks, no byte of the heap is lost and no other live block changes.\<close>

lemma kfree_ok:
  assumes ok: "heap_ok s F L" and b: "b \<in> L" and free: "freep s \<in> F" and ap: "ap = b + 8" "ap \<noteq> 0"
  obtains s' F' where "kfree s ap = Some s'" "heap_ok s' F' (L - {b})" "freep s' \<in> F'"
    "kpaging s' = kpaging s" "kbase s' = kbase s"
    "heap_bytes s' (F' \<union> (L - {b})) = heap_bytes s (F \<union> L)"
    "\<And>a. a \<in> L - {b} \<Longrightarrow> h_size s' a = h_size s a" "\<exists>q\<in>F'. unat (h_size s b) \<le> unat (h_size s' q)"
proof -
  note D = heap_okD [OF ok] and B = blocks_okD [OF heap_okD(4) [OF ok]]
  have bF: "b \<notin> F" using D(3) b by blast
  obtain p where p: "p \<in> F" "cnext (insert b F) p = b" using pred_exists [OF D(6) _ bF] D(2) by blast
  let ?y = "h_next s p" and ?L = "L - {b}"
  let ?s1 = "set_next p b (set_next b ?y s)"
  let ?up = "b + 8 * h_size s b = ?y"
  let ?s2 = "if ?up then join ?s1 b else ?s1" and ?F2 = "if ?up then insert b F - {?y} else insert b F"
  have pb: "p \<noteq> b" and yb: "?y \<noteq> b" using p(1) D(8) [OF p(1)] bF by auto
  have ok1: "heap_ok ?s1 (insert b F) ?L" by (rule kfree_insert_ok [OF ok b p])
  have "insert b F \<union> ?L = F \<union> L" using b by blast
  then have by1: "heap_bytes ?s1 (insert b F \<union> ?L) = heap_bytes s (F \<union> L)"
    using heap_bytes_cong [of ?s1 s "F \<union> L"] by simp
  have n1: "h_next ?s1 b = ?y" "h_next ?s1 p = b" using pb by simp_all
  have s2: "heap_ok ?s2 ?F2 ?L \<and> heap_bytes ?s2 (?F2 \<union> ?L) = heap_bytes s (F \<union> L) \<and> p \<in> ?F2 \<and> b \<in> ?F2 \<and>
      unat (h_size s b) \<le> unat (h_size ?s2 b) \<and> (\<forall>a. a \<noteq> b \<longrightarrow> h_size ?s2 a = h_size s a) \<and> h_next ?s2 p = b"
  proof (cases ?up)
    case True
    note u = upper_neighbour [OF ok b p(1) True]
    have adj: "block_end ?s1 b = unat ?y" using u(2) by (simp add: block_end_def)
    note j = join_ok [OF ok1 insertI1 n1(1) yb adj]
    have "h_next (join ?s1 b) p = b" using pb by (simp add: join_def)
    then show ?thesis using True j by1 u(1) p(1) yb by simp
  next
    case False
    with ok1 by1 p(1) n1 show ?thesis by simp
  qed
  let ?lo = "p + 8 * h_size ?s2 p = b"
  let ?s3 = "if ?lo then join ?s2 p else ?s2" and ?F3 = "if ?lo then ?F2 - {b} else ?F2"
  have s3: "heap_ok ?s3 ?F3 ?L \<and> heap_bytes ?s3 (?F3 \<union> ?L) = heap_bytes s (F \<union> L) \<and> p \<in> ?F3 \<and>
      (\<exists>q\<in>?F3. unat (h_size s b) \<le> unat (h_size ?s3 q)) \<and> (\<forall>a. a \<noteq> b \<and> a \<noteq> p \<longrightarrow> h_size ?s3 a = h_size s a)"
  proof (cases ?lo)
    case True
    note D2 = heap_okD [OF conjunct1 [OF s2]]
    have "block_end ?s2 p \<le> 2 ^ 32" using blocks_okD(2) [OF D2(4)] s2 by blast
    then have adj: "block_end ?s2 p = unat b"
      using block_end_word [of ?s2 p b] True B(3) b by blast
    have n2: "h_next ?s2 p = b" and p2: "p \<in> ?F2" using s2 by simp_all
    note j = join_ok [OF conjunct1 [OF s2] p2 n2 pb [symmetric] adj]
    have "unat (h_size s b) \<le> unat (h_size (join ?s2 p) p)" using j(3) s2 by simp
    then show ?thesis using True j(1,2,4) s2 p2 pb by (simp only: if_True simp_thms) auto
  next
    case False
    with s2 show ?thesis by (simp only: if_False simp_thms) blast
  qed
  have k: "kfree s ap = Some (?s3\<lparr>freep := p\<rparr>)" by (rule kfree_steps [OF ok b free ap p])
  have pL: "p \<notin> L" using D(3) p(1) by blast
  have f: "h_size (?s3\<lparr>freep := p\<rparr>) = h_size ?s3" "kbase (?s3\<lparr>freep := p\<rparr>) = kbase s" "kpaging (?s3\<lparr>freep := p\<rparr>) = kpaging s"
    by simp_all
  have ok3: "heap_ok (?s3\<lparr>freep := p\<rparr>) ?F3 ?L"
    using conjunct1 [OF s3] by (simp add: heap_ok_def blocks_ok_def block_end_def)
  show thesis
    by (rule that [OF k ok3]) (use s3 f pL heap_bytes_cong [OF f(1)] in auto)
qed

section \<open>Taking a block off the free list\<close>

definition took :: "kheap \<Rightarrow> u32 set \<Rightarrow> u32 set \<Rightarrow> u32 \<Rightarrow> kheap \<Rightarrow> u32 set \<Rightarrow> u32 \<Rightarrow> bool" where
  "took s F L nunits s' F' b \<longleftrightarrow> b \<notin> F' \<union> L \<and> heap_ok s' F' (insert b L) \<and> freep s' \<in> F' \<and>
     kpaging s' = kpaging s \<and> kbase s' = kbase s \<and> h_size s' b = nunits \<and>
     heap_bytes s' (F' \<union> insert b L) = heap_bytes s (F \<union> L) \<and> (\<forall>a\<in>L. h_size s' a = h_size s a)"

lemma take_exact_ok:
  assumes ok: "heap_ok s F L" and prevp: "prevp \<in> F" and p: "p = h_next s prevp" and two: "2 \<le> unat (h_size s p)"
  shows "took s F L (h_size s p) ((set_next prevp (h_next s p) s)\<lparr>freep := prevp\<rparr>) (F - {p}) p"
proof -
  note D = heap_okD [OF ok] and B = blocks_okD [OF heap_okD(4) [OF ok]]
  let ?s = "(set_next prevp (h_next s p) s)\<lparr>freep := prevp\<rparr>"
  have pF: "p \<in> F" using D(8) [OF prevp] p by simp
  have kp: "kbase s \<noteq> p" using B(5) two by auto
  have ne: "p \<noteq> prevp"
    using cnext_self [OF D(6) prevp] D(7) [OF prevp] D(2) kp p by auto
  have r: "ring (h_next ?s) (F - {p})" using ring_remove [OF D(1) prevp p [symmetric] ne] by simp
  have A: "F - {p} \<union> insert p L = F \<union> L" using pF by blast
  have "blocks_ok ?s (F \<union> L)" using D(4) blocks_ok_cong [of ?s s] by simp
  then have "heap_ok ?s (F - {p}) (insert p L)" using r D(2,3,5) two kp A by (auto simp: heap_ok_def)
  then show ?thesis
    using A ne prevp pF D(3) heap_bytes_cong [of ?s s "F \<union> L"] unfolding took_def by auto
qed

text \<open>Cutting the block at \<open>p\<close> in two at \<open>q\<close> keeps blocks in order.\<close>

lemma split_order:
  fixes e e' :: "u32 \<Rightarrow> nat"
  assumes ord: "\<And>a b. a \<in> A \<Longrightarrow> b \<in> A \<Longrightarrow> a < b \<Longrightarrow> e a \<le> unat b" and p: "p \<in> A"
    and q: "p < q" "unat q < e p" and e': "e' p = unat q" "e' q = e p" "\<And>a. a \<noteq> p \<Longrightarrow> a \<noteq> q \<Longrightarrow> e' a = e a"
  shows "q \<notin> A" and "a \<in> insert q A \<Longrightarrow> b \<in> insert q A \<Longrightarrow> a < b \<Longrightarrow> e' a \<le> unat b"
proof -
  show new: "q \<notin> A" using ord [OF p _ q(1)] q(2) by auto
  have below: "e a \<le> unat p" if "a \<in> A" "a < q" "a \<noteq> p" for a
  proof (rule ord [OF that(1) p])
    show "a < p"
    proof (rule ccontr)
      assume "\<not> a < p"
      with that(3) have "p < a" by simp
      from ord [OF p that(1) this] q(2) that(2) show False by (simp add: word_less_nat_alt)
    qed
  qed
  show "e' a \<le> unat b" if ab: "a \<in> insert q A" "b \<in> insert q A" "a < b"
  proof -
    consider (qa) "a = q" "b \<in> A" "p < b" | (pq) "a = p" "b = q" | (pb) "a = p" "b \<in> A" |
      (qb) "a \<in> A" "a \<noteq> p" "a \<noteq> q" "b = q" | (old) "a \<in> A" "b \<in> A" "a \<noteq> p" "a \<noteq> q"
      using ab new q(1) by auto
    then show ?thesis
    proof cases
      case qa
      with ord [OF p] e'(2) show ?thesis by simp
    next
      case pb
      with ord [of p b] p ab(3) e'(1) q(2) show ?thesis by simp
    next
      case qb
      with below [of a] e'(3) ab(3) q(1) show ?thesis by (simp add: word_less_nat_alt)
    next
      case old
      with ord [OF _ _ ab(3)] e'(3) show ?thesis by simp
    qed (use e'(1) in simp)
  qed
qed

lemma take_split_ok:
  assumes ok: "heap_ok s F L" and prevp: "prevp \<in> F" and p: "p \<in> F"
    and n: "2 \<le> unat n" "unat n < unat (h_size s p)"
  defines "q \<equiv> p + 8 * (h_size s p - n)"
  shows "took s F L n ((set_size q n (set_size p (h_size s p - n) s))\<lparr>freep := prevp\<rparr>) F q"
proof -
  note D = heap_okD [OF ok] and B = blocks_okD [OF heap_okD(4) [OF ok]]
  let ?s = "(set_size q n (set_size p (h_size s p - n) s))\<lparr>freep := prevp\<rparr>"
  let ?m = "unat (h_size s p) - unat n"
  have m: "unat (h_size s p - n) = ?m" using n by (simp add: unat_sub_nowrap)
  have endp: "unat p + 8 * unat (h_size s p) \<le> 2 ^ 32" using B(2) [of p] p by (simp add: block_end_def)
  then have fits: "unat p + 8 * ?m < 2 ^ 32" using n by simp
  have m8: "unat (8 * (h_size s p - n)) = 8 * ?m"
    using fits m by (subst unat_mult_nowrap) (simp_all)
  have q: "unat q = unat p + 8 * ?m"
    unfolding q_def using fits m8 by (subst unat_add_nowrap) simp_all
  have pq: "p < q" "p \<noteq> q" using q n by (auto simp: word_less_nat_alt)
  have kp: "kbase s \<noteq> p" using B(5) n by auto
  have sz: "h_size ?s q = n" "h_size ?s p = h_size s p - n" "\<And>a. a \<noteq> p \<Longrightarrow> a \<noteq> q \<Longrightarrow> h_size ?s a = h_size s a"
    using pq(2) by auto
  have eq: "block_end ?s q = block_end s p"
    unfolding block_end_def sz(1) q using n by simp
  have ep: "block_end ?s p = unat q" unfolding block_end_def sz(2) m q by simp
  have eo: "block_end ?s a = block_end s a" if "a \<noteq> p" "a \<noteq> q" for a
    unfolding block_end_def sz(3) [OF that] by (rule refl)
  have qe: "unat q < block_end s p" unfolding block_end_def q using n by simp
  have pA: "p \<in> F \<union> L" using p by simp
  have new: "q \<notin> F \<union> L" and lt: "\<And>a b. a \<in> insert q (F \<union> L) \<Longrightarrow> b \<in> insert q (F \<union> L) \<Longrightarrow> a < b \<Longrightarrow> block_end ?s a \<le> unat b"
    using split_order [of "F \<union> L" "block_end s", OF B(1) pA pq(1) qe ep eq eo] by blast+
  have up: "block_end ?s a \<le> 2 ^ 32 \<and> (block_end ?s a = unat (kbase s) \<longrightarrow> a = kbase s)"
    if a: "a \<in> insert q (F \<union> L)" for a
  proof -
    have "kbase s \<noteq> q" using new D(2) by blast
    then have kq: "unat q \<noteq> unat (kbase s)" by (metis word_unat_eq_iff)
    have 1: "block_end s p \<le> 2 ^ 32 \<and> block_end s p \<noteq> unat (kbase s)" using B(2,4) [of p] p kp by auto
    consider "a = q" | "a = p" | "a \<noteq> p" "a \<noteq> q" "a \<in> F \<union> L" using a by auto
    then show ?thesis
      using 1 eq ep eo [of a] qe kq B(2,4) [of a] by cases auto
  qed
  have q0: "q \<noteq> 0" using pq(1) by auto
  have zero: "h_size ?s a = 0 \<longleftrightarrow> a = kbase s" if a: "a \<in> insert q (F \<union> L)" for a
  proof -
    have "n \<noteq> 0" "h_size s p - n \<noteq> 0" using n m by auto
    moreover have "kbase s \<noteq> q" using new D(2) by blast
    ultimately show ?thesis using a sz kp B(5) B(7) [of a] by (cases "a = q"; cases "a = p") auto
  qed
  have "blocks_ok ?s (insert q (F \<union> L))"
  proof (rule blocks_okI)
    show "kbase ?s \<in> insert q (F \<union> L)" using D(2) by simp
    show "a \<in> insert q (F \<union> L) \<Longrightarrow> a \<noteq> 0" for a using q0 B(3) by blast
  qed (use zero lt up in auto)
  then have "heap_ok ?s F (insert q L)"
    using D(1,2,3,5) new n(1) sz p unfolding heap_ok_def by auto
  moreover have "heap_bytes ?s (F \<union> insert q L) = heap_bytes s (F \<union> L)"
  proof -
    have 1: "F \<union> insert q L = insert p (insert q (F \<union> L - {p}))" "F \<union> L = insert p (F \<union> L - {p})" using p by auto
    have 2: "(\<Union>a\<in>F \<union> L - {p}. {unat a ..< block_end ?s a}) = (\<Union>a\<in>F \<union> L - {p}. {unat a ..< block_end s a})"
    proof (rule SUP_cong [OF refl])
      fix a assume "a \<in> F \<union> L - {p}"
      then have "a \<noteq> p" "a \<noteq> q" using new by auto
      from eo [OF this] show "{unat a ..< block_end ?s a} = {unat a ..< block_end s a}" by (simp only:)
    qed
    have 3: "{unat p ..< block_end s p} = {unat p ..< unat q} \<union> {unat q ..< block_end s p}"
      using q qe by auto
    show ?thesis unfolding heap_bytes_def
      by (subst 1(1), subst 1(2)) (simp only: UN_insert ep eq 2 3 Un_assoc)
  qed
  ultimately show ?thesis using new prevp p D(3) sz unfolding took_def by auto
qed

lemma kmalloc_take_ok:
  assumes ok: "heap_ok s F L" and prevp: "prevp \<in> F" and p: "p = h_next s prevp"
    and n: "2 \<le> unat n" "n \<le> h_size s p" and take: "kmalloc_take s n prevp p = (s', r)"
  obtains F' b where "r = b + 8" and "took s F L n s' F' b"
proof (cases "h_size s p = n")
  case True
  then have "s' = (set_next prevp (h_next s p) s)\<lparr>freep := prevp\<rparr>" "r = p + 8"
    using take by (simp_all add: kmalloc_take_def)
  with take_exact_ok [OF ok prevp p] True n(1) that show ?thesis by blast
next
  case False
  then have lt: "unat n < unat (h_size s p)" using n(2) by (simp add: word_le_nat_alt word_unat_eq_iff)
  let ?q = "p + 8 * (h_size s p - n)"
  have "s' = (set_size ?q n (set_size p (h_size s p - n) s))\<lparr>freep := prevp\<rparr>" "r = ?q + 8"
    using take False by (simp_all add: kmalloc_take_def Let_def)
  with take_split_ok [OF ok prevp _ n(1) lt] heap_okD(8) [OF ok prevp] p that show ?thesis by blast
qed

end
