(* ===== verification/Kmalloc_Contract.thy ===== *)
theory Kmalloc_Contract
  imports Kmalloc_Correct
begin

text \<open>
  Growing the heap and the contract of \<open>kmalloc\<close> and \<open>kfree\<close>. The heap's pages are mapped in the
  kernel's directory, so the address range \<open>acquire_more_heap\<close> finds never meets a block in use.
\<close>

section \<open>The heap is mapped\<close>

definition heap_mapped :: "kheap \<Rightarrow> nat set \<Rightarrow> bool" where
  "heap_mapped s B \<longleftrightarrow> pdt_wf (kpaging s) (kernel_pdt (kpaging s)) \<and>
     VIRTUAL_TO_PDT_IDX (kbase s) = KERNEL_PT_PDT_IDX \<and> \<not> 4096 dvd unat (kbase s) \<and>
     (\<forall>x. x = kbase s \<or> unat x \<in> B \<longrightarrow> page_entry (kpaging s) (kernel_pdt (kpaging s)) x \<noteq> None)"

definition heap_inv :: "kheap \<Rightarrow> u32 set \<Rightarrow> u32 set \<Rightarrow> bool" where
  "heap_inv s F L \<longleftrightarrow> heap_ok s F L \<and> freep s \<in> F \<and> heap_mapped s (heap_bytes s (F \<union> L))"

lemma heap_mapped_cong:
  "heap_mapped s B \<Longrightarrow> kpaging s' = kpaging s \<Longrightarrow> kbase s' = kbase s \<Longrightarrow> heap_mapped s' B"
  by (simp add: heap_mapped_def)

lemma heap_inv_took: "heap_inv s F L \<Longrightarrow> took s F L n s' F' b \<Longrightarrow> heap_inv s' F' (insert b L)"
  unfolding heap_inv_def took_def by (metis heap_mapped_cong)

lemma pdt_wf_alloc:
  assumes "pdt_wf s pdt" and "pfa_allocate (pfa_st s) n = (pa, p)"
  shows "pdt_wf (s\<lparr>pfa_st := pa\<rparr>) pdt"
proof -
  have i: "pfa_inv (pfa_st s)" by (rule pdt_wfD(2) [OF assms(1)])
  have "free_frames pa \<subseteq> free_frames (pfa_st s)"
    using pfa.allocate_block [OF i assms(2)] pfa.allocate_failed [OF i, of n pa] assms(2) by (cases "p = 0") auto
  with pfa.allocate_inv [OF i assms(2)] assms(1) show ?thesis
    unfolding pdt_wf_def by (auto simp: window_ok_def kernel_pt_frame_def)
qed

lemma mapped_slot_present:
  "page_entry s pdt x \<noteq> None \<Longrightarrow> pde_present (pdts s pdt (VIRTUAL_TO_PDT_IDX x))"
  by (auto simp: page_entry_def Let_def split: if_splits)

section \<open>acquire_more_heap\<close>

lemma acquire_sizes:
  assumes "8 * unat nunits \<le> 0x400000"
  defines "m \<equiv> (if nunits < MIN_BLOCK_SIZE then MIN_BLOCK_SIZE else nunits)"
  defines "bytes \<equiv> div_ceil (m * 8) FOUR_KB * FOUR_KB"
  shows "bytes \<noteq> 0" and "bytes \<le> 0x400000" and "4096 dvd unat bytes" and "align_up bytes 4096 = bytes"
    and "unat (bytes div 8) = unat bytes div 8" and "8 * unat nunits \<le> unat bytes" and "8192 \<le> unat bytes"
proof -
  have m: "1024 \<le> unat m" "unat nunits \<le> unat m" "8 * unat m \<le> 0x400000"
    using assms(1) by (auto simp: m_def word_less_nat_alt)
  then have m8: "unat (m * 8) = 8 * unat m" by (subst unat_mult_nowrap) simp_all
  then have nz: "m * 8 \<noteq> 0" using m(1) by (metis mult_is_0 not_numeral_le_zero numeral_eq_one_iff unat_0 zero_neq_numeral)
  have pf: "unat (div_ceil (m * 8) FOUR_KB) = (8 * unat m + 4095) div 4096"
    using unat_div_ceil [OF nz, of "0x1000"] by (simp add: m8)
  let ?k = "(8 * unat m + 4095) div 4096"
  have k: "?k \<le> 1024" "8 * unat m \<le> 4096 * ?k" using m(3) by (simp_all add: div_le_mono)
  have b: "unat bytes = 4096 * ?k"
    unfolding bytes_def using pf k(1) by (subst unat_mult_nowrap) simp_all
  show "8 * unat nunits \<le> unat bytes" "8192 \<le> unat bytes" using b k m by linarith+
  then show "bytes \<noteq> 0" by auto
  show "bytes \<le> 0x400000" using b k(1) by (simp add: word_le_nat_alt)
  show d: "4096 dvd unat bytes" unfolding b by simp
  then show "align_up bytes 4096 = bytes" using align_up_aligned [of 4096 bytes] by simp
  show "unat (bytes div 8) = unat bytes div 8" by (simp add: unat_div)
qed

lemma block_start_in_bytes:
  assumes "blocks_ok s A" and "a \<in> A"
  shows "a = kbase s \<or> unat a \<in> heap_bytes s A"
proof (cases "h_size s a = 0")
  case False
  then have "unat a \<in> {unat a ..< block_end s a}" by (simp add: block_end_def unat_gt_0)
  with assms(2) show ?thesis unfolding heap_bytes_def by blast
qed (use blocks_okD(7) [OF assms] in simp)

lemma fresh_order:
  fixes e e' :: "u32 \<Rightarrow> nat"
  assumes ord: "\<And>a b. a \<in> A \<Longrightarrow> b \<in> A \<Longrightarrow> a < b \<Longrightarrow> e a \<le> unat b"
    and above: "\<And>a. a \<in> A \<Longrightarrow> v < a \<Longrightarrow> e' v \<le> unat a" and below: "\<And>a. a \<in> A \<Longrightarrow> a < v \<Longrightarrow> e a \<le> unat v"
    and e': "\<And>a. a \<in> A \<Longrightarrow> e' a = e a" and ab: "a \<in> insert v A" "b \<in> insert v A" "a < b"
  shows "e' a \<le> unat b"
proof -
  consider "a = v" "b \<in> A" | "a \<in> A" "b = v" | "a \<in> A" "b \<in> A" using ab by auto
  then show ?thesis using ord above below e' ab(3) by cases auto
qed

text \<open>A fresh range of pages joins the heap as one live block.\<close>

lemma fresh_block_ok:
  assumes inv: "heap_inv s F L" and v: "v \<noteq> 0" "4096 dvd unat v" and B: "4096 dvd unat bytes" "8192 \<le> unat bytes"
    and top: "unat v + unat bytes \<le> 2 ^ 32"
    and free: "\<And>x. unat v \<le> unat x \<Longrightarrow> unat x < unat v + unat bytes \<Longrightarrow>
       page_entry (kpaging s) (kernel_pdt (kpaging s)) x = None"
    and s1: "h_size s1 = (h_size s)(v := bytes div 8)" "h_next s1 = h_next s" "kbase s1 = kbase s"
  shows "heap_ok s1 F (insert v L)" and "v \<notin> F \<union> L"
    and "heap_bytes s1 (F \<union> insert v L) = heap_bytes s (F \<union> L) \<union> {unat v ..< unat v + unat bytes}"
proof -
  note ok = inv [unfolded heap_inv_def, THEN conjunct1]
  note D = heap_okD [OF ok] and Bl = blocks_okD [OF heap_okD(4) [OF ok]]
  have map: "page_entry (kpaging s) (kernel_pdt (kpaging s)) x \<noteq> None"
    if "x = kbase s \<or> unat x \<in> heap_bytes s (F \<union> L)" for x
    using inv that unfolding heap_inv_def heap_mapped_def by blast
  have base: "\<not> 4096 dvd unat (kbase s)" using inv unfolding heap_inv_def heap_mapped_def by blast
  note start = block_start_in_bytes [OF D(4)]
  have out: "\<not> (unat v \<le> unat x \<and> unat x < unat v + unat bytes)"
    if "x = kbase s \<or> unat x \<in> heap_bytes s (F \<union> L)" for x
    using map [OF that] free [of x] by auto
  have size8: "8 * unat (bytes div 8) = unat bytes" using B(1) by (auto simp: unat_div)
  have ev: "block_end s1 v = unat v + unat bytes" unfolding block_end_def s1(1) using size8 by simp
  have eo: "block_end s1 a = block_end s a" if "a \<noteq> v" for a using that by (simp add: block_end_def s1(1))
  have vb: "unat v < unat v + unat bytes" using B(2) by simp
  show new: "v \<notin> F \<union> L" using out [OF start, of v] vb by auto
  have eA: "block_end s1 a = block_end s a" if "a \<in> F \<union> L" for a using eo that new by metis
  have above: "block_end s1 v \<le> unat a" if "a \<in> F \<union> L" "v < a" for a
    using out [OF start [OF that(1)]] that(2) unfolding ev by (simp add: word_less_nat_alt)
  have below: "block_end s a \<le> unat v" if a: "a \<in> F \<union> L" "a < v" for a
  proof (rule ccontr)
    assume "\<not> block_end s a \<le> unat v"
    then have "unat v \<in> heap_bytes s (F \<union> L)"
      using a unfolding heap_bytes_def by (intro UN_I [OF a(1)]) (simp add: word_less_nat_alt)
    with out [of v] vb show False by simp
  qed
  note lt = fresh_order [of "F \<union> L" "block_end s" v "block_end s1", OF Bl(1) above below eA]
  have bv: "unat v + unat bytes \<noteq> unat (kbase s)" using v(2) B(1) base by (metis dvd_add)
  have ok1: "blocks_ok s1 (insert v (F \<union> L))"
  proof (rule blocks_okI)
    show "kbase s1 \<in> insert v (F \<union> L)" using D(2) s1(3) by simp
    show "a \<in> insert v (F \<union> L) \<Longrightarrow> a \<noteq> 0" for a using v(1) Bl(3) by blast
    have "unat (bytes div 8) \<noteq> 0" using size8 B(2) by simp
    then have nz: "bytes div 8 \<noteq> 0" by auto
    show "h_size s1 a = 0 \<longleftrightarrow> a = kbase s1" if "a \<in> insert v (F \<union> L)" for a
      using that nz Bl(5) Bl(7) [of a] new D(2) unfolding s1 by auto
    show "block_end s1 a \<le> 2 ^ 32 \<and> (block_end s1 a = unat (kbase s1) \<longrightarrow> a = kbase s1)"
      if "a \<in> insert v (F \<union> L)" for a
      using that ev eo [of a] top bv Bl(2,4) [of a] unfolding s1(3) by (cases "a = v") auto
  qed (rule lt)
  have two: "2 \<le> unat (bytes div 8)" using size8 B(2) by simp
  have eq: "F \<union> insert v L = insert v (F \<union> L)" by simp
  show "heap_ok s1 F (insert v L)"
    unfolding heap_ok_def eq s1(2,3)
  proof (intro conjI ballI)
    show "2 \<le> unat (h_size s1 a)" if "a \<in> insert v L" for a
      using that two D(5) unfolding s1(1) by auto
  qed (use D(1,2,3) new ok1 in auto)
  have "(\<Union>a\<in>F \<union> L. {unat a ..< block_end s1 a}) = (\<Union>a\<in>F \<union> L. {unat a ..< block_end s a})"
    by (rule SUP_cong [OF refl]) (metis eo new)
  then show "heap_bytes s1 (F \<union> insert v L) = heap_bytes s (F \<union> L) \<union> {unat v ..< unat v + unat bytes}"
    unfolding heap_bytes_def eq UN_insert ev by blast
qed

text \<open>Mapping more pages keeps the heap mapped.\<close>

definition maps_more :: "paging \<Rightarrow> paging \<Rightarrow> bool" where
  "maps_more pg pg' \<longleftrightarrow> pdt_wf pg' (kernel_pdt pg') \<and> kernel_pdt pg' = kernel_pdt pg \<and>
     (\<forall>x. page_entry pg (kernel_pdt pg) x \<noteq> None \<longrightarrow> page_entry pg' (kernel_pdt pg) x \<noteq> None)"

lemma heap_mapped_more:
  "heap_mapped s B \<Longrightarrow> maps_more (kpaging s) pg \<Longrightarrow> heap_mapped (s\<lparr>kpaging := pg\<rparr>) B"
  by (auto simp: heap_mapped_def maps_more_def)

lemma heap_inv_more:
  assumes "heap_inv s F L" and "maps_more (kpaging s) pg"
  shows "heap_inv (s\<lparr>kpaging := pg\<rparr>) F L"
proof -
  have "heap_bytes (s\<lparr>kpaging := pg\<rparr>) A = heap_bytes s A" for A by (rule heap_bytes_cong) simp
  with assms heap_mapped_more [OF _ assms(2)] show ?thesis
    by (simp add: heap_inv_def heap_ok_def blocks_ok_def block_end_def)
qed

lemma page_entry_pfa [simp]: "page_entry (pg\<lparr>pfa_st := pa\<rparr>) = page_entry pg"
  by (intro ext) (simp add: page_entry_def Let_def)

text \<open>The pages of a mapping at a fresh address.\<close>

lemma page_range:
  assumes "4096 dvd unat v" and "4096 dvd unat bytes"
  shows "unat v \<le> unat x \<and> unat x < unat v + unat bytes \<longleftrightarrow>
    vpn v \<le> vpn x \<and> vpn x < vpn v + unat bytes div 4096"
proof -
  obtain a b where ab: "unat v = 4096 * a" "unat bytes = 4096 * b" using assms by (auto elim!: dvdE)
  have "4096 * a \<le> unat x \<longleftrightarrow> a \<le> unat x div 4096"
    by (simp add: less_eq_div_iff_mult_less_eq mult.commute)
  moreover have "unat x < 4096 * (a + b) \<longleftrightarrow> unat x div 4096 < a + b"
    by (simp add: div_less_iff_less_mult mult.commute)
  ultimately show ?thesis unfolding vpn_def ab by (simp add: distrib_left)
qed

lemma add_pages_ok:
  assumes inv: "heap_inv s F L" and v: "v \<noteq> 0" "4096 dvd unat v" and b: "4096 dvd unat bytes" "8192 \<le> unat bytes"
    and top: "unat v + unat bytes \<le> 2 ^ 32"
    and free: "\<And>x. unat v \<le> unat x \<Longrightarrow> unat x < unat v + unat bytes \<Longrightarrow>
       page_entry (kpaging s) (kernel_pdt (kpaging s)) x = None"
    and more: "maps_more (kpaging s) pg"
    and cover: "\<And>x. unat v \<le> unat x \<Longrightarrow> unat x < unat v + unat bytes \<Longrightarrow> page_entry pg (kernel_pdt (kpaging s)) x \<noteq> None"
  obtains s' F' q where "kfree (set_size v (bytes div 8) (s\<lparr>kpaging := pg\<rparr>)) (v + 8) = Some s'" "heap_inv s' F' L"
    "\<And>a. a \<in> L \<Longrightarrow> h_size s' a = h_size s a" "q \<in> F'" "unat (bytes div 8) \<le> unat (h_size s' q)"
proof -
  let ?s = "set_size v (bytes div 8) (s\<lparr>kpaging := pg\<rparr>)"
  note M = inv [unfolded heap_inv_def]
  have s: "h_size ?s = (h_size s)(v := bytes div 8)" "h_next ?s = h_next s" "kbase ?s = kbase s" by simp_all
  note fb = fresh_block_ok [OF inv v b top free s]
  have "unat (v + 8) = unat v + 8" using top b(2) unat_add_nowrap [of v 8] by simp
  then have nz: "v + 8 \<noteq> 0" by auto
  have "freep ?s \<in> F" using M by simp
  from kfree_ok [OF fb(1) insertI1 this refl nz] obtain s' F' where k: "kfree ?s (v + 8) = Some s'"
      "heap_ok s' F' (insert v L - {v})" "freep s' \<in> F'" "kpaging s' = pg" "kbase s' = kbase s"
      "heap_bytes s' (F' \<union> (insert v L - {v})) = heap_bytes ?s (F \<union> insert v L)"
      "\<And>a. a \<in> insert v L - {v} \<Longrightarrow> h_size s' a = h_size ?s a" "\<exists>q\<in>F'. unat (h_size ?s v) \<le> unat (h_size s' q)"
    by auto
  have L: "insert v L - {v} = L" using fb(2) by blast
  have "heap_mapped (s\<lparr>kpaging := pg\<rparr>) (heap_bytes s (F \<union> L))" using heap_mapped_more [OF _ more] M by blast
  moreover have "page_entry pg (kernel_pdt pg) x \<noteq> None" if "unat x \<in> {unat v ..< unat v + unat bytes}" for x
    using cover [of x] that more by (simp add: maps_more_def)
  ultimately have "heap_mapped s' (heap_bytes s' (F' \<union> L))"
    using k(4,5,6) fb(3) unfolding heap_mapped_def L by auto
  with k L have inv': "heap_inv s' F' L" by (simp add: heap_inv_def)
  have keep: "h_size s' a = h_size s a" if "a \<in> L" for a using k(7) [of a] that fb(2) by auto
  obtain q where "q \<in> F'" "unat (bytes div 8) \<le> unat (h_size s' q)" using k(8) by auto
  with that [OF k(1) inv' keep] show thesis by blast
qed

lemma acquire_more_heap_ok:
  assumes inv: "heap_inv s F L" and n: "8 * unat nunits \<le> 0x400000"
  obtains (failed) s' where "acquire_more_heap s nunits = Some (s', 0)" "heap_inv s' F L" "h_size s' = h_size s"
  | (grown) s' F' q where "acquire_more_heap s nunits = Some (s', freep s')" "heap_inv s' F' L"
      "\<And>a. a \<in> L \<Longrightarrow> h_size s' a = h_size s a" "q \<in> F'" "nunits \<le> h_size s' q"
proof -
  define m where "m = (if nunits < MIN_BLOCK_SIZE then MIN_BLOCK_SIZE else nunits)"
  define pf where "pf = div_ceil (m * 8) FOUR_KB"
  define b where "b = pf * FOUR_KB"
  note sz = acquire_sizes [OF n, folded m_def, folded pf_def, folded b_def]
  note M = inv [unfolded heap_inv_def heap_mapped_def]
  obtain pa paddr where pa: "pfa_allocate (pfa_st (kpaging s)) pf = (pa, paddr)" by fastforce
  define pg1 where "pg1 = (kpaging s)\<lparr>pfa_st := pa\<rparr>"
  have k1: "kernel_pdt pg1 = kernel_pdt (kpaging s)" "page_entry pg1 = page_entry (kpaging s)" "pdts pg1 = pdts (kpaging s)"
    by (simp_all add: pg1_def)
  have wf1: "pdt_wf pg1 (kernel_pdt pg1)" using pdt_wf_alloc [OF _ pa] M by (simp add: pg1_def)
  have pr: "pde_present (pdts pg1 (kernel_pdt pg1) 768)"
    using mapped_slot_present [of "kpaging s" "kernel_pdt (kpaging s)" "kbase s"] M by (simp add: k1)
  obtain pg2 v where find: "pdt_kernel_find_next_vaddr pg1 b = (pg2, v)" by fastforce
  note fr = kernel_find_result [OF wf1 pr sz(1,2) refl find, unfolded sz(4)]
  have more: "maps_more (kpaging s) pg1" "maps_more (kpaging s) pg2"
    using wf1 same_tables_fields [OF fr(1)] by (auto simp: maps_more_def k1)
  have acq: "acquire_more_heap s nunits =
      (if paddr = 0 then Some (s\<lparr>kpaging := pg1\<rparr>, 0)
       else if v = 0 then Some (s\<lparr>kpaging := pg2\<rparr>, 0)
       else Option.bind (pdt_map_kernel_memory pg2 paddr v b PAGING_READ_WRITE PAGING_PL0) (\<lambda>(pg, r).
         if r < b then Some (s\<lparr>kpaging := pg\<rparr>, 0)
         else Option.bind (kfree (set_size v (b div 8) (s\<lparr>kpaging := pg\<rparr>)) (v + 8)) (\<lambda>s. Some (s, freep s))))"
    unfolding acquire_more_heap_def m_def [symmetric] Let_def pf_def [symmetric] b_def [symmetric]
    by (simp add: pa find pg1_def [symmetric])
  show thesis
  proof (cases "paddr = 0 \<or> v = 0")
    case True
    with acq heap_inv_more [OF inv more(1)] heap_inv_more [OF inv more(2)] show ?thesis
      by (intro failed [of "if paddr = 0 then s\<lparr>kpaging := pg1\<rparr> else s\<lparr>kpaging := pg2\<rparr>"]) auto
  next
    case False
    then have v: "v \<noteq> 0" by simp
    obtain pg3 r k where map: "pdt_map_kernel_memory pg2 paddr v b PAGING_READ_WRITE PAGING_PL0 = Some (pg3, r)"
        "pdt_wf pg3 (kernel_pdt pg3)" "kernel_pdt pg3 = kernel_pdt pg1"
        "\<And>x. page_entry pg3 (kernel_pdt pg1) x = (if vpn v \<le> vpn x \<and> vpn x < vpn v + k
           then Some (make_pte (paddr + 4096 * of_nat (vpn x - vpn v)) PAGING_READ_WRITE PAGING_PL0)
           else page_entry pg1 (kernel_pdt pg1) x)"
        "r = b \<and> k = unat b div 4096 \<or> r = 0 \<and> k < unat b div 4096 \<and> free_frames (pfa_st pg3) = {}"
      by (rule kernel_find_map_result [OF wf1 pr sz(1,2) refl find v, of paddr PAGING_READ_WRITE PAGING_PL0, unfolded sz(4)])
        (rule that)
    have more3: "maps_more (kpaging s) pg3" unfolding maps_more_def using map(2-4) by (simp add: k1)
    show ?thesis
    proof (cases "r < b")
      case True
      with acq False map(1) heap_inv_more [OF inv more3] show ?thesis
        by (intro failed [of "s\<lparr>kpaging := pg3\<rparr>"]) auto
    next
      case nb: False
      then have k: "k = unat b div 4096" using map(5) sz(1) by (auto simp: word_neq_0_conv)
      have d: "4096 dvd unat v" using fr(2) [OF v] by blast
      note range = page_range [OF d sz(3)]
      have top: "unat v + unat b \<le> 2 ^ 32" using fr(2) [OF v] d sz(3) by (auto simp: vpn_def elim!: dvdE)
      have none: "page_entry (kpaging s) (kernel_pdt (kpaging s)) x = None"
        if "unat v \<le> unat x" "unat x < unat v + unat b" for x
        using fr(2) [OF v] that range [of x] unfolding free_range_def k1 by blast
      have cover: "page_entry pg3 (kernel_pdt (kpaging s)) x \<noteq> None"
        if "unat v \<le> unat x" "unat x < unat v + unat b" for x
        using map(4) [of x] range [of x] that unfolding k k1 by simp
      obtain s' F' q where g: "kfree (set_size v (b div 8) (s\<lparr>kpaging := pg3\<rparr>)) (v + 8) = Some s'" "heap_inv s' F' L"
          "\<And>a. a \<in> L \<Longrightarrow> h_size s' a = h_size s a" "q \<in> F'" "unat (b div 8) \<le> unat (h_size s' q)"
        by (rule add_pages_ok [OF inv v d sz(3,7) top none more3 cover]) (assumption+, rule that)
      have "nunits \<le> h_size s' q" using g(5) sz(5,6) by (simp add: word_le_nat_alt)
      moreover have "acquire_more_heap s nunits = Some (s', freep s')" using acq False map(1) nb g(1) by simp
      ultimately show ?thesis using g(2-4) grown by blast
    qed
  qed
qed

section \<open>kmalloc\<close>

text \<open>Every request up to 4 MB less a header returns: with a block that was free, or with 0 when the
  heap could not grow.\<close>

definition got :: "kheap \<Rightarrow> u32 set \<Rightarrow> u32 \<Rightarrow> kheap \<Rightarrow> u32 \<Rightarrow> bool" where
  "got s L nunits s' r \<longleftrightarrow>
     (\<exists>b F'. r = b + 8 \<and> b \<notin> L \<and> heap_inv s' F' (insert b L) \<and> h_size s' b = nunits \<and> (\<forall>a\<in>L. h_size s' a = h_size s a))"

lemma kmalloc_round_ok:
  assumes inv: "heap_inv s F L" and n: "2 \<le> unat n" and q: "q \<in> F" "n \<le> h_size s q"
  shows "\<exists>s' r. kmalloc_loop s n (freep s) (h_next s (freep s)) = Some (s', r) \<and> got s L n s' r"
proof -
  have ok: "heap_ok s F L" and fp: "freep s \<in> F" using inv by (auto simp: heap_inv_def)
  note D = heap_okD [OF ok]
  have "q \<in> arc F (h_next s (freep s)) (freep s)" using arc_all [OF D(6) fp] D(7) [OF fp] q(1) by simp
  from kmalloc_loop_fit [OF D(1) fp refl fp this q(2)] obtain prevp p where
    l: "prevp \<in> F" "p = h_next s prevp" "n \<le> h_size s p"
      "kmalloc_loop s n (freep s) (h_next s (freep s)) = Some (kmalloc_take s n prevp p)" by blast
  obtain s' r where t: "kmalloc_take s n prevp p = (s', r)" by fastforce
  obtain F' b where b: "r = b + 8" "took s F L n s' F' b"
    by (rule kmalloc_take_ok [OF ok l(1,2) n l(3) t])
  have "got s L n s' r"
    using b(1) heap_inv_took [OF inv b(2)] b(2) unfolding got_def took_def by blast
  with l(4) t show ?thesis by simp
qed

lemma kmalloc_loop_ok:
  assumes inv: "heap_inv s F L" and n: "2 \<le> unat n" "8 * unat n \<le> 0x400000"
  shows "\<exists>s' r. kmalloc_loop s n (freep s) (h_next s (freep s)) = Some (s', r) \<and>
     (got s L n s' r \<or> r = 0 \<and> (\<exists>F'. heap_inv s' F' L) \<and> (\<forall>a\<in>L. h_size s' a = h_size s a))"
proof (cases "\<exists>q\<in>F. n \<le> h_size s q")
  case True
  with kmalloc_round_ok [OF inv n(1)] show ?thesis by blast
next
  case False
  have ok: "heap_ok s F L" and fp: "freep s \<in> F" using inv by (auto simp: heap_inv_def)
  note D = heap_okD [OF ok]
  have "h_size s q < n" if "q \<in> arc F (h_next s (freep s)) (freep s)" for q
    using False that arc_subset by (metis in_mono not_less)
  note full = kmalloc_loop_full [OF D(1) fp refl fp this]
  show ?thesis
    using inv n(2)
  proof (cases rule: acquire_more_heap_ok)
    case (failed s')
    with full show ?thesis by auto
  next
    case (grown s' F' q)
    have "freep s' \<in> F'" "0 \<notin> F'" using grown(2) by (auto simp: heap_inv_def heap_ok_def blocks_ok_def)
    then have "freep s' \<noteq> 0" by auto
    with full grown(1) have "kmalloc_loop s n (freep s) (h_next s (freep s)) = kmalloc_loop s' n (freep s') (h_next s' (freep s'))"
      by simp
    with kmalloc_round_ok [OF grown(2) n(1) grown(4,5)] grown(3) show ?thesis unfolding got_def by auto
  qed
qed

section \<open>The contract\<close>

text \<open>\<open>P\<close> are the addresses handed out and not given back; before the first call there is no free
  list.\<close>

definition kheap_inv :: "kheap \<Rightarrow> u32 set \<Rightarrow> bool" where
  "kheap_inv s P \<longleftrightarrow> (freep s = 0 \<longrightarrow> P = {}) \<and> (\<exists>F. heap_inv (kmalloc_start s) F ((\<lambda>p. p - 8) ` P))"

definition kheap_extent :: "kheap \<Rightarrow> u32 \<Rightarrow> nat set" where
  "kheap_extent s p = {unat p ..< block_end s (p - 8)}"

lemma heap_inv_started: "heap_inv s F L \<Longrightarrow> freep s \<noteq> 0 \<and> kmalloc_start s = s"
  by (auto simp: heap_inv_def heap_ok_def blocks_ok_def kmalloc_start_def)

lemma live_pointer:
  assumes "heap_inv s F L" and "p - 8 \<in> L"
  shows "unat p = unat (p - 8) + 8" and "block_end s (p - 8) \<le> 2 ^ 32"
proof -
  have ok: "heap_ok s F L" using assms(1) by (simp add: heap_inv_def)
  show e: "block_end s (p - 8) \<le> 2 ^ 32" using blocks_okD(2) [OF heap_okD(4) [OF ok]] assms(2) by blast
  with heap_okD(5) [OF ok assms(2)] have "unat (p - 8) + unat (8 :: u32) < 2 ^ 32"
    unfolding block_end_def by simp
  then show "unat p = unat (p - 8) + 8" using unat_add_nowrap [of "p - 8" 8] by simp
qed

lemma kmalloc_units:
  fixes nbytes :: u32
  assumes "nbytes \<le> 0x3FFFF8" and "nbytes \<noteq> 0"
  defines "n \<equiv> (nbytes + 8 - 1) div 8 + 1"
  shows "2 \<le> unat n" and "8 * unat n \<le> 0x400000" and "unat nbytes + 8 \<le> 8 * unat n"
proof -
  have b: "unat nbytes \<le> 0x3FFFF8" "0 < unat nbytes" using assms by (simp_all add: word_le_nat_alt unat_gt_0)
  have "nbytes + 8 - 1 = nbytes + 7" by simp
  then have "unat (nbytes + 8 - 1) = unat nbytes + 7" using b by (simp add: unat_add_nowrap)
  then have d: "unat ((nbytes + 8 - 1) div 8) = (unat nbytes + 7) div 8" by (simp add: unat_div)
  then have "unat n = (unat nbytes + 7) div 8 + 1"
    unfolding n_def using b(1) by (subst unat_add_nowrap) (simp_all add: div_le_mono)
  then show "2 \<le> unat n" "8 * unat n \<le> 0x400000" "unat nbytes + 8 \<le> 8 * unat n" using b by simp_all
qed

lemma kmalloc_result:
  assumes inv: "kheap_inv s P" and n: "nbytes \<le> 0x3FFFF8" "nbytes \<noteq> 0"
  shows "\<exists>s' r. kmalloc s nbytes = Some (s', r) \<and>
     (got s ((\<lambda>p. p - 8) ` P) ((nbytes + 8 - 1) div 8 + 1) s' r \<or>
      r = 0 \<and> (\<exists>F'. heap_inv s' F' ((\<lambda>p. p - 8) ` P)) \<and> (\<forall>a\<in>(\<lambda>p. p - 8) ` P. h_size s' a = h_size s a))"
proof -
  let ?L = "(\<lambda>p. p - 8) ` P"
  obtain F where F: "heap_inv (kmalloc_start s) F ?L" using inv by (auto simp: kheap_inv_def)
  have sz: "h_size (kmalloc_start s) a = h_size s a" if "a \<in> ?L" for a
    using that inv by (auto simp: kmalloc_start_def kheap_inv_def)
  note u = kmalloc_units [OF n]
  from kmalloc_loop_ok [OF F u(1,2)] sz n(2) show ?thesis
    by (simp add: kmalloc_def Let_def got_def)
qed

lemma got_block:
  assumes inv: "kheap_inv s P" and n: "nbytes \<le> 0x3FFFF8" "nbytes \<noteq> 0"
    and got: "got s ((\<lambda>p. p - 8) ` P) ((nbytes + 8 - 1) div 8 + 1) s' r"
  shows "r \<noteq> 0" and "r \<notin> P" and "kheap_inv s' (insert r P)" and "block_bytes (r, nbytes) \<subseteq> kheap_extent s' r"
    and "p \<in> P \<Longrightarrow> kheap_extent s' p = kheap_extent s p"
proof -
  obtain b F' where g: "r = b + 8" "b \<notin> (\<lambda>p. p - 8) ` P" "heap_inv s' F' (insert b ((\<lambda>p. p - 8) ` P))"
      "h_size s' b = (nbytes + 8 - 1) div 8 + 1" "\<forall>a\<in>(\<lambda>p. p - 8) ` P. h_size s' a = h_size s a"
    using got unfolding got_def by blast
  have b: "r - 8 = b" using g(1) by simp
  note lp = live_pointer [OF g(3), of r, unfolded b, OF insertI1]
  show "r \<noteq> 0" using lp(1) by auto
  show "r \<notin> P" using g(2) b by auto
  have "insert b ((\<lambda>p. p - 8) ` P) = (\<lambda>p. p - 8) ` insert r P" using b by simp
  with g(3) heap_inv_started [OF g(3)] show "kheap_inv s' (insert r P)" by (auto simp: kheap_inv_def)
  show "block_bytes (r, nbytes) \<subseteq> kheap_extent s' r"
    using kmalloc_units(3) [OF n] lp(1)
    by (simp add: block_bytes_def kheap_extent_def block_end_def b g(4) [simplified])
  show "p \<in> P \<Longrightarrow> kheap_extent s' p = kheap_extent s p"
    using g(5) by (simp add: kheap_extent_def block_end_def)
qed

lemma kheap_kfree:
  assumes inv: "kheap_inv s P" and p: "p \<in> P"
  shows "\<exists>s'. kfree s p = Some s' \<and> kheap_inv s' (P - {p}) \<and> (\<forall>q\<in>P - {p}. kheap_extent s' q = kheap_extent s q)"
proof -
  let ?L = "(\<lambda>p. p - 8) ` P" and ?b = "p - 8"
  obtain F where "heap_inv (kmalloc_start s) F ?L" and fp: "freep s \<noteq> 0" using inv p by (auto simp: kheap_inv_def)
  then have F: "heap_inv s F ?L" by (simp add: kmalloc_start_def)
  have b: "?b \<in> ?L" using p by blast
  have ok: "heap_ok s F ?L" and free: "freep s \<in> F" using F by (auto simp: heap_inv_def)
  have nz: "p \<noteq> 0" using live_pointer(1) [OF F b] by auto
  have "p = ?b + 8" by simp
  from kfree_ok [OF ok b free this nz] obtain s' F' where k: "kfree s p = Some s'" "heap_ok s' F' (?L - {?b})"
      "freep s' \<in> F'" "kpaging s' = kpaging s" "kbase s' = kbase s"
      "heap_bytes s' (F' \<union> (?L - {?b})) = heap_bytes s (F \<union> ?L)" "\<And>a. a \<in> ?L - {?b} \<Longrightarrow> h_size s' a = h_size s a"
    by metis
  have L: "?L - {?b} = (\<lambda>p. p - 8) ` (P - {p})" using p by auto
  have "heap_mapped s' (heap_bytes s (F \<union> ?L))" using F k(4,5) heap_mapped_cong unfolding heap_inv_def by blast
  with k(2,3,6) have inv': "heap_inv s' F' (?L - {?b})" by (simp add: heap_inv_def)
  then have "kheap_inv s' (P - {p})" using heap_inv_started [OF inv'] L by (auto simp: kheap_inv_def)
  moreover have "kheap_extent s' q = kheap_extent s q" if "q \<in> P - {p}" for q
    using k(7) [of "q - 8"] that by (auto simp: kheap_extent_def block_end_def)
  ultimately show ?thesis using k(1) by blast
qed

lemma kheap_disjoint:
  assumes inv: "kheap_inv s P" and pq: "p \<in> P" "q \<in> P" "p \<noteq> q"
  shows "kheap_extent s p \<inter> kheap_extent s q = {}"
proof -
  let ?L = "(\<lambda>p. p - 8) ` P"
  obtain F where "heap_inv (kmalloc_start s) F ?L" "freep s \<noteq> 0" using inv pq by (auto simp: kheap_inv_def)
  then have F: "heap_inv s F ?L" by (simp add: kmalloc_start_def)
  have B: "blocks_ok s (F \<union> ?L)" using F by (auto simp: heap_inv_def heap_ok_def)
  have lt: "kheap_extent s p \<inter> kheap_extent s q = {}" if "p \<in> P" "q \<in> P" "p - 8 < q - 8" for p q
  proof -
    have "block_end s (p - 8) \<le> unat (q - 8)" using blocks_okD(1) [OF B _ _ that(3)] that by blast
    moreover have "unat q = unat (q - 8) + 8" using live_pointer(1) [OF F] that by blast
    ultimately show ?thesis by (auto simp: kheap_extent_def)
  qed
  have "p - 8 \<noteq> q - 8" using pq(3) by simp
  then consider "p - 8 < q - 8" | "q - 8 < p - 8" by (metis linorder_less_linear)
  then show ?thesis using lt pq by cases blast+
qed

interpretation kheap: heap_allocator kheap_inv kheap_extent kmalloc kfree "0x3FFFF8"
proof unfold_locales
  fix s P n s' p q
  assume inv: "kheap_inv s P"
  show "p \<in> P \<Longrightarrow> \<exists>s'. kfree s p = Some s' \<and> kheap_inv s' (P - {p}) \<and> (\<forall>q\<in>P - {p}. kheap_extent s' q = kheap_extent s q)"
    by (rule kheap_kfree [OF inv])
  show "p \<in> P \<Longrightarrow> q \<in> P \<Longrightarrow> p \<noteq> q \<Longrightarrow> kheap_extent s p \<inter> kheap_extent s q = {}" by (rule kheap_disjoint [OF inv])
  assume n: "n \<le> (0x3FFFF8 :: u32)"
  have zero: "kmalloc s 0 = Some (s, 0)" by (simp add: kmalloc_def)
  have ok: "kheap_inv s' P" "\<forall>q\<in>P. kheap_extent s' q = kheap_extent s q"
    if "\<exists>F'. heap_inv s' F' ((\<lambda>p. p - 8) ` P)" "\<forall>a\<in>(\<lambda>p. p - 8) ` P. h_size s' a = h_size s a" for s'
    using that heap_inv_started by (auto simp: kheap_inv_def kheap_extent_def block_end_def)
  show "\<exists>s' p. kmalloc s n = Some (s', p)" using zero kmalloc_result [OF inv n] by (cases "n = 0") auto
  show "kmalloc s n = Some (s', 0) \<Longrightarrow> kheap_inv s' P"
    using zero inv kmalloc_result [OF inv n] got_block(1) [OF inv n] ok(1) by (cases "n = 0") fastforce+
  show "kmalloc s n = Some (s', p) \<Longrightarrow> p \<noteq> 0 \<Longrightarrow>
      p \<notin> P \<and> kheap_inv s' (insert p P) \<and> block_bytes (p, n) \<subseteq> kheap_extent s' p"
    using zero kmalloc_result [OF inv n] got_block(2-4) [OF inv n] by (cases "n = 0") fastforce+
  show "kmalloc s n = Some (s', p) \<Longrightarrow> q \<in> P \<Longrightarrow> kheap_extent s' q = kheap_extent s q"
    using zero kmalloc_result [OF inv n] got_block(5) [OF inv n] ok(2) by (cases "n = 0") fastforce+
qed

section \<open>Properties\<close>

definition example_kheap :: kheap where
  "example_kheap = \<lparr>kpaging = example_paging, kbase = 0xC0000010, freep = 0, h_next = (\<lambda>_. 0), h_size = (\<lambda>_. 0)\<rparr>"

lemma example_kheap_inv: "kheap_inv example_kheap {}"
proof -
  let ?s = "kmalloc_start example_kheap"
  have f: "h_next ?s = (\<lambda>_. 0)(0xC0000010 := 0xC0000010)" "h_size ?s = (\<lambda>_. 0)" "kbase ?s = 0xC0000010"
      "kpaging ?s = example_paging" "freep ?s = 0xC0000010"
    by (auto simp: kmalloc_start_def example_kheap_def)
  have "cnext {0xC0000010 :: u32} 0xC0000010 = 0xC0000010" by (simp add: cnext_def)
  then have "heap_ok ?s {0xC0000010} {}"
    by (simp add: heap_ok_def blocks_ok_def block_end_def ring_def f)
  moreover have "page_entry example_paging (kernel_pdt example_paging) 0xC0000010 \<noteq> None"
    by (simp add: page_entry_def lookup_def example_paging_def VIRTUAL_TO_PDT_IDX_def VIRTUAL_TO_PT_IDX_def
        present_make_entries get_pt_paddr_make)
  then have "heap_mapped ?s (heap_bytes ?s {0xC0000010})"
    using example_kernel(1)
    by (simp add: heap_mapped_def f VIRTUAL_TO_PDT_IDX_def heap_bytes_def block_end_def)
  ultimately have "heap_inv ?s {0xC0000010} {}" by (simp add: heap_inv_def f)
  then show ?thesis by (auto simp: kheap_inv_def)
qed

text \<open>C3. \<open>kmalloc\<close> and \<open>kfree\<close> never hand out memory twice: every call of every sequence of requests (up
  to 4 MB less a header) and releases returns, whatever joining and splitting of free blocks and
  whatever growing of the heap they cause, and the blocks that are live afterwards do not overlap.\<close>

theorem kmalloc_kfree_disjoint:
  assumes "kheap_inv s {}" and "\<forall>n. Request n \<in> set ops \<longrightarrow> n \<le> 0x3FFFF8"
  shows "\<exists>s' bs. run_heap kmalloc kfree ops (s, []) = Some (s', bs) \<and>
     (\<forall>i j. i < j \<and> j < length bs \<longrightarrow> block_bytes (bs ! i) \<inter> block_bytes (bs ! j) = {})"
  by (rule kheap.run_heap_disjoint [OF assms])

theorem kmalloc_kfree_disjoint_witness:
  "map_option snd (run_heap kmalloc kfree [Request 100, Request 24, Release 1, Request 100, Request 30] (example_kheap, [])) =
     Some [(0xC0002F50, 30), (0xC0002F98, 100), (0xC0002F78, 24)] \<and>
   (\<exists>s' bs. run_heap kmalloc kfree [Request 100, Request 24, Release 1, Request 100, Request 30] (example_kheap, []) = Some (s', bs) \<and>
     (\<forall>i j. i < j \<and> j < length bs \<longrightarrow> block_bytes (bs ! i) \<inter> block_bytes (bs ! j) = {}))"
proof
  show "map_option snd (run_heap kmalloc kfree [Request 100, Request 24, Release 1, Request 100, Request 30] (example_kheap, [])) =
     Some [(0xC0002F50, 30), (0xC0002F98, 100), (0xC0002F78, 24)]"
    by code_simp
qed (rule kmalloc_kfree_disjoint [OF example_kheap_inv], simp)

text \<open>C5. One request: \<open>kmalloc\<close> returns for every size up to 4 MB less a header, with 0 and the live
  blocks kept, or with a block that is not live, holds the bytes asked for and joins the live ones;
  the extent of every other live block stays. \<open>kfree\<close> of a live block returns and removes exactly
  that block from the live ones.\<close>

theorem kmalloc_correct:
  assumes "kheap_inv s P" and "nbytes \<le> 0x3FFFF8"
  shows "(\<exists>s' r. kmalloc s nbytes = Some (s', r) \<and>
      (r = 0 \<and> kheap_inv s' P \<or>
       r \<noteq> 0 \<and> r \<notin> P \<and> kheap_inv s' (insert r P) \<and> block_bytes (r, nbytes) \<subseteq> kheap_extent s' r) \<and>
      (\<forall>q\<in>P. kheap_extent s' q = kheap_extent s q)) \<and>
    (\<forall>p\<in>P. \<exists>s'. kfree s p = Some s' \<and> kheap_inv s' (P - {p}) \<and> (\<forall>q\<in>P - {p}. kheap_extent s' q = kheap_extent s q))"
proof -
  obtain s' r where k: "kmalloc s nbytes = Some (s', r)" using kheap.alloc_returns [OF assms] by blast
  with kheap.alloc_null [OF assms, of s'] kheap.alloc_block [OF assms k] kheap.alloc_keeps [OF assms k]
    kheap.free_block [OF assms(1)]
  show ?thesis by (cases "r = 0") auto
qed

theorem kmalloc_correct_witness:
  "\<exists>s' r. kmalloc example_kheap 100 = Some (s', r) \<and> (r = 0 \<or> block_bytes (r, 100) \<subseteq> kheap_extent s' r)"
proof -
  have "(100 :: u32) \<le> 0x3FFFF8" by simp
  from kmalloc_correct [OF example_kheap_inv this] show ?thesis by blast
qed

end
