(* ===== verification/Devfs.thy ===== *)
theory Devfs
  imports Vnode Cstring Kmalloc_Contract
begin

text \<open>
  The device file system of \<open>devfs.c\<close>: a linked list of named devices. The list elements lie in a store
  indexed by their address, as do the vnodes the devices gave; the name of an element is the copy
  \<open>kmalloc\<close> made room for. \<open>None\<close> stands for the \<open>NULL\<close> name. Searches follow \<open>next\<close> pointers, so they are partial
  functions: \<open>None\<close> as their result means that the search does not end.
\<close>

section \<open>Model\<close>

record devfs_inode =
  di_next :: u32
  di_name :: cstring
  di_node :: u32

record devfs =
  devices :: u32
  devfs_inodes :: "u32 \<Rightarrow> devfs_inode"
  dev_vnodes :: "u32 \<Rightarrow> vnode"
  devfs_root_vnode :: vnode

definition devfs_root :: "devfs \<Rightarrow> vnode \<times> int" where
  "devfs_root d = (devfs_root_vnode d, 0)"

definition devfs_open :: int where "devfs_open = - 1"
definition devfs_read :: int where "devfs_read = - 1"
definition devfs_write :: int where "devfs_write = - 1"

definition devfs_getattr :: "vattr \<times> int" where
  "devfs_getattr = (\<lparr>file_size = 0\<rparr>, 0)"

partial_function (option) devfs_find :: "devfs \<Rightarrow> u32 \<Rightarrow> cstring \<Rightarrow> u32 option" where
  "devfs_find d i name =
     (if i = 0 then Some 0
      else if strcmp_abs (di_name (devfs_inodes d i)) name = 0 then Some i
      else devfs_find d (di_next (devfs_inodes d i)) name)"

declare devfs_find.simps [code]

definition devfs_lookup :: "devfs \<Rightarrow> cstring option \<Rightarrow> vnode \<Rightarrow> (vnode \<times> int) option" where
  "devfs_lookup d name out =
     (case name of
        None \<Rightarrow> Some (out, - 1)
      | Some name \<Rightarrow>
          Option.bind (devfs_find d (devices d) name) (\<lambda>i.
            if i = 0 then Some (out, - 1)
            else Some (dev_vnodes d (di_node (devfs_inodes d i)), 0)))"

definition devfs_add_device :: "devfs \<Rightarrow> kheap \<Rightarrow> cstring option \<Rightarrow> u32 \<Rightarrow> (devfs \<times> kheap \<times> int) option" where
  "devfs_add_device d h path node =
     (case path of
        None \<Rightarrow> Some (d, h, - 1)
      | Some path \<Rightarrow>
          if length path = 0 then Some (d, h, - 1)
          else Option.bind (devfs_find d (devices d) path) (\<lambda>i.
            if i \<noteq> 0 then Some (d, h, - 1)
            else Option.bind (kmalloc h (of_nat (length path) + 1)) (\<lambda>(h, copy).
              if copy = 0 then Some (d, h, - 1)
              else Option.bind (kmalloc h 12) (\<lambda>(h, inode).
                if inode = 0 then Option.bind (kfree h copy) (\<lambda>h. Some (d, h, - 1))
                else
                  (let d = d\<lparr>devfs_inodes := (devfs_inodes d)(inode :=
                             \<lparr>di_next = 0, di_name = path, di_node = node\<rparr>)\<rparr>;
                       d = (if devices d = 0 then d\<lparr>devices := inode\<rparr>
                            else d\<lparr>devfs_inodes := (devfs_inodes d)(devices d :=
                                   (devfs_inodes d (devices d))\<lparr>di_next := inode\<rparr>)\<rparr>)
                   in Some (d, h, 0))))))"

definition devfs_init :: "devfs \<Rightarrow> vfs \<Rightarrow> devfs \<times> vfs \<times> int" where
  "devfs_init d vfs =
     (d\<lparr>devfs_root_vnode := (devfs_root_vnode d)\<lparr>v_op := Devfs_vnodeops\<rparr>\<rparr>,
      vfs\<lparr>vfs_op := Devfs_vfsops, vfs_data := 0\<rparr>, 0)"

section \<open>The devices in the list\<close>

primrec dev_chain :: "devfs \<Rightarrow> u32 \<Rightarrow> u32 list \<Rightarrow> bool" where
  "dev_chain d p [] \<longleftrightarrow> p = 0"
| "dev_chain d p (a # as) \<longleftrightarrow> p = a \<and> a \<noteq> 0 \<and> dev_chain d (di_next (devfs_inodes d a)) as"

lemma devfs_find_chain:
  "dev_chain d p as \<Longrightarrow> devfs_find d p name =
     Some (case List.find (\<lambda>a. di_name (devfs_inodes d a) = name) as of None \<Rightarrow> 0 | Some a \<Rightarrow> a)"
  by (induction as arbitrary: p) (subst devfs_find.simps, simp)+

lemma dev_chain_nonzero: "dev_chain d p as \<Longrightarrow> 0 \<notin> set as"
  by (induction as arbitrary: p) auto

text \<open>A well-formed device list: elements in live heap blocks, no name twice, and at most two elements,
  which is all that \<open>devfs_add_device\<close> ever leaves.\<close>

definition devfs_ok :: "devfs \<Rightarrow> kheap \<Rightarrow> u32 set \<Rightarrow> u32 list \<Rightarrow> bool" where
  "devfs_ok d h P as \<longleftrightarrow> dev_chain d (devices d) as \<and> set as \<subseteq> P \<and> kheap_inv h P \<and> length as \<le> 2"

definition dev_names :: "devfs \<Rightarrow> u32 list \<Rightarrow> (cstring \<times> u32) list" where
  "dev_names d as = map (\<lambda>a. (di_name (devfs_inodes d a), di_node (devfs_inodes d a))) as"

lemma find_Some_in: "List.find Q xs = Some a \<Longrightarrow> a \<in> set xs \<and> Q a"
  by (induction xs) (auto split: if_splits)

lemma devfs_lookup_result:
  assumes "dev_chain d (devices d) as"
  shows "devfs_lookup d (Some name) out =
    Some (case map_of (dev_names d as) name of Some v \<Rightarrow> (dev_vnodes d v, 0) | None \<Rightarrow> (out, - 1))"
proof -
  have "map_of (dev_names d as) name =
      map_option (\<lambda>a. di_node (devfs_inodes d a)) (List.find (\<lambda>a. di_name (devfs_inodes d a) = name) as)"
    by (induction as) (auto simp: dev_names_def)
  moreover have "a \<noteq> 0" if "List.find (\<lambda>a. di_name (devfs_inodes d a) = name) as = Some a" for a
    using that dev_chain_nonzero [OF assms] by (auto dest: find_Some_in)
  ultimately show ?thesis
    by (auto simp: devfs_lookup_def devfs_find_chain [OF assms] split: option.splits)
qed

lemma devfs_add_result:
  assumes ok: "devfs_ok d h P as" and path: "path \<noteq> []" "length path < 0x3FFFF8"
  obtains (refused) "path \<in> fst ` set (dev_names d as)" "devfs_add_device d h (Some path) node = Some (d, h, - 1)"
  | (no_memory) h' where "devfs_add_device d h (Some path) node = Some (d, h', - 1)" "kheap_inv h' P"
  | (added) d' h' P' as' where "devfs_add_device d h (Some path) node = Some (d', h', 0)" "devfs_ok d' h' P' as'"
      "P \<subseteq> P'" "dev_names d' as' = take 1 (dev_names d as) @ [(path, node)]" "dev_vnodes d' = dev_vnodes d"
      "path \<notin> fst ` set (dev_names d as)"
proof -
  have c: "dev_chain d (devices d) as" and P: "set as \<subseteq> P" and inv: "kheap_inv h P" using ok by (simp_all add: devfs_ok_def)
  have nz: "0 \<notin> set as" by (rule dev_chain_nonzero [OF c])
  have nm: "path \<in> fst ` set (dev_names d as) \<longleftrightarrow> List.find (\<lambda>a. di_name (devfs_inodes d a) = path) as \<noteq> None"
    by (auto simp: dev_names_def find_None_iff image_iff)
  show thesis
  proof (cases "path \<in> fst ` set (dev_names d as)")
    case True
    then obtain a where "List.find (\<lambda>a. di_name (devfs_inodes d a) = path) as = Some a" using nm by auto
    moreover from this have "a \<noteq> 0" using nz by (auto dest: find_Some_in)
    ultimately show ?thesis
      using True path devfs_find_chain [OF c] by (intro refused) (auto simp: devfs_add_device_def)
  next
    case False
    then have find: "devfs_find d (devices d) path = Some 0" using devfs_find_chain [OF c] nm by simp
    have len: "of_nat (length path) + 1 \<le> (0x3FFFF8 :: u32)"
      using path(2) by (simp add: word_le_nat_alt unat_add_nowrap unat_of_nat_small)
    obtain h1 copy where k1: "kmalloc h (of_nat (length path) + 1) = Some (h1, copy)" using kheap.alloc_returns [OF inv len] by blast
    show ?thesis
    proof (cases "copy = 0")
      case True
      with k1 kheap.alloc_null [OF inv len] path find show ?thesis
        by (intro no_memory [of h1]) (auto simp: devfs_add_device_def)
    next
      case cn: False
      have b1: "copy \<notin> P" "kheap_inv h1 (insert copy P)" using kheap.alloc_block [OF inv len k1 cn] by auto
      have l12: "(12 :: u32) \<le> 0x3FFFF8" by simp
      obtain h2 inode where k2: "kmalloc h1 12 = Some (h2, inode)" using kheap.alloc_returns [OF b1(2) l12] by blast
      show ?thesis
      proof (cases "inode = 0")
        case True
        have i2: "kheap_inv h2 (insert copy P)" using kheap.alloc_null [OF b1(2) l12] k2 True by blast
        then obtain h3 where "kfree h2 copy = Some h3" "kheap_inv h3 (insert copy P - {copy})"
          using kheap.free_block [OF i2 insertI1] by blast
        moreover have "insert copy P - {copy} = P" using b1(1) by blast
        ultimately show ?thesis
          using k1 k2 cn True path find by (intro no_memory [of h3]) (auto simp: devfs_add_device_def)
      next
        case iN: False
        have b2: "inode \<notin> insert copy P" "kheap_inv h2 (insert inode (insert copy P))"
          using kheap.alloc_block [OF b1(2) l12 k2 iN] by auto
        then have new: "inode \<notin> set as" using P by blast
        let ?e = "\<lparr>di_next = 0, di_name = path, di_node = node\<rparr>"
        let ?d1 = "d\<lparr>devfs_inodes := (devfs_inodes d)(inode := ?e)\<rparr>"
        let ?d2 = "if devices d = 0 then ?d1\<lparr>devices := inode\<rparr>
          else ?d1\<lparr>devfs_inodes := (devfs_inodes ?d1)(devices d := (devfs_inodes ?d1 (devices d))\<lparr>di_next := inode\<rparr>)\<rparr>"
        have add: "devfs_add_device d h (Some path) node = Some (?d2, h2, 0)"
          using k1 k2 cn iN path find by (simp add: devfs_add_device_def Let_def)
        have "dev_chain ?d2 (devices ?d2) (take 1 as @ [inode]) \<and>
            dev_names ?d2 (take 1 as @ [inode]) = take 1 (dev_names d as) @ [(path, node)]"
          using c new iN by (cases as) (auto simp: dev_names_def)
        moreover have "set (take 1 as @ [inode]) \<subseteq> insert inode (insert copy P)" using P set_take_subset [of 1 as] by auto
        ultimately show ?thesis
          using add b2(2) False
          by (intro added [of ?d2 h2 "insert inode (insert copy P)" "take 1 as @ [inode]"]) (auto simp: devfs_ok_def)
      qed
    qed
  qed
qed

section \<open>Properties\<close>

text \<open>\<open>devfs_add_device\<close> and \<open>devfs_lookup\<close> work together. Adding a device under a name that is taken
  is refused; otherwise, unless memory runs out, the new device is found under its name and so is the
  first device ever added; but every device added between these two is lost, because the new element
  is linked behind the first one and not at the end. An empty or missing name is refused.\<close>

lemma devfs_add_lookup:
  assumes "devfs_ok d h P as" and "path \<noteq> []" and "length path < 0x3FFFF8"
  shows "\<exists>d' h' r. devfs_add_device d h (Some path) node = Some (d', h', r) \<and>
      (r = - 1 \<and> d' = d \<and> kheap_inv h' P \<or>
       r = 0 \<and> path \<notin> fst ` set (dev_names d as) \<and>
       (\<exists>P' as'. devfs_ok d' h' P' as' \<and> P \<subseteq> P') \<and>
       (\<forall>name out. devfs_lookup d' (Some name) out =
          Some (if as \<noteq> [] \<and> name = fst (hd (dev_names d as)) then (dev_vnodes d (snd (hd (dev_names d as))), 0)
                else if name = path then (dev_vnodes d node, 0) else (out, - 1)))) \<and>
      (path \<in> fst ` set (dev_names d as) \<longrightarrow> r = - 1)"
  using assms
proof (cases rule: devfs_add_result [where node = node])
  case (added d' h' P' as')
  have "dev_chain d' (devices d') as'" using added(2) by (simp add: devfs_ok_def)
  note l = devfs_lookup_result [OF this, unfolded added(4,5)]
  have "devfs_lookup d' (Some name) out =
      Some (if as \<noteq> [] \<and> name = fst (hd (dev_names d as)) then (dev_vnodes d (snd (hd (dev_names d as))), 0)
            else if name = path then (dev_vnodes d node, 0) else (out, - 1))" for name out
    unfolding l by (cases as) (auto simp: dev_names_def)
  with added show ?thesis by blast
qed (use assms(1) in \<open>auto simp: devfs_ok_def\<close>)

definition example_devfs :: devfs where
  "example_devfs = \<lparr>devices = 0, devfs_inodes = (\<lambda>_. \<lparr>di_next = 0, di_name = [], di_node = 0\<rparr>),
     dev_vnodes = (\<lambda>_. \<lparr>v_op = Kbd_vnodeops, v_data = 0\<rparr>)(0x100 := \<lparr>v_op = Fb_vnodeops, v_data = 0\<rparr>),
     devfs_root_vnode = \<lparr>v_op = Devfs_vnodeops, v_data = 0\<rparr>\<rparr>"

end
