(* ===== verification/Vfs.thy ===== *)
theory Vfs
  imports Aefs Devfs Framebuffer Keyboard
begin

text \<open>
  The virtual file system of \<open>vfs.c\<close>: the list of mounted file systems, the search for the mount of a
  path, and the operations that go through a vnode's table. Paths are lists of bytes; the copy of the
  path that \<open>vfs_lookup\<close> cuts at its slashes lies in a block from \<open>kmalloc\<close>, of which the model keeps the
  allocation and its release. \<open>None\<close> as a result is a search that does not end or a use of the
  uninitialised \<open>root\<close>.
\<close>

section \<open>Model\<close>

abbreviation (input) SLASH :: u8 where "SLASH \<equiv> 47"

record vfs_state =
  vfs_list :: u32
  vfss :: "u32 \<Rightarrow> vfs"

record filesystems =
  fs_vfs :: vfs_state
  fs_aefs :: aefs
  fs_devfs :: devfs

text \<open>The walk to the last mounted file system; \<open>Some None\<close> is the early \<open>return -1\<close>.\<close>

partial_function (option) vfs_mount_walk :: "vfs_state \<Rightarrow> u32 \<Rightarrow> cstring \<Rightarrow> u32 option option" where
  "vfs_mount_walk s i path =
     (if vfs_next (vfss s i) \<noteq> 0 then
        (if strcmp_abs (mount_path (vfss s i)) path = 0 then Some None
         else vfs_mount_walk s (vfs_next (vfss s i)) path)
      else Some (Some i))"

declare vfs_mount_walk.simps [code]

definition set_vfs :: "u32 \<Rightarrow> vfs \<Rightarrow> vfs_state \<Rightarrow> vfs_state" where
  "set_vfs a v s = s\<lparr>vfss := (vfss s)(a := v)\<rparr>"

definition vfs_mount :: "vfs_state \<Rightarrow> kheap \<Rightarrow> cstring \<Rightarrow> u32 \<Rightarrow> (vfs_state \<times> kheap \<times> int) option" where
  "vfs_mount s h path vfs =
     Option.bind
       (if vfs_list s = 0 then Some (Some (s\<lparr>vfs_list := vfs\<rparr>))
        else Option.bind (vfs_mount_walk s (vfs_list s) path) (\<lambda>r.
               case r of None \<Rightarrow> Some None
               | Some i \<Rightarrow> Some (Some (set_vfs i ((vfss s i)\<lparr>vfs_next := vfs\<rparr>) s))))
       (\<lambda>r. case r of
          None \<Rightarrow> Some (s, h, - 1)
        | Some s \<Rightarrow>
            Option.bind (kmalloc h (of_nat (length path) + 1)) (\<lambda>(h, p).
              Some (set_vfs vfs ((vfss s vfs)\<lparr>mount_path := path, vfs_next := 0\<rparr>) s, h, 0)))"

text \<open>The number of leading characters two strings share.\<close>

fun common_len :: "cstring \<Rightarrow> cstring \<Rightarrow> nat" where
  "common_len (p # ps) (q # qs) = (if p = q then Suc (common_len ps qs) else 0)"
| "common_len _ _ = 0"

partial_function (option) find_mount_loop :: "vfs_state \<Rightarrow> cstring \<Rightarrow> u32 \<Rightarrow> u32 option \<Rightarrow> nat \<Rightarrow> (u32 option \<times> nat) option" where
  "find_mount_loop s path i root max_len =
     (if i \<noteq> 0 then
        (let idx = common_len path (mount_path (vfss s i))
         in if idx > max_len then find_mount_loop s path (vfs_next (vfss s i)) (Some i) idx
            else find_mount_loop s path (vfs_next (vfss s i)) root max_len)
      else Some (root, max_len))"

declare find_mount_loop.simps [code]

text \<open>The variable \<open>root\<close> is not initialised: \<open>None\<close> when no mount shares a character with the path.\<close>

definition find_longest_mount_path :: "vfs_state \<Rightarrow> cstring \<Rightarrow> (u32 option \<times> nat) option" where
  "find_longest_mount_path s path = find_mount_loop s path (vfs_list s) None 0"

definition vfs_root :: "filesystems \<Rightarrow> vfsops \<Rightarrow> (vnode \<times> int) option" where
  "vfs_root fs ops =
     (case ops of No_vfsops \<Rightarrow> None
      | Aefs_vfsops \<Rightarrow> Some (aefs_root (fs_aefs fs))
      | Devfs_vfsops \<Rightarrow> Some (devfs_root (fs_devfs fs)))"

definition vn_lookup :: "filesystems \<Rightarrow> mem \<Rightarrow> vnode \<Rightarrow> cstring \<Rightarrow> vnode \<Rightarrow> (vnode \<times> int) option" where
  "vn_lookup fs m dir name res =
     (case v_op dir of
        Aefs_vnodeops \<Rightarrow> Some (aefs_lookup (fs_aefs fs) m dir name res)
      | Devfs_vnodeops \<Rightarrow> devfs_lookup (fs_devfs fs) (Some name) res
      | Fb_vnodeops \<Rightarrow> Some (res, fb_lookup)
      | Kbd_vnodeops \<Rightarrow> Some (res, kbd_lookup))"

function vfs_walk :: "(vnode \<Rightarrow> cstring \<Rightarrow> vnode \<Rightarrow> (vnode \<times> int) option) \<Rightarrow> vnode \<Rightarrow> vnode \<Rightarrow> int \<Rightarrow> cstring \<Rightarrow> (vnode \<times> int) option" where
  "vfs_walk look vnode res ret p =
     (if length p \<noteq> 0 \<and> ret = 0 then
        (let slash_index = strcspn_abs p [SLASH];
             (name, inc) = (if slash_index \<noteq> length p then (take slash_index p, slash_index + 1) else (p, slash_index))
         in case look vnode name res of
              None \<Rightarrow> None
            | Some (res, ret) \<Rightarrow> vfs_walk look res res ret (drop inc p))
      else Some (res, ret))"
  by pat_completeness auto
termination
  by (relation "measure (\<lambda>(look, vnode, res, ret, p). length p)") (auto split: if_splits)

declare vfs_walk.simps [simp del]

definition vfs_lookup ::
  "filesystems \<Rightarrow> mem \<Rightarrow> kheap \<Rightarrow> cstring \<Rightarrow> vnode \<Rightarrow> (kheap \<times> vnode \<times> int) option" where
  "vfs_lookup fs m h path res =
     (if length path < 1 then Some (h, res, - 1)
      else if path ! 0 \<noteq> SLASH then Some (h, res, - 1)
      else Option.bind (find_longest_mount_path (fs_vfs fs) path) (\<lambda>(root, max_len).
        case root of
          None \<Rightarrow> None
        | Some root \<Rightarrow>
            (let path = drop max_len path
             in Option.bind (vfs_root fs (vfs_op (vfss (fs_vfs fs) root))) (\<lambda>(vnode, err).
                  if err \<noteq> 0 then Some (h, res, - 1)
                  else if length path = 0 then Some (h, vnode, 0)
                  else Option.bind (kmalloc h (of_nat (length path) + 1)) (\<lambda>(h, orgp).
                    Option.bind (vfs_walk (vn_lookup fs m) vnode res 0 path) (\<lambda>(res, ret).
                      Option.bind (kfree h orgp) (\<lambda>h. Some (h, res, ret))))))))"

definition vfs_open :: "vnode \<Rightarrow> int" where
  "vfs_open node =
     (case v_op node of Aefs_vnodeops \<Rightarrow> aefs_open | Devfs_vnodeops \<Rightarrow> devfs_open
      | Fb_vnodeops \<Rightarrow> fb_open | Kbd_vnodeops \<Rightarrow> kbd_open)"

text \<open>Reading the keyboard waits for key strokes: it is the step relation of \<open>Keyboard\<close> and has no result of
  its own here.\<close>

definition vfs_read :: "filesystems \<Rightarrow> mem \<Rightarrow> vnode \<Rightarrow> u32 \<Rightarrow> u32 \<Rightarrow> (mem \<times> int) option" where
  "vfs_read fs m node buf count =
     (case v_op node of Aefs_vnodeops \<Rightarrow> Some (aefs_read (fs_aefs fs) m node buf count)
      | Devfs_vnodeops \<Rightarrow> Some (m, devfs_read)
      | Fb_vnodeops \<Rightarrow> Some (m, fb_read)
      | Kbd_vnodeops \<Rightarrow> None)"

definition vfs_write :: "fb_state \<Rightarrow> vnode \<Rightarrow> u8 list \<Rightarrow> u32 \<Rightarrow> fb_state \<times> int" where
  "vfs_write fb node str len =
     (case v_op node of Aefs_vnodeops \<Rightarrow> (fb, aefs_write) | Devfs_vnodeops \<Rightarrow> (fb, devfs_write)
      | Fb_vnodeops \<Rightarrow> fb_write str len fb | Kbd_vnodeops \<Rightarrow> (fb, kbd_write))"

definition vfs_getattr :: "mem \<Rightarrow> vnode \<Rightarrow> vattr \<Rightarrow> vattr \<times> int" where
  "vfs_getattr m node attr =
     (case v_op node of Aefs_vnodeops \<Rightarrow> aefs_getattr m node | Devfs_vnodeops \<Rightarrow> devfs_getattr
      | Fb_vnodeops \<Rightarrow> (attr, fb_getattr) | Kbd_vnodeops \<Rightarrow> (attr, kbd_getattr))"

section \<open>The mounts\<close>

primrec vfs_chain :: "vfs_state \<Rightarrow> u32 \<Rightarrow> u32 list \<Rightarrow> bool" where
  "vfs_chain s p [] \<longleftrightarrow> p = 0"
| "vfs_chain s p (a # as) \<longleftrightarrow> p = a \<and> a \<noteq> 0 \<and> vfs_chain s (vfs_next (vfss s a)) as"

lemma vfs_chain_cong:
  "(\<And>a. a \<in> set as \<Longrightarrow> vfs_next (vfss s' a) = vfs_next (vfss s a)) \<Longrightarrow> vfs_chain s' p as = vfs_chain s p as"
  by (induction as arbitrary: p) auto

lemma vfs_chain_snoc:
  assumes "vfs_chain s p as" and "distinct as" and "as \<noteq> []" and "v \<notin> set as" and "v \<noteq> 0"
    and "\<And>a. a \<in> set as - {last as} \<Longrightarrow> vfs_next (vfss s' a) = vfs_next (vfss s a)"
    and "vfs_next (vfss s' (last as)) = v" and "vfs_next (vfss s' v) = 0"
  shows "vfs_chain s' p (as @ [v])"
  using assms
proof (induction as arbitrary: p)
  case (Cons a as)
  show ?case
  proof (cases "as = []")
    case True
    with Cons.prems show ?thesis by simp
  next
    case False
    then have "a \<noteq> last as" using Cons.prems(2) by auto
    with Cons False show ?thesis by simp
  qed
qed simp

text \<open>Walking the list compares the path with every mount but the last.\<close>

lemma vfs_mount_walk_chain:
  "vfs_chain s p as \<Longrightarrow> as \<noteq> [] \<Longrightarrow> vfs_mount_walk s p path =
     Some (if \<exists>a\<in>set (butlast as). mount_path (vfss s a) = path then None else Some (last as))"
proof (induction as arbitrary: p)
  case (Cons a as)
  show ?case
  proof (cases as)
    case Nil
    with Cons.prems show ?thesis by (subst vfs_mount_walk.simps) simp
  next
    case (Cons b bs)
    then have "vfs_chain s (vfs_next (vfss s a)) as" "vfs_next (vfss s a) \<noteq> 0" "p = a" "as \<noteq> []"
      using Cons.prems by auto
    with Cons.IH [of "vfs_next (vfss s a)"] show ?thesis
      by (subst vfs_mount_walk.simps) simp
  qed
qed simp

text \<open>The first of the mounts that share the most characters with the path.\<close>

fun best_mount :: "vfs_state \<Rightarrow> cstring \<Rightarrow> u32 list \<Rightarrow> u32 option \<Rightarrow> nat \<Rightarrow> u32 option \<times> nat" where
  "best_mount s path [] root n = (root, n)"
| "best_mount s path (a # as) root n =
     (let k = common_len path (mount_path (vfss s a))
      in if k > n then best_mount s path as (Some a) k else best_mount s path as root n)"

lemma find_mount_loop_chain: "vfs_chain s p as \<Longrightarrow> find_mount_loop s path p root n = Some (best_mount s path as root n)"
  by (induction as arbitrary: p root n) (subst find_mount_loop.simps, simp add: Let_def)+

lemma best_mount_max:
  assumes "best_mount s path as root n = (r, k)"
  shows "n \<le> k" and "\<forall>a\<in>set as. common_len path (mount_path (vfss s a)) \<le> k"
    and "k = n \<and> r = root \<or> (\<exists>a\<in>set as. r = Some a \<and> common_len path (mount_path (vfss s a)) = k)"
proof -
  have "n \<le> k \<and> (\<forall>a\<in>set as. common_len path (mount_path (vfss s a)) \<le> k) \<and>
     (k = n \<and> r = root \<or> (\<exists>a\<in>set as. r = Some a \<and> common_len path (mount_path (vfss s a)) = k))"
    using assms
  proof (induction as arbitrary: root n)
    case (Cons a as)
    then show ?case
      by (cases "n < common_len path (mount_path (vfss s a))") (auto simp: Let_def dest!: Cons.IH)
  qed simp
  then show "n \<le> k" "\<forall>a\<in>set as. common_len path (mount_path (vfss s a)) \<le> k"
    "k = n \<and> r = root \<or> (\<exists>a\<in>set as. r = Some a \<and> common_len path (mount_path (vfss s a)) = k)" by blast+
qed

section \<open>Components of a path\<close>

function split_path :: "cstring \<Rightarrow> cstring list" where
  "split_path p = (if p = [] then [] else takeWhile (\<lambda>c. c \<noteq> SLASH) p # split_path (tl (dropWhile (\<lambda>c. c \<noteq> SLASH) p)))"
  by pat_completeness auto
termination
proof (relation "measure length")
  fix p :: cstring assume "p \<noteq> []"
  moreover have "length (dropWhile (\<lambda>c. c \<noteq> SLASH) p) \<le> length p" by (rule length_dropWhile_le)
  ultimately have "length (tl (dropWhile (\<lambda>c. c \<noteq> SLASH) p)) < length p" by (simp only: length_tl length_greater_0_conv [symmetric])
  then show "(tl (dropWhile (\<lambda>c. c \<noteq> SLASH) p), p) \<in> measure length" by (simp only: in_measure)
qed simp

declare split_path.simps [simp del]

fun resolve :: "(vnode \<Rightarrow> cstring \<Rightarrow> vnode \<Rightarrow> (vnode \<times> int) option) \<Rightarrow> vnode \<Rightarrow> vnode \<Rightarrow> int \<Rightarrow> cstring list \<Rightarrow> (vnode \<times> int) option" where
  "resolve look v res ret [] = Some (res, ret)"
| "resolve look v res ret (c # cs) =
     (if ret \<noteq> 0 then Some (res, ret)
      else case look v c res of None \<Rightarrow> None | Some (res, ret) \<Rightarrow> resolve look res res ret cs)"

lemma strcspn_split:
  fixes p :: cstring
  defines "k \<equiv> strcspn_abs p [SLASH]"
  shows "take k p = takeWhile (\<lambda>c. c \<noteq> SLASH) p" and "k = length p \<Longrightarrow> takeWhile (\<lambda>c. c \<noteq> SLASH) p = p"
    and "drop (if k \<noteq> length p then k + 1 else k) p = tl (dropWhile (\<lambda>c. c \<noteq> SLASH) p)"
proof -
  have k: "k = length (takeWhile (\<lambda>c. c \<noteq> SLASH) p)" by (simp add: k_def strcspn_abs_def)
  show t: "take k p = takeWhile (\<lambda>c. c \<noteq> SLASH) p" unfolding k by (metis append_eq_conv_conj takeWhile_dropWhile_id)
  show "k = length p \<Longrightarrow> takeWhile (\<lambda>c. c \<noteq> SLASH) p = p" using t by simp
  have "drop k p = dropWhile (\<lambda>c. c \<noteq> SLASH) p" unfolding k by (simp add: dropWhile_eq_drop)
  then show "drop (if k \<noteq> length p then k + 1 else k) p = tl (dropWhile (\<lambda>c. c \<noteq> SLASH) p)"
    by (auto simp: drop_Suc tl_drop [symmetric] drop_tl)
qed

lemma vfs_walk_resolve: "vfs_walk look v res ret p = resolve look v res ret (split_path p)"
proof (induction look v res ret p rule: vfs_walk.induct)
  case (1 look v res ret p)
  let ?k = "strcspn_abs p [SLASH]" and ?c = "takeWhile (\<lambda>c. c \<noteq> SLASH) p" and ?r = "tl (dropWhile (\<lambda>c. c \<noteq> SLASH) p)"
  note s = strcspn_split [of p]
  have pair: "(if ?k \<noteq> length p then (take ?k p, ?k + 1) else (p, ?k)) = (?c, if ?k \<noteq> length p then ?k + 1 else ?k)"
    using s(1,2) by auto
  show ?case
  proof (cases "length p \<noteq> 0 \<and> ret = 0")
    case True
    have step: "vfs_walk look v res ret p =
        (case look v ?c res of None \<Rightarrow> None | Some (res, ret) \<Rightarrow> vfs_walk look res res ret ?r)"
      using True by (subst vfs_walk.simps) (simp only: Let_def pair prod.case s(3) if_True simp_thms)
    have IH: "vfs_walk look res' res' ret' ?r = resolve look res' res' ret' (split_path ?r)"
      if "look v ?c res = Some (res', ret')" for res' ret'
      using 1 [OF True refl, unfolded pair, OF refl refl that refl] s(3) by (simp only:)
    from True IH show ?thesis
      unfolding step by (subst split_path.simps) (auto split: option.splits)
  next
    case False
    then show ?thesis by (cases "p = []") (subst vfs_walk.simps, subst split_path.simps, simp)+
  qed
qed

section \<open>Properties\<close>

lemma vfs_lookup_result:
  assumes "vfs_chain (fs_vfs fs) (vfs_list (fs_vfs fs)) as" and "kheap_inv h P" and "length path < 0x3FFFF8"
    and "best_mount (fs_vfs fs) path as None 0 = (Some a, k)"
    and "vfs_root fs (vfs_op (vfss (fs_vfs fs) a)) = Some (v, 0)"
  shows "\<exists>h'. kheap_inv h' P \<and>
    vfs_lookup fs m h path res = map_option (\<lambda>(r, ret). (h', r, ret))
      (if path = [] \<or> hd path \<noteq> SLASH then Some (res, - 1)
       else if drop k path = [] then Some (v, 0)
       else resolve (vn_lookup fs m) v res 0 (split_path (drop k path)))"
proof -
  have find: "find_longest_mount_path (fs_vfs fs) path = Some (Some a, k)"
    using find_mount_loop_chain [OF assms(1)] assms(4) by (simp add: find_longest_mount_path_def)
  show ?thesis
  proof (cases "path = [] \<or> hd path \<noteq> SLASH \<or> drop k path = []")
    case True
    have "path ! 0 = hd path" if "path \<noteq> []" using that by (simp add: hd_conv_nth)
    moreover have "length (drop k path) = 0 \<longleftrightarrow> drop k path = []" by simp
    ultimately show ?thesis
      using True assms(2,5) find by (intro exI [of _ h]) (cases path; auto simp: vfs_lookup_def Let_def)
  next
    case False
    let ?rest = "drop k path"
    have len: "of_nat (length ?rest) + 1 \<le> (0x3FFFF8 :: u32)"
      using assms(3) by (simp add: word_le_nat_alt unat_add_nowrap unat_of_nat_small del: length_drop) (simp add: unat_add_nowrap unat_of_nat_small)
    obtain h1 p where k1: "kmalloc h (of_nat (length ?rest) + 1) = Some (h1, p)" using kheap.alloc_returns [OF assms(2) len] by blast
    obtain h2 where k2: "kfree h1 p = Some h2" "kheap_inv h2 P"
    proof (cases "p = 0")
      case True
      with that [of h1] kheap.alloc_null [OF assms(2) len] k1 show ?thesis by (simp add: kfree_def)
    next
      case False
      from kheap.alloc_block [OF assms(2) len k1 False] have b: "p \<notin> P" "kheap_inv h1 (insert p P)" by auto
      moreover have "insert p P - {p} = P" using b(1) by blast
      ultimately show ?thesis using that kheap.free_block [OF b(2) insertI1] by metis
    qed
    have "path ! 0 = SLASH" "\<not> length path < 1" "length ?rest \<noteq> 0" using False by (auto simp: hd_conv_nth)
    then have "vfs_lookup fs m h path res = Option.bind (vfs_walk (vn_lookup fs m) v res 0 ?rest)
        (\<lambda>(res, ret). Some (h2, res, ret))"
      using find assms(5) k1 k2(1) by (simp add: vfs_lookup_def Let_def del: length_drop)
    also have "\<dots> = map_option (\<lambda>(r, ret). (h2, r, ret)) (resolve (vn_lookup fs m) v res 0 (split_path ?rest))"
      unfolding vfs_walk_resolve by (cases "resolve (vn_lookup fs m) v res 0 (split_path ?rest)") auto
    finally show ?thesis using k2(2) False by auto
  qed
qed

text \<open>C16. \<open>vfs_lookup\<close> refuses a path that does not start with a slash. Any other path is resolved
  component by component, in order, from the root of the mount that shares the most leading characters
  with it, and a failing lookup ends the search with its error; a path that is the mount itself gives
  its root. The copy of the path is given back: the same heap blocks are live afterwards.\<close>

theorem vfs_lookup_correct:
  assumes "vfs_chain (fs_vfs fs) (vfs_list (fs_vfs fs)) as" and "kheap_inv h P" and "length path < 0x3FFFF8"
    and "best_mount (fs_vfs fs) path as None 0 = (Some a, k)"
    and "vfs_root fs (vfs_op (vfss (fs_vfs fs) a)) = Some (v, 0)"
  shows "\<exists>h'. kheap_inv h' P \<and>
    vfs_lookup fs m h path res = map_option (\<lambda>(r, ret). (h', r, ret))
      (if path = [] \<or> hd path \<noteq> SLASH then Some (res, - 1)
       else if drop k path = [] then Some (v, 0)
       else resolve (vn_lookup fs m) v res 0 (split_path (drop k path)))"
  by (rule vfs_lookup_result [OF assms])

text \<open>A kernel with the two mounts of \<open>kmain\<close>.\<close>

definition dev_path :: cstring where "dev_path = [47, 100, 101, 118, 47]"

definition example_vfs :: vfs_state where
  "example_vfs = \<lparr>vfs_list = 0x1000,
     vfss = (\<lambda>_. \<lparr>vfs_next = 0, vfs_op = Devfs_vfsops, mount_path = dev_path, vfs_data = 0\<rparr>)
       (0x1000 := \<lparr>vfs_next = 0x2000, vfs_op = Aefs_vfsops, mount_path = [47], vfs_data = 0\<rparr>)\<rparr>"

definition example_fs :: filesystems where
  "example_fs = \<lparr>fs_vfs = example_vfs, fs_aefs = example_aefs,
     fs_devfs = example_devfs\<lparr>devices := 0x500, devfs_inodes := (\<lambda>_. \<lparr>di_next = 0, di_name = [102, 98], di_node = 0x100\<rparr>)\<rparr>\<rparr>"

lemma example_fs_chain: "vfs_chain (fs_vfs example_fs) (vfs_list (fs_vfs example_fs)) [0x1000, 0x2000]"
  by (simp add: example_fs_def example_vfs_def)

theorem vfs_lookup_correct_witness:
  "\<exists>h'. vfs_lookup example_fs example_image example_kheap (dev_path @ [102, 98]) \<lparr>v_op = Kbd_vnodeops, v_data = 7\<rparr> =
     Some (h', \<lparr>v_op = Fb_vnodeops, v_data = 0\<rparr>, 0)"
proof -
  let ?p = "dev_path @ [102, 98]" and ?res = "\<lparr>v_op = Kbd_vnodeops, v_data = 7\<rparr> :: vnode"
  have b: "best_mount (fs_vfs example_fs) ?p [0x1000, 0x2000] None 0 = (Some 0x2000, 5)" by code_simp
  have r: "vfs_root example_fs (vfs_op (vfss (fs_vfs example_fs) 0x2000)) = Some (\<lparr>v_op = Devfs_vnodeops, v_data = 0\<rparr>, 0)"
    by code_simp
  have "length ?p < 0x3FFFF8" by (simp add: dev_path_def)
  from vfs_lookup_correct [OF example_fs_chain example_kheap_inv this b r, of example_image ?res]
  obtain h' where "vfs_lookup example_fs example_image example_kheap ?p ?res = map_option (\<lambda>(r, ret). (h', r, ret))
      (resolve (vn_lookup example_fs example_image) \<lparr>v_op = Devfs_vnodeops, v_data = 0\<rparr> ?res 0 (split_path [102, 98]))"
    by (auto simp: dev_path_def)
  moreover have "resolve (vn_lookup example_fs example_image) \<lparr>v_op = Devfs_vnodeops, v_data = 0\<rparr> ?res 0 (split_path [102, 98]) =
      Some (\<lparr>v_op = Fb_vnodeops, v_data = 0\<rparr>, 0)" by code_simp
  ultimately show ?thesis by auto
qed



text \<open>\<open>vfs_mount\<close> appends the file system to the list of mounts under its path. It refuses a path that
  is taken by a mount other than the last one; the last mount escapes the comparison, so its path can
  be mounted twice.\<close>

lemma vfs_mount_appends:
  assumes "vfs_chain s (vfs_list s) as" and "distinct as" and "v \<notin> set as" and "v \<noteq> 0"
    and "kheap_inv h P" and "length path < 0x3FFFF8"
  shows "\<exists>s' h' r. vfs_mount s h path v = Some (s', h', r) \<and>
    (if \<exists>a\<in>set (butlast as). mount_path (vfss s a) = path then r = - 1 \<and> s' = s \<and> h' = h
     else r = 0 \<and> vfs_chain s' (vfs_list s') (as @ [v]) \<and> mount_path (vfss s' v) = path \<and> vfs_op (vfss s' v) = vfs_op (vfss s v) \<and>
       (\<forall>a\<in>set as. mount_path (vfss s' a) = mount_path (vfss s a) \<and> vfs_op (vfss s' a) = vfs_op (vfss s a)) \<and>
       (\<exists>P'. P \<subseteq> P' \<and> kheap_inv h' P'))"
proof -
  have len: "of_nat (length path) + 1 \<le> (0x3FFFF8 :: u32)"
    using assms(6) by (simp add: word_le_nat_alt unat_add_nowrap unat_of_nat_small)
  obtain h' p where k: "kmalloc h (of_nat (length path) + 1) = Some (h', p)" using kheap.alloc_returns [OF assms(5) len] by blast
  have P': "\<exists>P'. P \<subseteq> P' \<and> kheap_inv h' P'"
    using kheap.alloc_null [OF assms(5) len, of h'] kheap.alloc_block [OF assms(5) len k] k
    by (cases "p = 0") blast+
  show ?thesis
  proof (cases "as = []")
    case True
    with assms(1,4) k P' show ?thesis by (simp add: vfs_mount_def set_vfs_def)
  next
    case False
    then have l: "vfs_list s \<noteq> 0" "last as \<in> set as" using assms(1) by (cases as; simp)+
    note w = vfs_mount_walk_chain [OF assms(1) False, of path]
    show ?thesis
    proof (cases "\<exists>a\<in>set (butlast as). mount_path (vfss s a) = path")
      case True
      with l(1) w show ?thesis by (simp add: vfs_mount_def)
    next
      case nd: False
      let ?s1 = "set_vfs (last as) ((vfss s (last as))\<lparr>vfs_next := v\<rparr>) s"
      let ?s2 = "set_vfs v ((vfss ?s1 v)\<lparr>mount_path := path, vfs_next := 0\<rparr>) ?s1"
      have lv: "last as \<noteq> v" using l(2) assms(3) by auto
      have "vfs_mount s h path v = Some (?s2, h', 0)"
        using l(1) w nd k by (simp add: vfs_mount_def)
      moreover have "vfs_chain ?s2 (vfs_list s) (as @ [v])"
        by (rule vfs_chain_snoc [OF assms(1,2) False assms(3,4)]) (use lv assms(3) in \<open>auto simp: set_vfs_def\<close>)
      then have "vfs_chain ?s2 (vfs_list ?s2) (as @ [v])" by (simp add: set_vfs_def)
      moreover have "\<forall>a\<in>set as. mount_path (vfss ?s2 a) = mount_path (vfss s a) \<and> vfs_op (vfss ?s2 a) = vfs_op (vfss s a)"
        using assms(3) lv by (auto simp: set_vfs_def)
      moreover have "mount_path (vfss ?s2 v) = path" "vfs_op (vfss ?s2 v) = vfs_op (vfss s v)" using lv by (simp_all add: set_vfs_def)
      ultimately show ?thesis using nd P' by (simp only: if_False simp_thms) blast
    qed
  qed
qed

end
