(* ===== verification/Kernel_State.thy ===== *)
theory Kernel_State
  imports Vfs Log "HOL-Library.Monad_Syntax"
begin

text \<open>
  The state the process manager, the scheduler and the system calls share: the heap with the paging
  state in it, the file systems, physical memory, and the kernel objects (processes, lists of page
  frames, list elements, vnodes) in stores indexed by their address, 0 being \<open>NULL\<close>. Memory is
  accessed through the page directory that is loaded; an access to a page that is not mapped faults,
  which the model shows as \<open>None\<close>, like a loop that does not end.
\<close>

section \<open>Data of process.h, scheduler.c and interrupt.h\<close>

record registers =
  r_eax :: u32
  r_ebx :: u32
  r_ecx :: u32
  r_edx :: u32
  r_ebp :: u32
  r_esi :: u32
  r_edi :: u32
  r_ss :: u32
  r_esp :: u32
  r_eflags :: u32
  r_cs :: u32
  r_eip :: u32

record paddr_ele =
  pe_paddr :: u32
  pe_count :: u32
  pe_next :: u32

record paddr_list =
  pl_start :: u32
  pl_end :: u32

abbreviation (input) PROCESS_MAX_NUM_FD :: u32 where "PROCESS_MAX_NUM_FD \<equiv> 64"

text \<open>\<open>file_descriptors\<close> holds the addresses of the open files' vnodes.\<close>

record ps =
  ps_id :: u32
  ps_parent_id :: u32
  ps_pdt :: u32
  ps_pdt_paddr :: u32
  ps_current :: registers
  ps_user_mode :: registers
  kernel_stack_start_vaddr :: u32
  stack_start_vaddr :: u32
  code_start_vaddr :: u32
  file_descriptors :: "u32 list"
  code_paddrs :: paddr_list
  stack_paddrs :: paddr_list
  kernel_stack_paddrs :: paddr_list

record ps_list_ele =
  le_next :: u32
  le_ps :: u32

record ps_list =
  pss_start :: u32
  pss_end :: u32

record cpu_state =
  c_edi :: u32
  c_esi :: u32
  c_ebp :: u32
  c_edx :: u32
  c_ecx :: u32
  c_ebx :: u32
  c_eax :: u32
  c_esp :: u32

record stack_state =
  st_eip :: u32
  st_cs :: u32
  st_eflags :: u32
  st_user_esp :: u32
  st_user_ss :: u32

text \<open>\<open>idt_info_t\<close>, and the functions the kernel registers as interrupt handlers.\<close>

record idt_info =
  idt_index :: u32
  error_code :: u32

datatype handler = Keyboard_handler | Serial_com1_handler | Serial_com2_handler | Scheduler_handler

text \<open>What the processor goes on with after \<open>run_process_in_user_mode\<close> or
  \<open>run_process_in_kernel_mode\<close>.\<close>

datatype cpu_mode = In_kernel | Run_user registers | Run_kernel registers

record kernel =
  k_heap :: kheap
  k_fs :: filesystems
  k_fb :: fb_state
  k_kbd :: kbd_buffer
  k_io :: io
  k_phys :: mem
  k_pdt :: u32
  k_ps :: "u32 \<Rightarrow> ps"
  k_pe :: "u32 \<Rightarrow> paddr_ele"
  k_vn :: "u32 \<Rightarrow> vnode"
  k_ele :: "u32 \<Rightarrow> ps_list_ele"
  runnable_pss :: ps_list
  zombie_pss :: ps_list
  sched_ms :: u32
  tss_esp0 :: u32
  tss_ss0 :: u16
  interrupt_handlers :: "u32 \<Rightarrow> handler option"
  interrupts_enabled :: bool
  k_cpu :: cpu_mode

section \<open>Access to the parts\<close>

definition k_paging :: "kernel \<Rightarrow> paging" where
  "k_paging s = kpaging (k_heap s)"

definition set_paging :: "paging \<Rightarrow> kernel \<Rightarrow> kernel" where
  "set_paging pg s = s\<lparr>k_heap := (k_heap s)\<lparr>kpaging := pg\<rparr>\<rparr>"

definition k_pfa_allocate :: "kernel \<Rightarrow> u32 \<Rightarrow> kernel \<times> u32" where
  "k_pfa_allocate s n =
     (let (pa, p) = pfa_allocate (pfa_st (k_paging s)) n
      in (set_paging ((k_paging s)\<lparr>pfa_st := pa\<rparr>) s, p))"

definition k_pfa_free_cont :: "kernel \<Rightarrow> u32 \<Rightarrow> u32 \<Rightarrow> kernel" where
  "k_pfa_free_cont s paddr n = set_paging ((k_paging s)\<lparr>pfa_st := pfa_free_cont (pfa_st (k_paging s)) paddr n\<rparr>) s"

definition k_find_vaddr :: "kernel \<Rightarrow> u32 \<Rightarrow> kernel \<times> u32" where
  "k_find_vaddr s sz = (let (pg, v) = pdt_kernel_find_next_vaddr (k_paging s) sz in (set_paging pg s, v))"

definition k_map_kernel :: "kernel \<Rightarrow> u32 \<Rightarrow> u32 \<Rightarrow> u32 \<Rightarrow> (kernel \<times> u32) option" where
  "k_map_kernel s paddr vaddr sz =
     do { (pg, mapped) \<leftarrow> pdt_map_kernel_memory (k_paging s) paddr vaddr sz PAGING_READ_WRITE PAGING_PL0;
          Some (set_paging pg s, mapped) }"

definition k_map_user :: "kernel \<Rightarrow> u32 \<Rightarrow> u32 \<Rightarrow> u32 \<Rightarrow> u32 \<Rightarrow> (kernel \<times> u32) option" where
  "k_map_user s pdt paddr vaddr sz =
     do { (pg, mapped) \<leftarrow> pdt_map_memory (k_paging s) pdt paddr vaddr sz PAGING_READ_WRITE PAGING_PL3;
          Some (set_paging pg s, mapped) }"

definition k_unmap_kernel :: "kernel \<Rightarrow> u32 \<Rightarrow> u32 \<Rightarrow> kernel option" where
  "k_unmap_kernel s vaddr sz =
     do { (pg, freed) \<leftarrow> pdt_unmap_kernel_memory (k_paging s) vaddr sz; Some (set_paging pg s) }"

definition k_kmalloc :: "kernel \<Rightarrow> u32 \<Rightarrow> (kernel \<times> u32) option" where
  "k_kmalloc s n = do { (h, p) \<leftarrow> kmalloc (k_heap s) n; Some (s\<lparr>k_heap := h\<rparr>, p) }"

definition k_kfree :: "kernel \<Rightarrow> u32 \<Rightarrow> kernel option" where
  "k_kfree s p = do { h \<leftarrow> kfree (k_heap s) p; Some (s\<lparr>k_heap := h\<rparr>) }"

section \<open>Memory through the loaded directory\<close>

definition translate :: "kernel \<Rightarrow> u32 \<Rightarrow> u32 option" where
  "translate s x = map_option (\<lambda>e. get_pf_paddr e + x mod 4096) (page_entry (k_paging s) (k_pdt s) x)"

definition view :: "kernel \<Rightarrow> mem" where
  "view s x = (case translate s x of Some p \<Rightarrow> k_phys s p | None \<Rightarrow> 0)"

text \<open>A 32-bit store, lowest byte first.\<close>

definition store_byte :: "u32 \<Rightarrow> u8 \<Rightarrow> kernel \<Rightarrow> kernel option" where
  "store_byte a b s = do { p \<leftarrow> translate s a; Some (s\<lparr>k_phys := (k_phys s)(p := b)\<rparr>) }"

definition store_word :: "u32 \<Rightarrow> u32 \<Rightarrow> kernel \<Rightarrow> kernel option" where
  "store_word a v s =
     do { s \<leftarrow> store_byte a (ucast v) s; s \<leftarrow> store_byte (a + 1) (ucast (drop_bit 8 v)) s;
          s \<leftarrow> store_byte (a + 2) (ucast (drop_bit 16 v)) s; store_byte (a + 3) (ucast (drop_bit 24 v)) s }"

text \<open>\<open>memcpy\<close> through the loaded directory.\<close>

fun vcopy :: "kernel \<Rightarrow> u32 \<Rightarrow> u32 \<Rightarrow> nat \<Rightarrow> kernel option" where
  "vcopy s dst src 0 = Some s"
| "vcopy s dst src (Suc n) =
     do { p \<leftarrow> translate s dst; q \<leftarrow> translate s src;
          vcopy (s\<lparr>k_phys := (k_phys s)(p := k_phys s q)\<rparr>) (dst + 1) (src + 1) n }"

text \<open>What a file operation wrote into the buffer, put into physical memory.\<close>

fun write_back :: "kernel \<Rightarrow> mem \<Rightarrow> u32 \<Rightarrow> nat \<Rightarrow> kernel option" where
  "write_back s m buf 0 = Some s"
| "write_back s m buf (Suc n) =
     do { p \<leftarrow> translate s buf; write_back (s\<lparr>k_phys := (k_phys s)(p := m buf)\<rparr>) m (buf + 1) n }"

definition k_vfs_lookup :: "kernel \<Rightarrow> cstring \<Rightarrow> vnode \<Rightarrow> (kernel \<times> vnode \<times> int) option" where
  "k_vfs_lookup s path res =
     do { (h, res, ret) \<leftarrow> vfs_lookup (k_fs s) (view s) (k_heap s) path res; Some (s\<lparr>k_heap := h\<rparr>, res, ret) }"

definition k_vfs_read :: "kernel \<Rightarrow> vnode \<Rightarrow> u32 \<Rightarrow> u32 \<Rightarrow> (kernel \<times> int) option" where
  "k_vfs_read s node buf count =
     do { (m, r) \<leftarrow> vfs_read (k_fs s) (view s) node buf count;
          s \<leftarrow> write_back s m buf (nat r);
          Some (s, r) }"

definition set_ps :: "u32 \<Rightarrow> ps \<Rightarrow> kernel \<Rightarrow> kernel" where
  "set_ps p x s = s\<lparr>k_ps := (k_ps s)(p := x)\<rparr>"

definition upd_ps :: "u32 \<Rightarrow> (ps \<Rightarrow> ps) \<Rightarrow> kernel \<Rightarrow> kernel" where
  "upd_ps p f s = s\<lparr>k_ps := (k_ps s)(p := f (k_ps s p))\<rparr>"

definition set_pe :: "u32 \<Rightarrow> paddr_ele \<Rightarrow> kernel \<Rightarrow> kernel" where
  "set_pe p x s = s\<lparr>k_pe := (k_pe s)(p := x)\<rparr>"

definition set_vn :: "u32 \<Rightarrow> vnode \<Rightarrow> kernel \<Rightarrow> kernel" where
  "set_vn p x s = s\<lparr>k_vn := (k_vn s)(p := x)\<rparr>"

definition set_ele :: "u32 \<Rightarrow> ps_list_ele \<Rightarrow> kernel \<Rightarrow> kernel" where
  "set_ele p x s = s\<lparr>k_ele := (k_ele s)(p := x)\<rparr>"

section \<open>Interrupts\<close>

text \<open>\<open>register_interrupt_handler\<close> (\<open>interrupt.c\<close>) and the instructions \<open>sti\<close> and \<open>cli\<close>.\<close>

abbreviation (input) SYSCALL_INT_IDX :: u32 where "SYSCALL_INT_IDX \<equiv> 0xAE"

definition register_interrupt_handler :: "u32 \<Rightarrow> handler \<Rightarrow> kernel \<Rightarrow> kernel \<times> u32" where
  "register_interrupt_handler interrupt h s =
     (if interrupt > 255 then (s, 1)
      else if interrupt = SYSCALL_INT_IDX then (s, 1)
      else if interrupt_handlers s interrupt \<noteq> None then (s, 1)
      else (s\<lparr>interrupt_handlers := (interrupt_handlers s)(interrupt := Some h)\<rparr>, 0))"

definition enable_interrupts :: "kernel \<Rightarrow> kernel" where
  "enable_interrupts s = s\<lparr>interrupts_enabled := True\<rparr>"

definition disable_interrupts :: "kernel \<Rightarrow> kernel" where
  "disable_interrupts s = s\<lparr>interrupts_enabled := False\<rparr>"

lemmas kernel_access = k_paging_def set_paging_def k_kmalloc_def k_kfree_def
  set_ps_def upd_ps_def set_pe_def set_vn_def set_ele_def

end
