(* ===== verification/Process.thy ===== *)
theory Process
  imports Kernel_State
begin

text \<open>
  Processes (\<open>process.c\<close>): creating one from a file, cloning one, replacing one, and giving its
  resources back. A process is the record at its address in \<open>k_ps\<close>; the lists of its page frames are
  chains of elements in \<open>k_pe\<close>. The functions that return \<open>0\<close> or \<open>-1\<close> in C return the new state with
  that number, the functions that return a pointer the new state with the address.
\<close>

section \<open>The operations\<close>

abbreviation (input) PROC_INITIAL_STACK_SIZE :: u32 where "PROC_INITIAL_STACK_SIZE \<equiv> 1"
abbreviation (input) PROC_INITIAL_STACK_VADDR :: u32 where "PROC_INITIAL_STACK_VADDR \<equiv> 0xBFFFF000"
abbreviation (input) PROC_INITIAL_ESP :: u32 where "PROC_INITIAL_ESP \<equiv> 0xBFFFFFFC"
abbreviation (input) KERNEL_STACK_SIZE :: u32 where "KERNEL_STACK_SIZE \<equiv> 0x1000"
abbreviation (input) SIZEOF_PADDR_ELE :: u32 where "SIZEOF_PADDR_ELE \<equiv> 12"
abbreviation (input) SIZEOF_VNODE :: u32 where "SIZEOF_VNODE \<equiv> 8"
abbreviation (input) SIZEOF_PS :: u32 where "SIZEOF_PS \<equiv> 404"

text \<open>The locals \<open>node\<close> and \<open>attr\<close> before they are assigned.\<close>

definition unset_vnode :: vnode where "unset_vnode = \<lparr>v_op = Aefs_vnodeops, v_data = 0\<rparr>"
definition unset_vattr :: vattr where "unset_vattr = \<lparr>file_size = 0\<rparr>"

definition process_load_code :: "kernel \<Rightarrow> u32 \<Rightarrow> cstring \<Rightarrow> u32 \<Rightarrow> (kernel \<times> int) option" where
  "process_load_code s ps path vaddr =
     do { (s, node, err) \<leftarrow> k_vfs_lookup s path unset_vnode;
          if err \<noteq> 0 then Some (s, - 1) else
          let (attr, err) = vfs_getattr (view s) node unset_vattr in
          if err \<noteq> 0 then Some (s, - 1) else
          let pfs = div_ceil (file_size attr) FOUR_KB;
              (s, paddr) = k_pfa_allocate s pfs in
          if paddr = 0 then Some (s, - 1) else
          let (s, kernel_vaddr) = k_find_vaddr s (file_size attr) in
          if kernel_vaddr = 0 then Some (s, - 1) else
          do { (s, mapped) \<leftarrow> k_map_kernel s paddr kernel_vaddr (file_size attr);
               if mapped < file_size attr then
                 do { s \<leftarrow> k_unmap_kernel s kernel_vaddr (file_size attr); Some (s, - 1) }
               else
               do { (s, r) \<leftarrow> k_vfs_read s node kernel_vaddr (file_size attr);
                    if r \<noteq> sint (file_size attr) then
                      do { s \<leftarrow> k_unmap_kernel s kernel_vaddr (file_size attr); Some (s, - 1) }
                    else
                    do { s \<leftarrow> k_unmap_kernel s kernel_vaddr (file_size attr);
                         (s, mapped) \<leftarrow> k_map_user s (ps_pdt (k_ps s ps)) paddr vaddr (file_size attr);
                         if mapped < file_size attr then Some (s, - 1) else
                         do { (s, ele) \<leftarrow> k_kmalloc s SIZEOF_PADDR_ELE;
                              if ele = 0 then Some (s, - 1) else
                              let s = set_pe ele \<lparr>pe_paddr = paddr, pe_count = pfs, pe_next = 0\<rparr> s in
                              Some (upd_ps ps (\<lambda>p. p\<lparr>code_paddrs := \<lparr>pl_start = ele, pl_end = ele\<rparr>,
                                      ps_user_mode := (ps_user_mode p)\<lparr>r_eip := vaddr\<rparr>,
                                      code_start_vaddr := vaddr\<rparr>) s, 0) } } } } }"

definition process_load_stack :: "kernel \<Rightarrow> u32 \<Rightarrow> (kernel \<times> int) option" where
  "process_load_stack s ps =
     (let pfs = div_ceil PROC_INITIAL_STACK_SIZE FOUR_KB;
          (s, paddr) = k_pfa_allocate s pfs in
      if paddr = 0 then Some (s, - 1) else
      let bytes = pfs * FOUR_KB in
      do { (s, mapped) \<leftarrow> k_map_user s (ps_pdt (k_ps s ps)) paddr PROC_INITIAL_STACK_VADDR bytes;
           if mapped < bytes then Some (s, - 1) else
           do { (s, ele) \<leftarrow> k_kmalloc s SIZEOF_PADDR_ELE;
                if ele = 0 then Some (s, - 1) else
                let s = set_pe ele \<lparr>pe_paddr = paddr, pe_count = pfs, pe_next = 0\<rparr> s in
                Some (upd_ps ps (\<lambda>p. p\<lparr>stack_paddrs := \<lparr>pl_start = ele, pl_end = ele\<rparr>,
                        stack_start_vaddr := PROC_INITIAL_STACK_VADDR,
                        ps_user_mode := (ps_user_mode p)\<lparr>r_esp := PROC_INITIAL_ESP\<rparr>\<rparr>) s, 0) } })"

definition process_load_kernel_stack :: "kernel \<Rightarrow> u32 \<Rightarrow> (kernel \<times> int) option" where
  "process_load_kernel_stack s ps =
     (let pfs = div_ceil KERNEL_STACK_SIZE FOUR_KB;
          (s, paddr) = k_pfa_allocate s pfs in
      if paddr = 0 then Some (s, - 1) else
      let bytes = pfs * FOUR_KB;
          (s, vaddr) = k_find_vaddr s bytes in
      if vaddr = 0 then Some (s, - 1) else
      do { (s, mapped) \<leftarrow> k_map_kernel s paddr vaddr bytes;
           if mapped \<noteq> bytes then Some (s, - 1) else
           do { (s, ele) \<leftarrow> k_kmalloc s SIZEOF_PADDR_ELE;
                if ele = 0 then Some (s, - 1) else
                let s = set_pe ele \<lparr>pe_paddr = paddr, pe_count = pfs, pe_next = 0\<rparr> s in
                Some (upd_ps ps (\<lambda>p. p\<lparr>kernel_stack_paddrs := \<lparr>pl_start = ele, pl_end = ele\<rparr>,
                        kernel_stack_start_vaddr := vaddr + bytes - 4\<rparr>) s, 0) } })"

definition process_load_pdt :: "kernel \<Rightarrow> u32 \<Rightarrow> (kernel \<times> int) option" where
  "process_load_pdt s ps =
     do { (pg, pdt, paddr) \<leftarrow> pdt_create (k_paging s);
          let s = set_paging pg s in
          if pdt = 0 \<or> paddr = 0 then Some (s, - 1)
          else Some (upd_ps ps (\<lambda>p. p\<lparr>ps_pdt := pdt, ps_pdt_paddr := paddr\<rparr>) s, 0) }"

partial_function (option) delete_paddr_loop :: "kernel \<Rightarrow> u32 \<Rightarrow> u32 \<Rightarrow> (kernel \<times> u32) option" where
  "delete_paddr_loop s current sz =
     (if current = 0 then Some (s, sz)
      else let e = k_pe s current;
               s = k_pfa_free_cont s (pe_paddr e) (pe_count e)
           in Option.bind (k_kfree s current) (\<lambda>s. delete_paddr_loop s (pe_next e) (sz + pe_count e)))"

declare delete_paddr_loop.simps [code]

definition delete_paddr_list :: "kernel \<Rightarrow> paddr_list \<Rightarrow> (kernel \<times> u32) option" where
  "delete_paddr_list s l =
     do { (s, sz) \<leftarrow> delete_paddr_loop s (pl_start l) 0; Some (s, sz * FOUR_KB) }"

text \<open>The vnodes of the open files are not freed.\<close>

definition process_delete_resources :: "kernel \<Rightarrow> u32 \<Rightarrow> kernel option" where
  "process_delete_resources s ps =
     (let s = (if ps_pdt (k_ps s ps) \<noteq> 0 then set_paging (pdt_delete (k_paging s) (ps_pdt (k_ps s ps))) s else s) in
      do { s \<leftarrow> (if kernel_stack_start_vaddr (k_ps s ps) \<noteq> 0
                  then do { (s, sz) \<leftarrow> delete_paddr_list s (kernel_stack_paddrs (k_ps s ps));
                            k_unmap_kernel s (kernel_stack_start_vaddr (k_ps s ps)) sz }
                  else Some s);
           (s, sz) \<leftarrow> delete_paddr_list s (code_paddrs (k_ps s ps));
           (s, sz) \<leftarrow> delete_paddr_list s (stack_paddrs (k_ps s ps));
           Some s })"

definition process_delete_and_free :: "kernel \<Rightarrow> u32 \<Rightarrow> kernel option" where
  "process_delete_and_free s ps = do { s \<leftarrow> process_delete_resources s ps; k_kfree s ps }"

definition zero_registers :: registers where
  "zero_registers = \<lparr>r_eax = 0, r_ebx = 0, r_ecx = 0, r_edx = 0, r_ebp = 0, r_esi = 0, r_edi = 0,
     r_ss = 0, r_esp = 0, r_eflags = 0, r_cs = 0, r_eip = 0\<rparr>"

definition null_paddrs :: paddr_list where "null_paddrs = \<lparr>pl_start = 0, pl_end = 0\<rparr>"

definition process_init :: "u32 \<Rightarrow> ps \<Rightarrow> ps" where
  "process_init i p = p\<lparr>ps_id := i, ps_parent_id := 0, ps_pdt := 0, ps_pdt_paddr := 0,
     kernel_stack_start_vaddr := 0, code_start_vaddr := 0, stack_start_vaddr := PROC_INITIAL_STACK_VADDR,
     code_paddrs := null_paddrs, stack_paddrs := null_paddrs, kernel_stack_paddrs := null_paddrs,
     file_descriptors := replicate 64 0,
     ps_user_mode := zero_registers\<lparr>r_eflags := REG_EFLAGS_DEFAULT, r_ss := SEGSEL_USER_SPACE_DS OR 3,
        r_cs := SEGSEL_USER_SPACE_CS OR 3\<rparr>,
     ps_current := zero_registers\<rparr>"

definition process_create :: "kernel \<Rightarrow> cstring \<Rightarrow> u32 \<Rightarrow> (kernel \<times> u32) option" where
  "process_create s path i =
     do { (s, ps) \<leftarrow> k_kmalloc s SIZEOF_PS;
          if ps = 0 then Some (s, 0) else
          do { (s, err) \<leftarrow> process_load_pdt (upd_ps ps (process_init i) s) ps;
               if err \<noteq> 0 then do { s \<leftarrow> process_delete_and_free s ps; Some (s, 0) } else
               do { (s, err) \<leftarrow> process_load_code s ps path 0;
                    if err \<noteq> 0 then do { s \<leftarrow> process_delete_and_free s ps; Some (s, 0) } else
                    do { (s, err) \<leftarrow> process_load_stack s ps;
                         if err \<noteq> 0 then do { s \<leftarrow> process_delete_and_free s ps; Some (s, 0) } else
                         do { (s, err) \<leftarrow> process_load_kernel_stack s ps;
                              if err \<noteq> 0 then do { s \<leftarrow> process_delete_and_free s ps; Some (s, 0) } else
                              Some (upd_ps ps (\<lambda>p. p\<lparr>ps_current := ps_user_mode p\<rparr>) s, ps) } } } } }"

function copy_fds_loop :: "kernel \<Rightarrow> u32 \<Rightarrow> u32 \<Rightarrow> nat \<Rightarrow> (kernel \<times> int) option" where
  "copy_fds_loop s from_ps to_ps i =
     (if i < 64 then
        let vn = file_descriptors (k_ps s from_ps) ! i in
        if vn \<noteq> 0 then
          do { (s, copy) \<leftarrow> k_kmalloc s SIZEOF_VNODE;
               if copy = 0 then Some (s, - 1)
               else copy_fds_loop
                      (upd_ps to_ps (\<lambda>p. p\<lparr>file_descriptors := (file_descriptors p)[i := copy]\<rparr>)
                        (set_vn copy (vnode_copy (k_vn s vn) (k_vn s copy)) s))
                      from_ps to_ps (Suc i) }
        else copy_fds_loop s from_ps to_ps (Suc i)
      else Some (s, 0))"
  by pat_completeness auto
termination by (relation "measure (\<lambda>(s, f, t, i). 64 - i)") auto

declare copy_fds_loop.simps [simp del]

definition process_copy_file_descriptors :: "kernel \<Rightarrow> u32 \<Rightarrow> u32 \<Rightarrow> (kernel \<times> int) option" where
  "process_copy_file_descriptors s from_ps to_ps = copy_fds_loop s from_ps to_ps 0"

definition process_create_replacement :: "kernel \<Rightarrow> u32 \<Rightarrow> cstring \<Rightarrow> (kernel \<times> u32) option" where
  "process_create_replacement s parent path =
     do { (s, child) \<leftarrow> process_create s path (ps_id (k_ps s parent));
          if child = 0 then Some (s, 0) else
          let s = upd_ps child (\<lambda>p. p\<lparr>ps_parent_id := ps_parent_id (k_ps s parent)\<rparr>) s in
          do { (s, err) \<leftarrow> process_copy_file_descriptors s parent child;
               if err \<noteq> 0 then do { s \<leftarrow> process_delete_and_free s child; Some (s, 0) }
               else Some (s, child) } }"

text \<open>Which of the three lists of a process \<open>process_copy_paddr_list\<close> extends is given by its field and
  the update of that field.\<close>

definition append_paddr :: "(ps \<Rightarrow> paddr_list) \<Rightarrow> ((paddr_list \<Rightarrow> paddr_list) \<Rightarrow> ps \<Rightarrow> ps) \<Rightarrow> u32 \<Rightarrow> u32 \<Rightarrow> kernel \<Rightarrow> kernel" where
  "append_paddr fld upd child pe s =
     (if pl_start (fld (k_ps s child)) = 0
      then upd_ps child (upd (\<lambda>l. l\<lparr>pl_start := pe, pl_end := pe\<rparr>)) s
      else let e = pl_end (fld (k_ps s child))
           in upd_ps child (upd (\<lambda>l. l\<lparr>pl_end := pe\<rparr>)) (set_pe e ((k_pe s e)\<lparr>pe_next := pe\<rparr>) s))"

partial_function (option) copy_paddr_loop ::
  "(ps \<Rightarrow> paddr_list) \<Rightarrow> ((paddr_list \<Rightarrow> paddr_list) \<Rightarrow> ps \<Rightarrow> ps) \<Rightarrow> u32 \<Rightarrow> kernel \<Rightarrow> u32 \<Rightarrow> u32 \<Rightarrow> u32 \<Rightarrow> (kernel \<times> int) option" where
  "copy_paddr_loop fld upd child s pdt vaddr p =
     (if p = 0 then Some (s, 0)
      else let count = pe_count (k_pe s p); (s, paddr) = k_pfa_allocate s count
           in if paddr = 0 then Some (s, - 1)
           else let bytes = count * FOUR_KB; (s, kernel_vaddr) = k_find_vaddr s bytes
           in if kernel_vaddr = 0 then Some (k_pfa_free_cont s paddr count, - 1)
           else Option.bind (k_map_kernel s paddr kernel_vaddr bytes) (\<lambda>(s, mapped).
             if mapped < bytes
             then Option.bind (k_unmap_kernel s kernel_vaddr bytes) (\<lambda>s. Some (k_pfa_free_cont s paddr count, - 1))
             else Option.bind (vcopy s kernel_vaddr vaddr (unat bytes)) (\<lambda>s.
             Option.bind (k_unmap_kernel s kernel_vaddr bytes) (\<lambda>s.
             Option.bind (k_kmalloc s SIZEOF_PADDR_ELE) (\<lambda>(s, pe).
               if pe = 0 then Some (k_pfa_free_cont s paddr count, - 1)
               else let s = append_paddr fld upd child pe (set_pe pe \<lparr>pe_paddr = paddr, pe_count = count, pe_next = 0\<rparr> s)
               in Option.bind (k_map_user s pdt paddr vaddr bytes) (\<lambda>(s, mapped).
                 if mapped < bytes
                 then Option.bind (k_kfree s pe) (\<lambda>s. Some (k_pfa_free_cont s paddr count, - 1))
                 else copy_paddr_loop fld upd child s pdt (vaddr + bytes) (pe_next (k_pe s p))))))))"

declare copy_paddr_loop.simps [code]

definition process_copy_paddr_list ::
  "(ps \<Rightarrow> paddr_list) \<Rightarrow> ((paddr_list \<Rightarrow> paddr_list) \<Rightarrow> ps \<Rightarrow> ps) \<Rightarrow> kernel \<Rightarrow> u32 \<Rightarrow> u32 \<Rightarrow> u32 \<Rightarrow> u32 \<Rightarrow> (kernel \<times> int) option" where
  "process_copy_paddr_list fld upd s pdt vaddr parent child =
     copy_paddr_loop fld upd child s pdt vaddr (pl_start (fld (k_ps s parent)))"

definition process_clone :: "kernel \<Rightarrow> u32 \<Rightarrow> u32 \<Rightarrow> (kernel \<times> u32) option" where
  "process_clone s parent i =
     do { (s, child) \<leftarrow> k_kmalloc s SIZEOF_PS;
          if child = 0 then Some (s, 0) else
          let s = upd_ps child (process_init i) s;
              s = upd_ps child (\<lambda>p. p\<lparr>ps_parent_id := ps_id (k_ps s parent), ps_user_mode := ps_user_mode (k_ps s parent)\<rparr>) s in
          do { (s, err) \<leftarrow> process_load_pdt s child;
               if err \<noteq> 0 then do { s \<leftarrow> process_delete_and_free s child; Some (s, 0) } else
               let s = upd_ps child (\<lambda>p. p\<lparr>code_start_vaddr := code_start_vaddr (k_ps s parent)\<rparr>) s in
               do { (s, err) \<leftarrow> process_copy_paddr_list code_paddrs code_paddrs_update s (ps_pdt (k_ps s child))
                                  (code_start_vaddr (k_ps s parent)) parent child;
                    if err \<noteq> 0 then do { s \<leftarrow> process_delete_and_free s child; Some (s, 0) } else
                    let s = upd_ps child (\<lambda>p. p\<lparr>stack_start_vaddr := stack_start_vaddr (k_ps s parent)\<rparr>) s in
                    do { (s, err) \<leftarrow> process_copy_paddr_list stack_paddrs stack_paddrs_update s (ps_pdt (k_ps s child))
                                       (stack_start_vaddr (k_ps s parent)) parent child;
                         if err \<noteq> 0 then do { s \<leftarrow> process_delete_and_free s child; Some (s, 0) } else
                         do { (s, err) \<leftarrow> process_load_kernel_stack s child;
                              if err \<noteq> 0 then do { s \<leftarrow> process_delete_and_free s child; Some (s, 0) } else
                              do { (s, err) \<leftarrow> process_copy_file_descriptors s parent child;
                                   if err \<noteq> 0 then do { s \<leftarrow> process_delete_and_free s child; Some (s, 0) }
                                   else Some (s, child) } } } } } }"

end
