(* ===== verification/Scheduler.thy ===== *)
theory Scheduler
  imports Process
begin

text \<open>
  The scheduler (\<open>scheduler.c\<close>, \<open>tss.c\<close>): two singly linked lists of processes, the runnable ones with
  the current process at the head, and the zombies. Time slices come from the programmable interval
  timer. \<open>scheduler_asm.s\<close> gives the processor to a process; in the model that is the value of \<open>k_cpu\<close>.
\<close>

section \<open>The operations\<close>

abbreviation (input) SCHEDULER_PIT_INTERVAL :: u32 where "SCHEDULER_PIT_INTERVAL \<equiv> 2"
abbreviation (input) SCHEDULER_TIME_SLICE :: u32 where "SCHEDULER_TIME_SLICE \<equiv> 10"
abbreviation (input) PIT_INT_IDX :: u32 where "PIT_INT_IDX \<equiv> 0x20"
abbreviation (input) SIZEOF_PS_LIST_ELE :: u32 where "SIZEOF_PS_LIST_ELE \<equiv> 8"

text \<open>Which of the two lists a function works on.\<close>

datatype which = Runnable | Zombie

fun pss_of :: "which \<Rightarrow> kernel \<Rightarrow> ps_list" where
  "pss_of Runnable s = runnable_pss s"
| "pss_of Zombie s = zombie_pss s"

fun set_pss :: "which \<Rightarrow> ps_list \<Rightarrow> kernel \<Rightarrow> kernel" where
  "set_pss Runnable l s = s\<lparr>runnable_pss := l\<rparr>"
| "set_pss Zombie l s = s\<lparr>zombie_pss := l\<rparr>"

partial_function (option) max_id_loop :: "kernel \<Rightarrow> u32 \<Rightarrow> u32 \<Rightarrow> u32 option" where
  "max_id_loop s p mx =
     (if p = 0 then Some mx
      else let ps = le_ps (k_ele s p)
           in max_id_loop s (le_next (k_ele s p)) (if ps \<noteq> 0 \<and> ps_id (k_ps s ps) \<ge> mx then ps_id (k_ps s ps) else mx))"

declare max_id_loop.simps [code]

definition max_id_in_ps_list :: "kernel \<Rightarrow> ps_list \<Rightarrow> u32 option" where
  "max_id_in_ps_list s pss = max_id_loop s (pss_start pss) 0"

definition scheduler_next_pid :: "kernel \<Rightarrow> u32 option" where
  "scheduler_next_pid s =
     do { pid_runnable \<leftarrow> max_id_in_ps_list s (runnable_pss s);
          pid_zombie \<leftarrow> max_id_in_ps_list s (zombie_pss s);
          Some (maxu pid_runnable pid_zombie + 1) }"

definition scheduler_copy_common_registers :: "registers \<Rightarrow> cpu_state \<Rightarrow> stack_state \<Rightarrow> registers" where
  "scheduler_copy_common_registers r cpu stack =
     r\<lparr>r_eax := c_eax cpu, r_ebx := c_ebx cpu, r_ecx := c_ecx cpu, r_edx := c_edx cpu, r_ebp := c_ebp cpu,
       r_esi := c_esi cpu, r_edi := c_edi cpu, r_eip := st_eip stack, r_eflags := st_eflags stack, r_cs := st_cs stack\<rparr>"

definition scheduler_update_user_registers :: "cpu_state \<Rightarrow> stack_state \<Rightarrow> ps \<Rightarrow> ps" where
  "scheduler_update_user_registers cpu stack p =
     (let r = (scheduler_copy_common_registers (ps_user_mode p) cpu stack)\<lparr>r_esp := st_user_esp stack, r_ss := st_user_ss stack\<rparr>
      in p\<lparr>ps_user_mode := r, ps_current := r\<rparr>)"

definition scheduler_update_kernel_registers :: "cpu_state \<Rightarrow> stack_state \<Rightarrow> ps \<Rightarrow> ps" where
  "scheduler_update_kernel_registers cpu stack p =
     p\<lparr>ps_current := (scheduler_copy_common_registers (ps_current p) cpu stack)\<lparr>r_esp := c_esp cpu + 12, r_ss := SEGSEL_KERNEL_DS\<rparr>\<rparr>"

definition scheduler_get_current_process :: "kernel \<Rightarrow> u32" where
  "scheduler_get_current_process s =
     (if pss_start (runnable_pss s) = 0 then 0 else le_ps (k_ele s (pss_start (runnable_pss s))))"

definition scheduler_get_and_rotate_runnable_process :: "kernel \<Rightarrow> kernel \<times> u32" where
  "scheduler_get_and_rotate_runnable_process s =
     (let start = pss_start (runnable_pss s) in
      if start = 0 \<or> le_ps (k_ele s start) = 0 then (s, 0)
      else let s = (if le_next (k_ele s start) \<noteq> 0 then
                      let s = s\<lparr>runnable_pss := (runnable_pss s)\<lparr>pss_start := le_next (k_ele s start)\<rparr>\<rparr>;
                          s = set_ele start ((k_ele s start)\<lparr>le_next := 0\<rparr>) s;
                          e = pss_end (runnable_pss s);
                          s = set_ele e ((k_ele s e)\<lparr>le_next := start\<rparr>) s
                      in s\<lparr>runnable_pss := (runnable_pss s)\<lparr>pss_end := start\<rparr>\<rparr>
                    else s)
           in (s, le_ps (k_ele s (pss_start (runnable_pss s)))))"

definition tss_set_kernel_stack :: "u16 \<Rightarrow> u32 \<Rightarrow> kernel \<Rightarrow> kernel" where
  "tss_set_kernel_stack segsel vaddr s = s\<lparr>tss_esp0 := vaddr, tss_ss0 := segsel\<rparr>"

text \<open>\<open>iret\<close> takes the interrupt flag from bit 9 of the saved flags.\<close>

definition run_process_in_user_mode :: "registers \<Rightarrow> kernel \<Rightarrow> kernel" where
  "run_process_in_user_mode r s = s\<lparr>k_cpu := Run_user r, interrupts_enabled := bit (r_eflags r) 9\<rparr>"

definition run_process_in_kernel_mode :: "registers \<Rightarrow> kernel \<Rightarrow> kernel" where
  "run_process_in_kernel_mode r s = s\<lparr>k_cpu := Run_kernel r, interrupts_enabled := bit (r_eflags r) 9\<rparr>"

definition k_load_pdt :: "u32 \<Rightarrow> u32 \<Rightarrow> kernel \<Rightarrow> kernel" where
  "k_load_pdt pdt pdt_paddr s =
     (set_paging (pdt_load_process_pdt (k_paging s) pdt pdt_paddr) s)\<lparr>k_pdt := pdt\<rparr>"

definition scheduler_schedule :: "kernel \<Rightarrow> kernel" where
  "scheduler_schedule s =
     (let (s, ps) = scheduler_get_and_rotate_runnable_process s in
      if ps = 0 then s
      else let s = tss_set_kernel_stack (ucast SEGSEL_KERNEL_DS) (kernel_stack_start_vaddr (k_ps s ps)) s;
               s = k_load_pdt (ps_pdt (k_ps s ps)) (ps_pdt_paddr (k_ps s ps)) s
           in if r_cs (ps_current (k_ps s ps)) = SEGSEL_KERNEL_CS
              then run_process_in_kernel_mode (ps_current (k_ps s ps)) s
              else run_process_in_user_mode (ps_current (k_ps s ps)) s)"

text \<open>The function is called \<open>scheduler_schedule_on_intterupt\<close> in the source. Without a current process it
  writes through a null pointer.\<close>

definition scheduler_schedule_on_interrupt :: "cpu_state \<Rightarrow> stack_state \<Rightarrow> kernel \<Rightarrow> kernel option" where
  "scheduler_schedule_on_interrupt cpu stack s =
     (let s = disable_interrupts s; ps = scheduler_get_current_process s in
      if ps = 0 then None
      else let s = (if st_cs stack = SEGSEL_USER_SPACE_CS OR 3
                    then upd_ps ps (scheduler_update_user_registers cpu stack) s
                    else upd_ps ps (scheduler_update_kernel_registers cpu stack) s)
           in Some (scheduler_schedule (s\<lparr>k_io := pic_acknowledge (k_io s)\<rparr>)))"

definition scheduler_handle_pit_interrupt :: "cpu_state \<Rightarrow> stack_state \<Rightarrow> kernel \<Rightarrow> kernel option" where
  "scheduler_handle_pit_interrupt cpu stack s =
     (let s = s\<lparr>sched_ms := sched_ms s + SCHEDULER_PIT_INTERVAL\<rparr> in
      if sched_ms s \<ge> SCHEDULER_TIME_SLICE
      then scheduler_schedule_on_interrupt cpu stack (s\<lparr>sched_ms := 0\<rparr>)
      else Some (s\<lparr>k_io := pic_acknowledge (k_io s)\<rparr>))"

definition scheduler_init :: "kernel \<Rightarrow> (kernel \<times> u32) option" where
  "scheduler_init s =
     do { i \<leftarrow> pit_set_interval SCHEDULER_PIT_INTERVAL (k_io s);
          Some (register_interrupt_handler PIT_INT_IDX Scheduler_handler (s\<lparr>k_io := i\<rparr>)) }"

definition scheduler_add_process :: "which \<Rightarrow> kernel \<Rightarrow> u32 \<Rightarrow> (kernel \<times> int) option" where
  "scheduler_add_process w s ps =
     do { (s, ele) \<leftarrow> k_kmalloc s SIZEOF_PS_LIST_ELE;
          if ele = 0 then Some (s, - 1) else
          let s = set_ele ele \<lparr>le_next = 0, le_ps = ps\<rparr> s;
              s = (if pss_start (pss_of w s) = 0 then set_pss w ((pss_of w s)\<lparr>pss_start := ele\<rparr>) s
                   else set_ele (pss_end (pss_of w s)) ((k_ele s (pss_end (pss_of w s)))\<lparr>le_next := ele\<rparr>) s)
          in Some (set_pss w ((pss_of w s)\<lparr>pss_end := ele\<rparr>) s, 0) }"

definition scheduler_add_runnable_process :: "kernel \<Rightarrow> u32 \<Rightarrow> (kernel \<times> int) option" where
  "scheduler_add_runnable_process s ps = scheduler_add_process Runnable s ps"

text \<open>\<open>prev->next = NULL\<close>: with \<open>prev\<close> null it is a store at the virtual address 0.\<close>

definition clear_next :: "u32 \<Rightarrow> kernel \<Rightarrow> kernel option" where
  "clear_next prv s = (if prv = 0 then store_word 0 0 s else Some (set_ele prv ((k_ele s prv)\<lparr>le_next := 0\<rparr>) s))"

definition unlink :: "which \<Rightarrow> u32 \<Rightarrow> u32 \<Rightarrow> kernel \<Rightarrow> kernel option" where
  "unlink w prv current s =
     (let s = (if prv = 0 then set_pss w ((pss_of w s)\<lparr>pss_start := le_next (k_ele s current)\<rparr>) s
               else set_ele prv ((k_ele s prv)\<lparr>le_next := le_next (k_ele s current)\<rparr>) s) in
      if pss_end (pss_of w s) = current
      then clear_next prv (set_pss w ((pss_of w s)\<lparr>pss_end := prv\<rparr>) s) else Some s)"

partial_function (option) remove_loop :: "which \<Rightarrow> u32 \<Rightarrow> bool \<Rightarrow> kernel \<Rightarrow> u32 \<Rightarrow> u32 \<Rightarrow> (kernel \<times> int) option" where
  "remove_loop w pid should_delete s prv current =
     (if current = 0 then Some (s, - 1)
      else if le_ps (k_ele s current) \<noteq> 0 \<and> ps_id (k_ps s (le_ps (k_ele s current))) = pid then
        Option.bind (unlink w prv current s) (\<lambda>s.
        Option.bind (if should_delete
                     then Option.bind (process_delete_resources s (le_ps (k_ele s current))) (\<lambda>s. k_kfree s (le_ps (k_ele s current)))
                     else Some s) (\<lambda>s.
        Option.bind (k_kfree s current) (\<lambda>s. Some (s, 0))))
      else remove_loop w pid should_delete s current (le_next (k_ele s current)))"

declare remove_loop.simps [code]

definition scheduler_remove_process :: "which \<Rightarrow> kernel \<Rightarrow> u32 \<Rightarrow> bool \<Rightarrow> (kernel \<times> int) option" where
  "scheduler_remove_process w s pid should_delete = remove_loop w pid should_delete s 0 (pss_start (pss_of w s))"

definition scheduler_terminate_process :: "kernel \<Rightarrow> u32 \<Rightarrow> kernel option" where
  "scheduler_terminate_process s ps =
     do { (s, r) \<leftarrow> scheduler_remove_process Runnable s (ps_id (k_ps s ps)) False;
          s \<leftarrow> process_delete_resources s ps;
          (s, r) \<leftarrow> scheduler_add_process Zombie s ps;
          Some s }"

partial_function (option) child_terminated_loop :: "kernel \<Rightarrow> u32 \<Rightarrow> u32 \<Rightarrow> bool option" where
  "child_terminated_loop s pid e =
     (if e = 0 then Some False
      else if ps_parent_id (k_ps s (le_ps (k_ele s e))) = pid then Some True
      else child_terminated_loop s pid (le_next (k_ele s e)))"

declare child_terminated_loop.simps [code]

definition scheduler_has_any_child_terminated :: "kernel \<Rightarrow> u32 \<Rightarrow> bool option" where
  "scheduler_has_any_child_terminated s parent = child_terminated_loop s (ps_id (k_ps s parent)) (pss_start (zombie_pss s))"

partial_function (option) count_children_loop :: "kernel \<Rightarrow> u32 \<Rightarrow> u32 \<Rightarrow> int \<Rightarrow> int option" where
  "count_children_loop s pid e num =
     (if e = 0 then Some num
      else count_children_loop s pid (le_next (k_ele s e)) (if ps_parent_id (k_ps s (le_ps (k_ele s e))) = pid then num + 1 else num))"

declare count_children_loop.simps [code]

definition scheduler_count_children_in_list :: "kernel \<Rightarrow> ps_list \<Rightarrow> u32 \<Rightarrow> int option" where
  "scheduler_count_children_in_list s pss pid = count_children_loop s pid (pss_start pss) 0"

definition scheduler_num_children :: "kernel \<Rightarrow> u32 \<Rightarrow> int option" where
  "scheduler_num_children s pid =
     do { num_zombies \<leftarrow> scheduler_count_children_in_list s (zombie_pss s) pid;
          num_running \<leftarrow> scheduler_count_children_in_list s (runnable_pss s) pid;
          Some (num_zombies + num_running) }"

definition scheduler_replace_process :: "kernel \<Rightarrow> u32 \<Rightarrow> u32 \<Rightarrow> (kernel \<times> int) option" where
  "scheduler_replace_process s old new =
     do { (s, err) \<leftarrow> scheduler_remove_process Runnable s (ps_id (k_ps s old)) True;
          if err \<noteq> 0 then Some (s, - 1) else scheduler_add_runnable_process s new }"

section \<open>Frames on the stack\<close>

text \<open>What the processor pushes on an interrupt, and what \<open>common_interrupt_handler\<close> (\<open>interrupt_asm.s\<close>) pushes
  on top of it; \<open>esp\<close> is the stack pointer at the processor's frame.\<close>

definition hardware_frame :: "registers \<Rightarrow> stack_state" where
  "hardware_frame r = \<lparr>st_eip = r_eip r, st_cs = r_cs r, st_eflags = r_eflags r, st_user_esp = r_esp r, st_user_ss = r_ss r\<rparr>"

definition interrupt_frame :: "u32 \<Rightarrow> registers \<Rightarrow> cpu_state" where
  "interrupt_frame esp r = \<lparr>c_edi = r_edi r, c_esi = r_esi r, c_ebp = r_ebp r, c_edx = r_edx r, c_ecx = r_ecx r,
     c_ebx = r_ebx r, c_eax = r_eax r, c_esp = esp\<rparr>"

end
