(* ===== verification/Syscall.thy ===== *)
theory Syscall
  imports Scheduler
begin

text \<open>
  System calls (\<open>syscall.c\<close>) from the trap in \<open>interrupt_asm.s\<close> to the return to user mode, and the
  dispatch of the other interrupts (\<open>interrupt.c\<close>). A call that gives the processor to a process does not
  return to its caller: its result is \<open>Switched\<close>. A system call made without a current process, or an
  access through a null or unmapped pointer, is \<open>None\<close>.
\<close>

section \<open>Arguments in user memory\<close>

definition load_byte :: "kernel \<Rightarrow> u32 \<Rightarrow> u8 option" where
  "load_byte s a = map_option (k_phys s) (translate s a)"

definition load_word :: "kernel \<Rightarrow> u32 \<Rightarrow> u32 option" where
  "load_word s a =
     do { b0 \<leftarrow> load_byte s a; b1 \<leftarrow> load_byte s (a + 1); b2 \<leftarrow> load_byte s (a + 2); b3 \<leftarrow> load_byte s (a + 3);
          Some (ucast b0 OR push_bit 8 (ucast b1) OR push_bit 16 (ucast b2) OR push_bit 24 (ucast b3)) }"

partial_function (option) load_string :: "kernel \<Rightarrow> u32 \<Rightarrow> cstring option" where
  "load_string s a =
     Option.bind (load_byte s a) (\<lambda>b. if b = 0 then Some [] else Option.bind (load_string s (a + 1)) (\<lambda>bs. Some (b # bs)))"

declare load_string.simps [code]

abbreviation (input) NEXT_STACK_ITEM :: "u32 \<Rightarrow> u32" where "NEXT_STACK_ITEM stack \<equiv> stack + 4"

section \<open>The calls\<close>

datatype sysret = Result int | Switched

definition sys_read :: "kernel \<Rightarrow> u32 \<Rightarrow> (kernel \<times> sysret) option" where
  "sys_read s stack =
     do { fd \<leftarrow> load_word s stack;
          buf \<leftarrow> load_word s (NEXT_STACK_ITEM stack);
          count \<leftarrow> load_word s (NEXT_STACK_ITEM (NEXT_STACK_ITEM stack));
          let ps = scheduler_get_current_process s in
          if ps = 0 then None
          else if fd \<ge> PROCESS_MAX_NUM_FD then Some (s, Result (- 1))
          else let vnode = file_descriptors (k_ps s ps) ! unat fd in
               if vnode = 0 then Some (s, Result (- 1))
               else do { (s, r) \<leftarrow> k_vfs_read s (k_vn s vnode) buf count; Some (s, Result r) } }"

text \<open>Only the frame buffer looks at the bytes written, up to the terminator. A descriptor out of range
  reads outside the table.\<close>

definition k_vfs_write :: "kernel \<Rightarrow> vnode \<Rightarrow> u32 \<Rightarrow> u32 \<Rightarrow> (kernel \<times> int) option" where
  "k_vfs_write s node str len =
     do { bs \<leftarrow> (if v_op node = Fb_vnodeops then load_string s str else Some []);
          let (fb, r) = vfs_write (k_fb s) node bs len in
          Some (s\<lparr>k_fb := fb\<rparr>, r) }"

definition sys_write :: "kernel \<Rightarrow> u32 \<Rightarrow> (kernel \<times> sysret) option" where
  "sys_write s stack =
     do { fd \<leftarrow> load_word s stack;
          str \<leftarrow> load_word s (NEXT_STACK_ITEM stack);
          len \<leftarrow> load_word s (NEXT_STACK_ITEM (NEXT_STACK_ITEM stack));
          let ps = scheduler_get_current_process s in
          if ps = 0 \<or> fd \<ge> PROCESS_MAX_NUM_FD then None
          else let vn = file_descriptors (k_ps s ps) ! unat fd in
               if vn = 0 then Some (s, Result (- 1))
               else do { (s, r) \<leftarrow> k_vfs_write s (k_vn s vn) str len; Some (s, Result r) } }"

fun get_next_fd_loop :: "u32 list \<Rightarrow> int \<Rightarrow> int" where
  "get_next_fd_loop [] i = - 1"
| "get_next_fd_loop (vn # fds) i = (if vn = 0 then i else get_next_fd_loop fds (i + 1))"

definition get_next_fd :: "u32 list \<Rightarrow> int" where
  "get_next_fd fds = get_next_fd_loop fds 0"

definition sys_open :: "kernel \<Rightarrow> u32 \<Rightarrow> (kernel \<times> sysret) option" where
  "sys_open s stack =
     do { path \<leftarrow> load_word s stack;
          let ps = scheduler_get_current_process s in
          if ps = 0 then None else
          do { (s, vnode) \<leftarrow> k_kmalloc s SIZEOF_VNODE;
               name \<leftarrow> load_string s path;
               if vnode = 0 then None else
               do { (s, res, err) \<leftarrow> k_vfs_lookup s name (k_vn s vnode);
                    let s = set_vn vnode res s in
                    if err \<noteq> 0 then Some (s, Result (- 1)) else
                    let fd = get_next_fd (file_descriptors (k_ps s ps)) in
                    if fd = - 1 then do { s \<leftarrow> k_kfree s vnode; Some (s, Result (- 1)) }
                    else if vfs_open (k_vn s vnode) \<noteq> 0 then do { s \<leftarrow> k_kfree s vnode; Some (s, Result (- 1)) }
                    else Some (upd_ps ps (\<lambda>p. p\<lparr>file_descriptors := (file_descriptors p)[nat fd := vnode]\<rparr>) s, Result fd) } } }"

text \<open>\<open>switch_to_kernel_stack\<close> turns interrupts off and calls the continuation; when that returns the
  processor hangs.\<close>

definition switch_to_kernel_stack :: "(kernel \<Rightarrow> kernel option) \<Rightarrow> kernel \<Rightarrow> (kernel \<times> sysret) option" where
  "switch_to_kernel_stack continuation s =
     do { s \<leftarrow> continuation (disable_interrupts s); if k_cpu s = In_kernel then None else Some (s, Switched) }"

definition continue_execve :: "u32 \<Rightarrow> kernel \<Rightarrow> kernel option" where
  "continue_execve new s =
     (let old = scheduler_get_current_process s in
      if old = 0 then None
      else do { (s, err) \<leftarrow> scheduler_replace_process s old new; Some (scheduler_schedule s) })"

definition sys_execve :: "kernel \<Rightarrow> u32 \<Rightarrow> (kernel \<times> sysret) option" where
  "sys_execve s stack =
     do { path \<leftarrow> load_word s stack;
          let current = scheduler_get_current_process s in
          if current = 0 then None else
          do { name \<leftarrow> load_string s path;
               (s, new) \<leftarrow> process_create_replacement s current name;
               if new = 0 then Some (s, Result (- 1)) else switch_to_kernel_stack (continue_execve new) s } }"

definition sys_fork :: "kernel \<Rightarrow> (kernel \<times> sysret) option" where
  "sys_fork s =
     do { new_pid \<leftarrow> scheduler_next_pid s;
          let parent = scheduler_get_current_process s in
          if parent = 0 then None else
          do { (s, new) \<leftarrow> process_clone s parent new_pid;
               if new = 0 then Some (s, Result (- 1)) else
               let s = upd_ps new (\<lambda>p. p\<lparr>ps_user_mode := (ps_user_mode p)\<lparr>r_eax := 0\<rparr>\<rparr>) s;
                   s = upd_ps new (\<lambda>p. p\<lparr>ps_current := ps_user_mode p\<rparr>) s in
               do { (s, err) \<leftarrow> scheduler_add_runnable_process s new; Some (s, Result (sint new_pid)) } } }"

definition sys_yield :: "kernel \<Rightarrow> (kernel \<times> sysret) option" where
  "sys_yield s =
     (let ps = scheduler_get_current_process s in
      if ps = 0 then None else
      let s = upd_ps ps (\<lambda>p. p\<lparr>ps_user_mode := (ps_user_mode p)\<lparr>r_eax := 0\<rparr>\<rparr>) s;
          s = disable_interrupts s;
          s = upd_ps ps (\<lambda>p. p\<lparr>ps_current := ps_user_mode p\<rparr>) s;
          s = scheduler_schedule s
      in Some (s, if k_cpu s = In_kernel then Result (- 1) else Switched))"

definition continue_exit :: "kernel \<Rightarrow> kernel option" where
  "continue_exit s =
     (let ps = scheduler_get_current_process s in
      if ps = 0 then None else do { s \<leftarrow> scheduler_terminate_process s ps; Some (scheduler_schedule s) })"

definition sys_exit :: "kernel \<Rightarrow> (kernel \<times> sysret) option" where
  "sys_exit s = switch_to_kernel_stack continue_exit s"

text \<open>\<open>snapshot_and_schedule\<close> saves the kernel context of the caller, whose registers are \<open>snap\<close>, with 0 as
  the value it will see returned. When the process runs again it goes round the loop of \<open>sys_wait\<close> once
  more (\<open>wait_round\<close>); when there is no process to run the processor hangs.\<close>

definition snapshot_and_schedule :: "u32 \<Rightarrow> registers \<Rightarrow> kernel \<Rightarrow> (kernel \<times> sysret) option" where
  "snapshot_and_schedule ps snap s =
     (let s = disable_interrupts s;
          s = upd_ps ps (\<lambda>p. p\<lparr>ps_current := snap\<lparr>r_eax := 0, r_cs := SEGSEL_KERNEL_CS, r_ss := SEGSEL_KERNEL_DS\<rparr>\<rparr>) s;
          s = scheduler_schedule s
      in if k_cpu s = In_kernel then None else Some (s, Switched))"

definition wait_round :: "u32 \<Rightarrow> registers \<Rightarrow> kernel \<Rightarrow> (kernel \<times> sysret) option" where
  "wait_round ps snap s =
     do { terminated \<leftarrow> scheduler_has_any_child_terminated s ps;
          if terminated then Some (s, Result 0) else snapshot_and_schedule ps snap s }"

definition sys_wait :: "registers \<Rightarrow> kernel \<Rightarrow> (kernel \<times> sysret) option" where
  "sys_wait snap s =
     (let ps = scheduler_get_current_process s in
      if ps = 0 then None else
      do { n \<leftarrow> scheduler_num_children s (ps_id (k_ps s ps));
           if n = 0 then Some (s, Result (- 1)) else wait_round ps snap s })"

section \<open>The trap\<close>

abbreviation (input) NUM_SYSCALLS :: u32 where "NUM_SYSCALLS \<equiv> 8"

definition handlers :: "registers \<Rightarrow> u32 \<Rightarrow> kernel \<Rightarrow> u32 \<Rightarrow> (kernel \<times> sysret) option" where
  "handlers snap syscall s stack =
     (if syscall = 0 then sys_open s stack
      else if syscall = 1 then sys_read s stack
      else if syscall = 2 then sys_write s stack
      else if syscall = 3 then sys_execve s stack
      else if syscall = 4 then sys_fork s
      else if syscall = 5 then sys_yield s
      else if syscall = 6 then sys_exit s
      else sys_wait snap s)"

definition update_user_mode_registers :: "cpu_state \<Rightarrow> stack_state \<Rightarrow> ps \<Rightarrow> ps" where
  "update_user_mode_registers cs es p =
     p\<lparr>ps_user_mode := (ps_user_mode p)
        \<lparr>r_eax := c_eax cs, r_ebx := c_ebx cs, r_ecx := c_ecx cs, r_edx := c_edx cs, r_ebp := c_ebp cs, r_esi := c_esi cs,
         r_edi := c_edi cs, r_eflags := st_eflags es, r_eip := st_eip es, r_esp := st_user_esp es, r_ss := st_user_ss es,
         r_cs := st_cs es\<rparr>\<rparr>"

text \<open>The result is the process whose \<open>user_mode\<close> registers are returned, or 0 when the call switched.\<close>

definition syscall_handle_interrupt :: "registers \<Rightarrow> cpu_state \<Rightarrow> stack_state \<Rightarrow> kernel \<Rightarrow> (kernel \<times> u32) option" where
  "syscall_handle_interrupt snap cs es s =
     (let ps = scheduler_get_current_process s in
      if ps = 0 then None else
      let s = upd_ps ps (update_user_mode_registers cs es) s; user_stack = st_user_esp es in
      do { syscall \<leftarrow> load_word s user_stack;
           if syscall \<ge> NUM_SYSCALLS
           then Some (upd_ps ps (\<lambda>p. p\<lparr>ps_user_mode := (ps_user_mode p)\<lparr>r_eax := - 1\<rparr>\<rparr>) s, ps)
           else do { (s, r) \<leftarrow> handlers snap syscall s (user_stack + 4);
                     case r of Switched \<Rightarrow> Some (s, 0)
                     | Result eax \<Rightarrow>
                         Some (upd_ps ps (\<lambda>p. p\<lparr>ps_user_mode := (ps_user_mode p)\<lparr>r_eax := word_of_int eax\<rparr>\<rparr>) (disable_interrupts s), ps) } })"

text \<open>\<open>handle_syscall\<close> pushes \<open>eax, ecx, edx, ebx, esp, ebp, esi, edi\<close>, which the C code reads as a
  \<open>cpu_state_t\<close>: \<open>edi, esi, ebp, edx, ecx, ebx, eax, esp\<close> from the top of the stack. The stack pointer
  pushed is 36 bytes below \<open>esp0\<close>: the processor's frame of five words and four registers.\<close>

definition trap_frame :: "u32 \<Rightarrow> registers \<Rightarrow> cpu_state" where
  "trap_frame esp0 r = \<lparr>c_edi = r_edi r, c_esi = r_esi r, c_ebp = r_ebp r, c_edx = esp0 - 36, c_ecx = r_ebx r,
     c_ebx = r_edx r, c_eax = r_ecx r, c_esp = r_eax r\<rparr>"

definition handle_syscall :: "registers \<Rightarrow> registers \<Rightarrow> kernel \<Rightarrow> kernel option" where
  "handle_syscall snap r s =
     do { (s, ps) \<leftarrow> syscall_handle_interrupt snap (trap_frame (tss_esp0 s) r) (hardware_frame r) (s\<lparr>k_cpu := In_kernel\<rparr>);
          Some (if ps = 0 then s else run_process_in_user_mode (ps_user_mode (k_ps s ps)) s) }"

section \<open>The other interrupts\<close>

definition interrupt_handler :: "cpu_state \<Rightarrow> idt_info \<Rightarrow> stack_state \<Rightarrow> kernel \<Rightarrow> kernel option" where
  "interrupt_handler state info exec s =
     (case interrupt_handlers s (idt_index info) of
        None \<Rightarrow> Some s
      | Some Keyboard_handler \<Rightarrow>
          (let (k, i) = keyboard_handle_interrupt (k_kbd s, k_io s) in Some (s\<lparr>k_kbd := k, k_io := i\<rparr>))
      | Some Serial_com1_handler \<Rightarrow>
          do { i \<leftarrow> serial_handle_interrupt (map of_char ''serial_handle_interrupt_com1'')
                      (map of_char ''data on com1'' @ [10]) (k_io s); Some (s\<lparr>k_io := i\<rparr>) }
      | Some Serial_com2_handler \<Rightarrow>
          do { i \<leftarrow> serial_handle_interrupt (map of_char ''serial_handle_interrupt_com2'')
                      (map of_char ''data on com2'' @ [10]) (k_io s); Some (s\<lparr>k_io := i\<rparr>) }
      | Some Scheduler_handler \<Rightarrow> scheduler_handle_pit_interrupt state exec s)"

end
