(* ===== verification/Linked.thy ===== *)
theory Linked
  imports Prelude
begin

text \<open>
  Singly linked lists in a store: the nodes met from a start address to the null pointer along a
  \<open>next\<close> function, and what the pointer updates of the kernel's list operations do to that sequence.
\<close>

primrec lseg :: "(u32 \<Rightarrow> u32) \<Rightarrow> u32 \<Rightarrow> u32 list \<Rightarrow> u32 \<Rightarrow> bool" where
  "lseg nx a [] b \<longleftrightarrow> a = b"
| "lseg nx a (x # xs) b \<longleftrightarrow> a = x \<and> x \<noteq> 0 \<and> lseg nx (nx x) xs b"

abbreviation linked :: "(u32 \<Rightarrow> u32) \<Rightarrow> u32 \<Rightarrow> u32 list \<Rightarrow> bool" where
  "linked nx a xs \<equiv> lseg nx a xs 0"

lemma lseg_append: "lseg nx a (xs @ ys) b \<longleftrightarrow> (\<exists>m. lseg nx a xs m \<and> lseg nx m ys b)"
  by (induction xs arbitrary: a) auto

lemma lseg_cong: "(\<And>x. x \<in> set xs \<Longrightarrow> nx' x = nx x) \<Longrightarrow> lseg nx' a xs b = lseg nx a xs b"
  by (induction xs arbitrary: a) auto

lemma lseg_other [simp]: "c \<notin> set xs \<Longrightarrow> lseg (nx(c := v)) a xs b = lseg nx a xs b"
  by (rule lseg_cong) auto

lemma lseg_nonnull: "lseg nx a xs b \<Longrightarrow> 0 \<notin> set xs"
  by (induction xs arbitrary: a) auto

lemma linked_Nil [simp]: "linked nx 0 xs \<longleftrightarrow> xs = []"
  by (cases xs) auto

lemma linked_start: "linked nx a xs \<Longrightarrow> a = (if xs = [] then 0 else hd xs)"
  by (cases xs) auto

lemma linked_unique: "linked nx a xs \<Longrightarrow> linked nx a ys \<Longrightarrow> xs = ys"
proof (induction xs arbitrary: a ys)
  case (Cons x xs)
  then show ?case by (cases ys) auto
qed simp

text \<open>A list that reaches null visits no node twice.\<close>

lemma linked_distinct: "linked nx a xs \<Longrightarrow> distinct xs"
proof (induction xs arbitrary: a)
  case (Cons x xs)
  have "x \<notin> set xs"
  proof
    assume "x \<in> set xs"
    then obtain us vs where "xs = us @ x # vs" by (auto simp: in_set_conv_decomp)
    moreover have "linked nx (nx x) xs" using Cons.prems by simp
    ultimately have "linked nx (nx x) vs" by (auto simp: lseg_append)
    with \<open>linked nx (nx x) xs\<close> have "xs = vs" by (rule linked_unique)
    with \<open>xs = us @ x # vs\<close> show False by (metis append_is_Nil_conv append_self_conv2 list.distinct(1) append_Cons append_assoc append_eq_append_conv2)
  qed
  with Cons show ?case by auto
qed simp

lemma linked_snoc:
  assumes "linked nx a (xs @ [e])" and "v \<noteq> 0" and "v \<notin> set (xs @ [e])" and "nx v = 0"
  shows "linked (nx(e := v)) a (xs @ [e, v])"
proof -
  have "e \<notin> set xs" "e \<noteq> v" using linked_distinct [OF assms(1)] assms(3) by auto
  with assms show ?thesis by (auto simp: lseg_append)
qed

lemma linked_rotate:
  assumes "linked nx x (x # ys @ [e])"
  shows "linked (nx(x := 0, e := x)) (nx x) (ys @ [e, x])"
proof -
  have "x \<notin> set ys" "e \<notin> set ys" "x \<noteq> e" using linked_distinct [OF assms] by auto
  with assms show ?thesis by (auto simp: lseg_append)
qed

lemma linked_unlink:
  assumes "linked nx a (xs @ p # c # ys)"
  shows "linked (nx(p := nx c)) a (xs @ p # ys)"
proof -
  have "p \<notin> set xs" "p \<notin> set ys" "p \<noteq> c" using linked_distinct [OF assms] by auto
  with assms show ?thesis by (auto simp: lseg_append)
qed

lemma linked_nth_next:
  assumes "linked nx a (xs @ p # ys)"
  shows "nx p = (if ys = [] then 0 else hd ys)" and "linked nx (nx p) ys"
  using assms by (auto simp: lseg_append dest: linked_start)

end
