(* ===== verification/Process_Correct.thy ===== *)
theory Process_Correct
  imports Process Linked
begin

text \<open>
  What the operations on processes keep, and what two of them do: giving back the page frames of a
  process, and copying its open files.
\<close>

section \<open>The heap under the kernel's objects\<close>

lemma k_kmalloc_cases:
  assumes inv: "kheap_inv (k_heap s) P" and n: "n \<le> 0x3FFFF8"
  obtains s' where "k_kmalloc s n = Some (s', 0)" and "s' = s\<lparr>k_heap := k_heap s'\<rparr>" and "kheap_inv (k_heap s') P"
  | s' p where "k_kmalloc s n = Some (s', p)" and "s' = s\<lparr>k_heap := k_heap s'\<rparr>" and "p \<noteq> 0" and "p \<notin> P"
    and "kheap_inv (k_heap s') (insert p P)"
proof -
  obtain h p where h: "kmalloc (k_heap s) n = Some (h, p)" using kheap.alloc_returns [OF inv n] by blast
  then have "k_kmalloc s n = Some (s\<lparr>k_heap := h\<rparr>, p)" by (simp add: k_kmalloc_def)
  with h that kheap.alloc_null [OF inv n] kheap.alloc_block [OF inv n h] show ?thesis by (cases "p = 0") auto
qed

lemma k_kfree_live:
  assumes inv: "kheap_inv (k_heap s) P" and p: "p \<in> P"
  obtains s' where "k_kfree s p = Some s'" and "s' = s\<lparr>k_heap := k_heap s'\<rparr>" and "kheap_inv (k_heap s') (P - {p})"
  using kheap.free_block [OF inv p] that by (auto simp: k_kfree_def)

lemma kfree_paging: "kfree h p = Some h' \<Longrightarrow> kpaging h' = kpaging h"
  by (auto simp: kfree_def Let_def set_next_def set_size_def split: Option.bind_splits if_splits)

lemma k_kfree_paging: "k_kfree s p = Some s' \<Longrightarrow> k_paging s' = k_paging s"
  using kfree_paging by (auto simp: k_kfree_def k_paging_def split: Option.bind_splits)

lemma kmalloc_start_paging: "kmalloc_start (h\<lparr>kpaging := pg\<rparr>) = (kmalloc_start h)\<lparr>kpaging := pg\<rparr>"
  by (simp add: kmalloc_start_def set_next_def set_size_def)

lemma kheap_inv_more: "kheap_inv h P \<Longrightarrow> maps_more (kpaging h) pg \<Longrightarrow> kheap_inv (h\<lparr>kpaging := pg\<rparr>) P"
  using heap_inv_more [of "kmalloc_start h" _ _ pg]
  by (auto simp: kheap_inv_def kmalloc_start_paging) (auto simp: kmalloc_start_def set_next_def set_size_def split: if_splits)

lemma heap_frame_trans: "s' = s\<lparr>k_heap := h\<rparr> \<Longrightarrow> s'' = s'\<lparr>k_heap := h'\<rparr> \<Longrightarrow> s'' = s\<lparr>k_heap := h'\<rparr>"
  by simp

section \<open>Page frames of a process\<close>

definition ele_frames :: "kernel \<Rightarrow> u32 \<Rightarrow> u32 set" where
  "ele_frames s x = frame_block (pe_paddr (k_pe s x)) (pe_count (k_pe s x))"

text \<open>The frames of the elements \<open>xs\<close> are in use, belong to one element each, and none of them holds one of
  the kernel's page tables.\<close>

definition paddrs_ok :: "kernel \<Rightarrow> u32 list \<Rightarrow> bool" where
  "paddrs_ok s xs \<longleftrightarrow> sorted_wrt (\<lambda>x y. ele_frames s x \<inter> ele_frames s y = {}) xs \<and>
     (\<forall>x\<in>set xs. unat (pe_count (k_pe s x)) < 2 ^ 20 \<and>
        ele_frames s x \<subseteq> managed_frames (pfa_st (k_paging s)) - free_frames (pfa_st (k_paging s)) -
          insert (kernel_pt_frame (k_paging s)) (tables (k_paging s) (kernel_pdt (k_paging s))))"

lemma managed_pfa_free [simp]: "managed_frames (pfa_free s p) = managed_frames s"
  by (simp add: managed_frames_def pfa_free_def toggle_bit_def Let_def frame_addr_def mmap_used_def)

lemma managed_free_cont_loop: "managed_frames (pfa_free_cont_loop s p i n) = managed_frames s"
  by (induction s p i n rule: pfa_free_cont_loop.induct) (subst pfa_free_cont_loop.simps, simp)

lemma managed_free_cont [simp]: "managed_frames (pfa_free_cont s p n) = managed_frames s"
  by (simp add: pfa_free_cont_def managed_free_cont_loop)

text \<open>Releasing frames that hold no page table of the kernel.\<close>

lemma release_maps_more:
  assumes wf: "pdt_wf pg (kernel_pdt pg)" and pa: "pfa_inv pa" "free_frames pa = free_frames (pfa_st pg) \<union> B"
    and b: "B \<inter> insert (kernel_pt_frame pg) (tables pg (kernel_pdt pg)) = {}"
  shows "maps_more pg (pg\<lparr>invlpgs := l, pfa_st := pa\<rparr>)"
proof -
  let ?pg = "pg\<lparr>invlpgs := l, pfa_st := pa\<rparr>"
  have e: "window_ok ?pg = window_ok pg" "kernel_pt_frame ?pg = kernel_pt_frame pg" by (simp_all add: window_ok_def kernel_pt_frame_def)
  have t: "get_pt_paddr (pdts pg (kernel_pdt pg) i) \<notin> free_frames pa" if "i < NUM_ENTRIES" "pde_present (pdts pg (kernel_pdt pg) i)" for i
    using pdt_wfD(4) [OF wf that] b that unfolding pa(2) tables_def by blast
  have "pdt_wf ?pg (kernel_pdt pg)"
    using pdt_wfD(1,3) [OF wf] pdt_wfD(5,6) [OF wf] t b pa unfolding pdt_wf_def e by simp
  moreover have "page_entry ?pg = page_entry pg" by (intro ext) (simp add: page_entry_def Let_def)
  ultimately show ?thesis by (simp add: maps_more_def)
qed

lemma release_paddrs_ok:
  assumes ok: "paddrs_ok s xs" and pe: "k_pe s' = k_pe s" and pg: "k_paging s' = (k_paging s)\<lparr>invlpgs := l, pfa_st := pa\<rparr>"
    and m: "managed_frames pa = managed_frames (pfa_st (k_paging s))" and f: "free_frames pa = free_frames (pfa_st (k_paging s)) \<union> B"
    and b: "\<And>x. x \<in> set xs \<Longrightarrow> ele_frames s x \<inter> B = {}"
  shows "paddrs_ok s' xs"
proof -
  have ef: "ele_frames s' y = ele_frames s y" for y by (simp add: ele_frames_def pe)
  have t: "kernel_pt_frame (k_paging s') = kernel_pt_frame (k_paging s)" "tables (k_paging s') = tables (k_paging s)"
      "kernel_pdt (k_paging s') = kernel_pdt (k_paging s)" "pfa_st (k_paging s') = pa"
    by (simp_all add: pg kernel_pt_frame_def tables_def fun_eq_iff)
  show ?thesis using ok b unfolding paddrs_ok_def ef t m f pe by blast
qed

lemma kheap_inv_wf: "kheap_inv (k_heap s) P \<Longrightarrow> pdt_wf (k_paging s) (kernel_pdt (k_paging s))"
  by (auto simp: kheap_inv_def heap_inv_def heap_mapped_def k_paging_def kmalloc_start_def set_next_def set_size_def split: if_splits)

lemma k_pfa_free_cont_block:
  assumes inv: "kheap_inv (k_heap s) P" and ok: "paddrs_ok s (x # xs)"
  defines "s' \<equiv> k_pfa_free_cont s (pe_paddr (k_pe s x)) (pe_count (k_pe s x))"
  shows "kheap_inv (k_heap s') P" and "paddrs_ok s' xs"
    and "free_frames (pfa_st (k_paging s')) = free_frames (pfa_st (k_paging s)) \<union> ele_frames s x"
proof -
  let ?pg = "k_paging s"
  define pa where "pa = pfa_free_cont (pfa_st ?pg) (pe_paddr (k_pe s x)) (pe_count (k_pe s x))"
  note wf = kheap_inv_wf [OF inv]
  have x: "unat (pe_count (k_pe s x)) < 2 ^ 20" "ele_frames s x \<subseteq> managed_frames (pfa_st ?pg) - free_frames (pfa_st ?pg)"
      "ele_frames s x \<inter> insert (kernel_pt_frame ?pg) (tables ?pg (kernel_pdt ?pg)) = {}" "paddrs_ok s xs"
      "\<And>y. y \<in> set xs \<Longrightarrow> ele_frames s y \<inter> ele_frames s x = {}"
    using ok by (auto simp: paddrs_ok_def)
  have f: "free_frames pa = free_frames (pfa_st ?pg) \<union> ele_frames s x" "pfa_inv pa" "managed_frames pa = managed_frames (pfa_st ?pg)"
    using pfa_free_cont_block [OF pdt_wfD(2) [OF wf] x(1), of "pe_paddr (k_pe s x)"] x(2) by (simp_all add: ele_frames_def pa_def)
  have pg: "k_paging s' = ?pg\<lparr>invlpgs := invlpgs ?pg, pfa_st := pa\<rparr>" "k_pe s' = k_pe s" "k_heap s' = (k_heap s)\<lparr>kpaging := k_paging s'\<rparr>"
    by (simp_all add: s'_def k_pfa_free_cont_def set_paging_def k_paging_def pa_def)
  show "free_frames (pfa_st (k_paging s')) = free_frames (pfa_st (k_paging s)) \<union> ele_frames s x" using f(1) by (simp add: pg)
  show "paddrs_ok s' xs" by (rule release_paddrs_ok [OF x(4) pg(2,1) f(3,1) x(5)])
  have "maps_more ?pg (k_paging s')" unfolding pg(1) by (rule release_maps_more [OF wf f(2,1) x(3)])
  then show "kheap_inv (k_heap s') P" unfolding pg(3) using kheap_inv_more [OF inv] by (simp add: k_paging_def)
qed

abbreviation next_paddr :: "kernel \<Rightarrow> u32 \<Rightarrow> u32" where
  "next_paddr s \<equiv> (\<lambda>x. pe_next (k_pe s x))"

lemma delete_paddr_loop_correct:
  assumes "linked (next_paddr s) a xs" and "kheap_inv (k_heap s) P" and "set xs \<subseteq> P" and "paddrs_ok s (xs @ ys)"
  shows "\<exists>s'. delete_paddr_loop s a n = Some (s', n + (\<Sum>x\<leftarrow>xs. pe_count (k_pe s x))) \<and> s' = s\<lparr>k_heap := k_heap s'\<rparr> \<and>
     kheap_inv (k_heap s') (P - set xs) \<and> paddrs_ok s' ys \<and>
     free_frames (pfa_st (k_paging s')) = free_frames (pfa_st (k_paging s)) \<union> (\<Union>x\<in>set xs. ele_frames s x)"
  using assms
proof (induction xs arbitrary: s a n P)
  case Nil
  then show ?case by (simp add: delete_paddr_loop.simps)
next
  case (Cons x xs)
  let ?s1 = "k_pfa_free_cont s (pe_paddr (k_pe s x)) (pe_count (k_pe s x))"
  have ok: "paddrs_ok s (x # xs @ ys)" using Cons.prems(4) by simp
  note b = k_pfa_free_cont_block [OF Cons.prems(2) ok]
  have s1: "?s1 = s\<lparr>k_heap := k_heap ?s1\<rparr>" by (simp add: k_pfa_free_cont_def set_paging_def)
  have x: "a = x" "x \<noteq> 0" "x \<in> P" "linked (next_paddr s) (next_paddr s x) xs" "x \<notin> set xs"
    using Cons.prems(1,3) linked_distinct [OF Cons.prems(1)] by auto
  obtain s2 where s2: "k_kfree ?s1 x = Some s2" "s2 = ?s1\<lparr>k_heap := k_heap s2\<rparr>" "kheap_inv (k_heap s2) (P - {x})"
    by (rule k_kfree_live [OF b(1) x(3)])
  have pg: "k_paging s2 = k_paging ?s1" by (rule k_kfree_paging [OF s2(1)])
  have s2': "s2 = s\<lparr>k_heap := k_heap s2\<rparr>" by (rule heap_frame_trans [OF s1 s2(2)])
  have pe: "k_pe s2 = k_pe s" "k_pe ?s1 = k_pe s" by (subst s2', simp) (subst s1, simp)
  have ef: "ele_frames s2 y = ele_frames s y" "ele_frames ?s1 y = ele_frames s y" for y by (simp_all add: ele_frames_def pe)
  have ok2: "paddrs_ok s2 (xs @ ys)" using b(2) unfolding paddrs_ok_def ef pg pe .
  have "linked (next_paddr s2) (next_paddr s x) xs" using x(4) by (simp add: pe)
  from Cons.IH [OF this s2(3) _ ok2, of "n + pe_count (k_pe s x)"] Cons.prems(3) x(5)
  obtain s3 where s3: "delete_paddr_loop s2 (next_paddr s x) (n + pe_count (k_pe s x)) =
       Some (s3, n + pe_count (k_pe s x) + (\<Sum>x\<leftarrow>xs. pe_count (k_pe s2 x)))" "s3 = s2\<lparr>k_heap := k_heap s3\<rparr>"
     "kheap_inv (k_heap s3) (P - {x} - set xs)" "paddrs_ok s3 ys"
     "free_frames (pfa_st (k_paging s3)) = free_frames (pfa_st (k_paging s2)) \<union> (\<Union>x\<in>set xs. ele_frames s2 x)" by auto
  have "delete_paddr_loop s a n = Some (s3, n + (\<Sum>x\<leftarrow>x # xs. pe_count (k_pe s x)))"
    using s2(1) s3(1) x(1,2) by (subst delete_paddr_loop.simps) (simp add: Let_def pe add.assoc)
  moreover have "s3 = s\<lparr>k_heap := k_heap s3\<rparr>" by (rule heap_frame_trans [OF s2' s3(2)])
  moreover have "P - {x} - set xs = P - set (x # xs)" by auto
  with s3(3) have "kheap_inv (k_heap s3) (P - set (x # xs))" by simp
  moreover have "free_frames (pfa_st (k_paging s3)) = free_frames (pfa_st (k_paging s)) \<union> (\<Union>x\<in>set (x # xs). ele_frames s x)"
    using s3(5) b(3) by (auto simp: pg ef)
  ultimately show ?case using s3(4) by blast
qed

section \<open>Frame conditions\<close>

lemma delete_paddr_loop_frame: "delete_paddr_loop s a n = Some r \<Longrightarrow> fst r = s\<lparr>k_heap := k_heap (fst r)\<rparr>"
proof (rule delete_paddr_loop.raw_induct [of "\<lambda>s a n r. fst r = s\<lparr>k_heap := k_heap (fst r)\<rparr>"])
  fix f :: "kernel \<Rightarrow> u32 \<Rightarrow> u32 \<Rightarrow> (kernel \<times> u32) option" and s a n r
  assume IH: "\<And>s a n r. f s a n = Some r \<Longrightarrow> fst r = s\<lparr>k_heap := k_heap (fst r)\<rparr>"
    and r: "(if a = 0 then Some (s, n)
       else let e = k_pe s a; s = k_pfa_free_cont s (pe_paddr e) (pe_count e)
            in Option.bind (k_kfree s a) (\<lambda>s. f s (pe_next e) (n + pe_count e))) = Some r"
  show "fst r = s\<lparr>k_heap := k_heap (fst r)\<rparr>"
  proof (cases "a = 0")
    case False
    with r obtain h where "f (s\<lparr>k_heap := h\<rparr>) (pe_next (k_pe s a)) (n + pe_count (k_pe s a)) = Some r"
      by (auto simp: Let_def k_kfree_def k_pfa_free_cont_def set_paging_def split: Option.bind_splits)
    from heap_frame_trans [OF refl IH [OF this]] show ?thesis .
  qed (use r in auto)
qed

lemma delete_paddr_list_frame: "delete_paddr_list s l = Some (s', m) \<Longrightarrow> s' = s\<lparr>k_heap := k_heap s'\<rparr>"
  using delete_paddr_loop_frame [of s "pl_start l" 0] by (auto simp: delete_paddr_list_def split: Option.bind_splits)

lemma k_unmap_kernel_frame: "k_unmap_kernel s v n = Some s' \<Longrightarrow> s' = s\<lparr>k_heap := k_heap s'\<rparr>"
  by (auto simp: k_unmap_kernel_def set_paging_def split: Option.bind_splits)

lemma process_delete_resources_frame: "process_delete_resources s p = Some s' \<Longrightarrow> s' = s\<lparr>k_heap := k_heap s'\<rparr>"
proof -
  assume r: "process_delete_resources s p = Some s'"
  define s1 where "s1 = (if ps_pdt (k_ps s p) \<noteq> 0 then set_paging (pdt_delete (k_paging s) (ps_pdt (k_ps s p))) s else s)"
  have f1: "s1 = s\<lparr>k_heap := k_heap s1\<rparr>" by (simp add: s1_def set_paging_def)
  obtain s2 s3 m3 m4 where s2: "(if kernel_stack_start_vaddr (k_ps s1 p) \<noteq> 0
        then Option.bind (delete_paddr_list s1 (kernel_stack_paddrs (k_ps s1 p)))
          (\<lambda>(s, sz). k_unmap_kernel s (kernel_stack_start_vaddr (k_ps s p)) sz) else Some s1) = Some s2"
    and s3: "delete_paddr_list s2 (code_paddrs (k_ps s2 p)) = Some (s3, m3)" "delete_paddr_list s3 (stack_paddrs (k_ps s3 p)) = Some (s', m4)"
    using r unfolding process_delete_resources_def s1_def [symmetric] Let_def
    by (auto split: Option.bind_splits)
  have "s2 = s1\<lparr>k_heap := k_heap s2\<rparr>"
  proof (cases "kernel_stack_start_vaddr (k_ps s1 p) = 0")
    case False
    then obtain t m where "delete_paddr_list s1 (kernel_stack_paddrs (k_ps s1 p)) = Some (t, m)"
        "k_unmap_kernel t (kernel_stack_start_vaddr (k_ps t p)) m = Some s2"
      using s2 by (auto split: Option.bind_splits)
    then show ?thesis by (rule heap_frame_trans [OF delete_paddr_list_frame k_unmap_kernel_frame])
  qed (use s2 in simp)
  from heap_frame_trans [OF f1 this]
  have "s3 = s\<lparr>k_heap := k_heap s3\<rparr>" using delete_paddr_list_frame [OF s3(1)] by (rule heap_frame_trans)
  then show ?thesis using delete_paddr_list_frame [OF s3(2)] by (rule heap_frame_trans)
qed

section \<open>What cloning leaves alone\<close>

text \<open>Allocating, mapping and copying change the heap, with paging in it, and physical memory.\<close>

definition mem_frame :: "kernel \<Rightarrow> kernel \<Rightarrow> bool" where
  "mem_frame s s' \<longleftrightarrow> (\<exists>h m. s' = s\<lparr>k_heap := h, k_phys := m\<rparr>)"

lemma mem_frame_heap: "mem_frame s (s\<lparr>k_heap := h\<rparr>)"
  unfolding mem_frame_def by (intro exI [of _ h] exI [of _ "k_phys s"]) simp

lemma mem_frame_phys: "mem_frame s (s\<lparr>k_phys := m\<rparr>)"
  unfolding mem_frame_def by (intro exI [of _ "k_heap s"] exI [of _ m]) simp

lemma mem_frame_refl [simp]: "mem_frame s s"
  using mem_frame_heap [of s "k_heap s"] by simp

lemma mem_frame_trans: "mem_frame s s' \<Longrightarrow> mem_frame s' s'' \<Longrightarrow> mem_frame s s''"
proof -
  assume "mem_frame s s'" and "mem_frame s' s''"
  then obtain h m h' m' where "s' = s\<lparr>k_heap := h, k_phys := m\<rparr>" "s'' = s'\<lparr>k_heap := h', k_phys := m'\<rparr>" unfolding mem_frame_def by blast
  then have "s'' = s\<lparr>k_heap := h', k_phys := m'\<rparr>" by simp
  then show ?thesis unfolding mem_frame_def by blast
qed

lemma mem_frames:
  "k_pfa_allocate s n = (s', p) \<Longrightarrow> mem_frame s s'" "mem_frame s (k_pfa_free_cont s p n)"
  "k_find_vaddr s n = (s', p) \<Longrightarrow> mem_frame s s'" "k_map_kernel s p v n = Some (s', m) \<Longrightarrow> mem_frame s s'"
  "k_map_user s d p v n = Some (s', m) \<Longrightarrow> mem_frame s s'" "k_unmap_kernel s v n = Some s' \<Longrightarrow> mem_frame s s'"
  "k_kmalloc s n = Some (s', p) \<Longrightarrow> mem_frame s s'" "k_kfree s p = Some s' \<Longrightarrow> mem_frame s s'"
  by (auto simp: k_pfa_allocate_def k_pfa_free_cont_def k_find_vaddr_def k_map_kernel_def k_map_user_def k_unmap_kernel_def k_kmalloc_def
      k_kfree_def set_paging_def Let_def mem_frame_heap split: prod.splits Option.bind_splits)

lemma mem_frame_vcopy: "vcopy s d a n = Some s' \<Longrightarrow> mem_frame s s'"
proof (induction n arbitrary: s d a)
  case (Suc n)
  then obtain m where "vcopy (s\<lparr>k_phys := m\<rparr>) (d + 1) (a + 1) n = Some s'" by (auto split: Option.bind_splits)
  from mem_frame_trans [OF mem_frame_phys Suc.IH [OF this]] show ?case .
qed simp

text \<open>Building the process \<open>c\<close> changes no other process, and not the identity and user registers of \<open>c\<close>.\<close>

definition child_frame :: "u32 \<Rightarrow> kernel \<Rightarrow> kernel \<Rightarrow> bool" where
  "child_frame c s s' \<longleftrightarrow> (\<forall>q. q \<noteq> c \<longrightarrow> k_ps s' q = k_ps s q) \<and> ps_id (k_ps s' c) = ps_id (k_ps s c) \<and>
     ps_parent_id (k_ps s' c) = ps_parent_id (k_ps s c) \<and> ps_user_mode (k_ps s' c) = ps_user_mode (k_ps s c) \<and>
     k_ele s' = k_ele s \<and> runnable_pss s' = runnable_pss s \<and> zombie_pss s' = zombie_pss s"

lemma child_frame_trans: "child_frame c s s' \<Longrightarrow> child_frame c s' s'' \<Longrightarrow> child_frame c s s''"
  by (simp add: child_frame_def)

lemma mem_child_frame: "mem_frame s s' \<Longrightarrow> child_frame c s s'"
  by (auto simp: mem_frame_def child_frame_def)

lemma child_frame_upd:
  assumes "\<And>p. ps_id (f p) = ps_id p \<and> ps_parent_id (f p) = ps_parent_id p \<and> ps_user_mode (f p) = ps_user_mode p"
  shows "child_frame c s (upd_ps c f s)"
  using assms by (simp add: child_frame_def upd_ps_def)

lemma child_frame_set [simp]: "child_frame c s (set_pe e x s)" "child_frame c s (set_vn e y s)" "child_frame c s s"
  by (simp_all add: child_frame_def set_pe_def set_vn_def)

lemma append_paddr_frame:
  assumes u: "\<And>g p. ps_id (upd g p) = ps_id p \<and> ps_parent_id (upd g p) = ps_parent_id p \<and> ps_user_mode (upd g p) = ps_user_mode p"
  shows "child_frame c s (append_paddr fld upd c e s)"
  using child_frame_trans [OF child_frame_set(1) child_frame_upd] child_frame_upd u by (simp add: append_paddr_def Let_def)

text \<open>A computation keeps the frame of the child when every state it can return does. The rules follow the
  way the operations are written.\<close>

definition keeps :: "u32 \<Rightarrow> kernel \<Rightarrow> (kernel \<times> 'a) option \<Rightarrow> bool" where
  "keeps c s m \<longleftrightarrow> (\<forall>s' x. m = Some (s', x) \<longrightarrow> child_frame c s s')"

lemma keepsD: "keeps c s m \<Longrightarrow> m = Some (s', x) \<Longrightarrow> child_frame c s s'"
  by (simp add: keeps_def)

lemma keeps_from: "child_frame c s t \<Longrightarrow> keeps c t m \<Longrightarrow> keeps c s m"
  unfolding keeps_def by (blast intro: child_frame_trans)

lemma keeps_Some: "child_frame c s t \<Longrightarrow> keeps c s (Some (t, x))"
  by (simp add: keeps_def)

lemma keeps_if: "(b \<Longrightarrow> keeps c s m) \<Longrightarrow> (\<not> b \<Longrightarrow> keeps c s m') \<Longrightarrow> keeps c s (if b then m else m')"
  by simp

lemma keeps_bind: "keeps c s m \<Longrightarrow> (\<And>t x. child_frame c s t \<Longrightarrow> keeps c s (f (t, x))) \<Longrightarrow> keeps c s (Option.bind m f)"
  unfolding keeps_def by (fastforce split: Option.bind_splits)

lemma keeps_memory:
  assumes t: "child_frame c s t" and F: "\<And>u x. child_frame c s u \<Longrightarrow> keeps c s (F u x)"
  shows "keeps c s (case k_pfa_allocate t n of (u, x) \<Rightarrow> F u x)" "keeps c s (case k_find_vaddr t n of (u, x) \<Rightarrow> F u x)"
    "keeps c s (Option.bind (k_map_kernel t p v n) (\<lambda>(u, x). F u x))" "keeps c s (Option.bind (k_map_user t d p v n) (\<lambda>(u, x). F u x))"
    "keeps c s (Option.bind (k_kmalloc t n) (\<lambda>(u, x). F u x))"
proof -
  have F': "child_frame c s s'" if "child_frame c t u" "F u x = Some (s', y)" for u x s' y
    using keepsD [OF F [OF child_frame_trans [OF t that(1)]] that(2)] .
  show "keeps c s (case k_pfa_allocate t n of (u, x) \<Rightarrow> F u x)" "keeps c s (case k_find_vaddr t n of (u, x) \<Rightarrow> F u x)"
    "keeps c s (Option.bind (k_map_kernel t p v n) (\<lambda>(u, x). F u x))" "keeps c s (Option.bind (k_map_user t d p v n) (\<lambda>(u, x). F u x))"
    "keeps c s (Option.bind (k_kmalloc t n) (\<lambda>(u, x). F u x))"
    unfolding keeps_def
    by (auto split: prod.splits Option.bind_splits dest!: mem_frames(1,3-8) mem_child_frame [where c = c] intro: F')
qed

lemma keeps_memory1:
  assumes t: "child_frame c s t" and F: "\<And>u. child_frame c s u \<Longrightarrow> keeps c s (F u)"
  shows "keeps c s (Option.bind (k_unmap_kernel t v n) F)" "keeps c s (Option.bind (k_kfree t p) F)" "keeps c s (Option.bind (vcopy t d v k) F)"
proof -
  have F': "child_frame c s s'" if "child_frame c t u" "F u = Some (s', y)" for u s' y
    using keepsD [OF F [OF child_frame_trans [OF t that(1)]] that(2)] .
  show "keeps c s (Option.bind (k_unmap_kernel t v n) F)" "keeps c s (Option.bind (k_kfree t p) F)" "keeps c s (Option.bind (vcopy t d v k) F)"
    unfolding keeps_def
    by (auto split: Option.bind_splits dest!: mem_frames(1,3-8) mem_frame_vcopy mem_child_frame [where c = c] intro: F')
qed

lemma keeps_free: "child_frame c s t \<Longrightarrow> keeps c s (Some (k_pfa_free_cont t p n, x))"
  by (rule keeps_Some) (blast intro: child_frame_trans mem_child_frame mem_frames)

lemmas keeps_rules = keeps_if keeps_memory keeps_memory1 keeps_free keeps_Some

lemma copy_paddr_loop_keeps:
  assumes u: "\<And>g p. ps_id (upd g p) = ps_id p \<and> ps_parent_id (upd g p) = ps_parent_id p \<and> ps_user_mode (upd g p) = ps_user_mode p"
  shows "keeps c s (copy_paddr_loop fld upd c s d v p)"
proof -
  have "child_frame c s (fst r)" if "copy_paddr_loop fld upd c s d v p = Some r" for r
  proof (rule copy_paddr_loop.raw_induct [OF _ that, of "\<lambda>fld' upd' c' s d v p r. fld' = fld \<longrightarrow> upd' = upd \<longrightarrow> c' = c \<longrightarrow> child_frame c s (fst r)",
        THEN mp [OF _ refl], THEN mp [OF _ refl], THEN mp [OF _ refl]])
    fix f fld' upd' c' s d v p r
    assume IH: "\<And>fld' upd' c' s d v p r. f fld' upd' c' s d v p = Some r \<Longrightarrow>
        fld' = fld \<longrightarrow> upd' = upd \<longrightarrow> c' = c \<longrightarrow> child_frame c s (fst r)"
      and r: "(if p = 0 then Some (s, 0)
      else let count = pe_count (k_pe s p); (s, paddr) = k_pfa_allocate s count
           in if paddr = 0 then Some (s, - 1)
           else let bytes = count * FOUR_KB; (s, kernel_vaddr) = k_find_vaddr s bytes
           in if kernel_vaddr = 0 then Some (k_pfa_free_cont s paddr count, - 1)
           else Option.bind (k_map_kernel s paddr kernel_vaddr bytes) (\<lambda>(s, mapped).
             if mapped < bytes
             then Option.bind (k_unmap_kernel s kernel_vaddr bytes) (\<lambda>s. Some (k_pfa_free_cont s paddr count, - 1))
             else Option.bind (vcopy s kernel_vaddr v (unat bytes)) (\<lambda>s.
             Option.bind (k_unmap_kernel s kernel_vaddr bytes) (\<lambda>s.
             Option.bind (k_kmalloc s SIZEOF_PADDR_ELE) (\<lambda>(s, pe).
               if pe = 0 then Some (k_pfa_free_cont s paddr count, - 1)
               else let s = append_paddr fld' upd' c' pe (set_pe pe \<lparr>pe_paddr = paddr, pe_count = count, pe_next = 0\<rparr> s)
               in Option.bind (k_map_user s d paddr v bytes) (\<lambda>(s, mapped).
                 if mapped < bytes
                 then Option.bind (k_kfree s pe) (\<lambda>s. Some (k_pfa_free_cont s paddr count, - 1))
                 else f fld' upd' c' s d (v + bytes) (pe_next (k_pe s p)))))))) = Some r"
    have f: "keeps c s (f fld upd c t d' v' p')" if "child_frame c s t" for t d' v' p'
      using IH that unfolding keeps_def by (metis child_frame_trans fst_conv)
    have ap: "child_frame c s (append_paddr fld upd c e (set_pe e x t))" if "child_frame c s t" for e x t
      using child_frame_trans [OF that child_frame_trans [OF child_frame_set(1) append_paddr_frame [OF u]]] .
    show "fld' = fld \<longrightarrow> upd' = upd \<longrightarrow> c' = c \<longrightarrow> child_frame c s (fst r)"
    proof (intro impI)
      assume e: "fld' = fld" "upd' = upd" "c' = c"
      have "keeps c s (Some r)"
        unfolding r [symmetric] e Let_def by (intro keeps_rules f ap child_frame_set(3); assumption?)
      then show "child_frame c s (fst r)" by (cases r) (simp add: keeps_def)
    qed
  qed
  then show ?thesis by (auto simp: keeps_def)
qed

lemma process_load_pdt_keeps: "keeps c s (process_load_pdt s c)"
proof -
  have p: "child_frame c s (set_paging pg s)" for pg unfolding set_paging_def by (rule mem_child_frame) (rule mem_frame_heap)
  have "child_frame c t (upd_ps c (\<lambda>p. p\<lparr>ps_pdt := d, ps_pdt_paddr := a\<rparr>) t)" for t d a by (rule child_frame_upd) simp
  note u = child_frame_trans [OF p this]
  show ?thesis using p u by (auto simp: keeps_def process_load_pdt_def Let_def split: Option.bind_splits if_splits)
qed

lemma process_load_kernel_stack_keeps: "keeps c s (process_load_kernel_stack s c)"
proof -
  have "child_frame c s (upd_ps c (\<lambda>p. p\<lparr>kernel_stack_paddrs := l, kernel_stack_start_vaddr := v\<rparr>) (set_pe e x t))"
    if "child_frame c s t" for t l v e x
    by (rule child_frame_trans [OF that child_frame_trans [OF child_frame_set(1) child_frame_upd]]) simp
  then show ?thesis
    unfolding process_load_kernel_stack_def Let_def by (intro keeps_rules child_frame_set(3); assumption?)
qed

lemma copy_fds_loop_keeps: "keeps c s (copy_fds_loop s a c i)"
proof (induction "64 - i" arbitrary: i s)
  case 0
  then show ?case by (subst copy_fds_loop.simps) (simp add: keeps_Some)
next
  case (Suc n)
  then have IH: "keeps c t (copy_fds_loop t a c (Suc i))" for t by simp
  have "child_frame c s (upd_ps c (\<lambda>p. p\<lparr>file_descriptors := (file_descriptors p)[i := v]\<rparr>) (set_vn v x t))"
    if "child_frame c s t" for t v x
    by (rule child_frame_trans [OF that child_frame_trans [OF child_frame_set(2) child_frame_upd]]) simp
  note f = keeps_from [OF this IH]
  show ?case
    by (subst copy_fds_loop.simps, unfold Let_def) (intro keeps_rules f IH child_frame_set(3); assumption?)
qed

lemma process_clone_success:
  assumes r: "process_clone s parent i = Some (s', c)" and c: "c \<noteq> 0" "c \<noteq> parent"
  shows "\<forall>q. q \<noteq> c \<longrightarrow> k_ps s' q = k_ps s q" and "ps_id (k_ps s' c) = i" and "ps_parent_id (k_ps s' c) = ps_id (k_ps s parent)"
    and "ps_user_mode (k_ps s' c) = ps_user_mode (k_ps s parent)"
    and "k_ele s' = k_ele s" and "runnable_pss s' = runnable_pss s" and "zombie_pss s' = zombie_pss s"
proof -
  define t0 where "t0 s1 = upd_ps c (\<lambda>p. p\<lparr>ps_parent_id := ps_id (k_ps (upd_ps c (process_init i) s1) parent),
      ps_user_mode := ps_user_mode (k_ps (upd_ps c (process_init i) s1) parent)\<rparr>) (upd_ps c (process_init i) s1)" for s1
  obtain s1 s2 s3 s4 s5 where k: "k_kmalloc s SIZEOF_PS = Some (s1, c)" "process_load_pdt (t0 s1) c = Some (s2, 0)"
      "process_copy_paddr_list code_paddrs code_paddrs_update (upd_ps c (\<lambda>p. p\<lparr>code_start_vaddr := code_start_vaddr (k_ps s2 parent)\<rparr>) s2)
         (ps_pdt (k_ps (upd_ps c (\<lambda>p. p\<lparr>code_start_vaddr := code_start_vaddr (k_ps s2 parent)\<rparr>) s2) c))
         (code_start_vaddr (k_ps (upd_ps c (\<lambda>p. p\<lparr>code_start_vaddr := code_start_vaddr (k_ps s2 parent)\<rparr>) s2) parent)) parent c = Some (s3, 0)"
      "process_copy_paddr_list stack_paddrs stack_paddrs_update (upd_ps c (\<lambda>p. p\<lparr>stack_start_vaddr := stack_start_vaddr (k_ps s3 parent)\<rparr>) s3)
         (ps_pdt (k_ps (upd_ps c (\<lambda>p. p\<lparr>stack_start_vaddr := stack_start_vaddr (k_ps s3 parent)\<rparr>) s3) c))
         (stack_start_vaddr (k_ps (upd_ps c (\<lambda>p. p\<lparr>stack_start_vaddr := stack_start_vaddr (k_ps s3 parent)\<rparr>) s3) parent)) parent c = Some (s4, 0)"
      "process_load_kernel_stack s4 c = Some (s5, 0)" "process_copy_file_descriptors s5 parent c = Some (s', 0)"
    using r c(1) unfolding process_clone_def Let_def t0_def
    by (auto split: Option.bind_splits if_splits)
  have u: "child_frame c t (upd_ps c (\<lambda>p. p\<lparr>code_start_vaddr := v\<rparr>) t)" "child_frame c t (upd_ps c (\<lambda>p. p\<lparr>stack_start_vaddr := v\<rparr>) t)" for t v
    by (rule child_frame_upd, simp)+
  have f1: "child_frame c (t0 s1) s2" by (rule keepsD [OF process_load_pdt_keeps k(2)])
  have f2: "child_frame c s2 s3"
    using k(3) unfolding process_copy_paddr_list_def by (rule keepsD [OF keeps_from [OF u(1) copy_paddr_loop_keeps], rotated]) simp
  have f3: "child_frame c s3 s4"
    using k(4) unfolding process_copy_paddr_list_def by (rule keepsD [OF keeps_from [OF u(2) copy_paddr_loop_keeps], rotated]) simp
  have f4: "child_frame c s4 s5" by (rule keepsD [OF process_load_kernel_stack_keeps k(5)])
  have "child_frame c s5 s'"
    using k(6) unfolding process_copy_file_descriptors_def by (rule keepsD [OF copy_fds_loop_keeps])
  note f = child_frame_trans [OF f1 child_frame_trans [OF f2 child_frame_trans [OF f3 child_frame_trans [OF f4 this]]]]
  have "child_frame c s s1" by (rule mem_child_frame [OF mem_frames(7) [OF k(1)]])
  moreover have "k_ps s1 c = k_ps s c" using mem_frames(7) [OF k(1)] by (auto simp: mem_frame_def)
  ultimately show "\<forall>q. q \<noteq> c \<longrightarrow> k_ps s' q = k_ps s q" "ps_id (k_ps s' c) = i" "ps_parent_id (k_ps s' c) = ps_id (k_ps s parent)"
    "ps_user_mode (k_ps s' c) = ps_user_mode (k_ps s parent)" "k_ele s' = k_ele s" "runnable_pss s' = runnable_pss s" "zombie_pss s' = zombie_pss s"
    using f c(2) by (auto simp: child_frame_def t0_def upd_ps_def process_init_def)
qed

section \<open>Giving back a process that is not complete\<close>

lemma pdt_delete_eq:
  assumes "pdt_wf s (kernel_pdt s)" and "vpn pdt \<noteq> 0xC03FF" and "page_entry s (kernel_pdt s) pdt = Some e"
  obtains l where "pdt_delete s pdt = s\<lparr>invlpgs := l, pfa_st := pfa_free (pfa_st s) (get_pf_paddr e)\<rparr>"
  using get_pdt_paddr_eq [OF assms] that unfolding same_tables_def
  by (auto simp: pdt_delete_def Let_def pdt_delete_loop_eq split_beta)

text \<open>The frame of the directory of a process: in use, mapped in the kernel, not one of the kernel's
  page tables.\<close>

definition pdt_frame_ok :: "kernel \<Rightarrow> u32 \<Rightarrow> u32 \<Rightarrow> bool" where
  "pdt_frame_ok s pdt d \<longleftrightarrow> vpn pdt \<noteq> 0xC03FF \<and> map_option get_pf_paddr (page_entry (k_paging s) (kernel_pdt (k_paging s)) pdt) = Some d \<and>
     d \<in> managed_frames (pfa_st (k_paging s)) - free_frames (pfa_st (k_paging s)) -
       insert (kernel_pt_frame (k_paging s)) (tables (k_paging s) (kernel_pdt (k_paging s)))"

lemma k_pdt_delete:
  assumes inv: "kheap_inv (k_heap s) P" and d: "pdt_frame_ok s pdt d" and ok: "paddrs_ok s xs" "\<forall>x\<in>set xs. d \<notin> ele_frames s x"
  defines "s' \<equiv> set_paging (pdt_delete (k_paging s) pdt) s"
  shows "kheap_inv (k_heap s') P" and "paddrs_ok s' xs"
    and "free_frames (pfa_st (k_paging s')) = insert d (free_frames (pfa_st (k_paging s)))"
proof -
  let ?pg = "k_paging s"
  define pa where "pa = pfa_free (pfa_st ?pg) d"
  note wf = kheap_inv_wf [OF inv]
  obtain e where e: "page_entry ?pg (kernel_pdt ?pg) pdt = Some e" "get_pf_paddr e = d" using d by (auto simp: pdt_frame_ok_def)
  have m: "vpn pdt \<noteq> 0xC03FF" "d \<in> managed_frames (pfa_st ?pg)" "d \<notin> free_frames (pfa_st ?pg)"
      "{d} \<inter> insert (kernel_pt_frame ?pg) (tables ?pg (kernel_pdt ?pg)) = {}" using d by (auto simp: pdt_frame_ok_def)
  obtain l where l: "pdt_delete ?pg pdt = ?pg\<lparr>invlpgs := l, pfa_st := pa\<rparr>"
    unfolding pa_def e(2) [symmetric] by (rule pdt_delete_eq [OF wf m(1) e(1)])
  have f: "free_frames pa = free_frames (pfa_st ?pg) \<union> {d}" "pfa_inv pa" "managed_frames pa = managed_frames (pfa_st ?pg)"
    using pfa.release_inv [OF pdt_wfD(2) [OF wf] m(2)] pfa.release_used [OF pdt_wfD(2) [OF wf] m(2,3)] by (simp_all add: pa_def)
  have pg: "k_paging s' = ?pg\<lparr>invlpgs := l, pfa_st := pa\<rparr>" "k_pe s' = k_pe s" "k_heap s' = (k_heap s)\<lparr>kpaging := k_paging s'\<rparr>"
    unfolding s'_def l by (simp_all add: set_paging_def k_paging_def)
  show "free_frames (pfa_st (k_paging s')) = insert d (free_frames (pfa_st (k_paging s)))" using f(1) by (simp add: pg)
  have "\<And>x. x \<in> set xs \<Longrightarrow> ele_frames s x \<inter> {d} = {}" using ok(2) by auto
  from release_paddrs_ok [OF ok(1) pg(2,1) f(3,1) this] show "paddrs_ok s' xs" .
  have "maps_more ?pg (k_paging s')" unfolding pg(1) by (rule release_maps_more [OF wf f(2,1) m(4)])
  then show "kheap_inv (k_heap s') P" unfolding pg(3) using kheap_inv_more [OF inv] by (simp add: k_paging_def)
qed

section \<open>Open files\<close>

text \<open>The descriptors \<open>fds\<close> from \<open>i\<close> on are copies, in fresh blocks \<open>Q\<close>, of the open ones of \<open>src\<close>.\<close>

definition fds_copied :: "nat \<Rightarrow> u32 list \<Rightarrow> u32 list \<Rightarrow> (u32 \<Rightarrow> vnode) \<Rightarrow> u32 list \<Rightarrow> (u32 \<Rightarrow> vnode) \<Rightarrow> u32 set \<Rightarrow> bool" where
  "fds_copied i src old vn fds vn' Q \<longleftrightarrow>
     (\<forall>j. i \<le> j \<and> j < 64 \<longrightarrow> (if src ! j = 0 then fds ! j = old ! j else fds ! j \<in> Q \<and> vn' (fds ! j) = vn (src ! j))) \<and>
     (\<forall>j k. i \<le> j \<and> j < k \<and> k < 64 \<and> src ! j \<noteq> 0 \<and> src ! k \<noteq> 0 \<longrightarrow> fds ! j \<noteq> fds ! k)"

lemma fds_copied_step:
  assumes c: "fds_copied (Suc i) src (old[i := p]) vn1 fds vn' Q" and i: "src ! i \<noteq> 0" "i < 64" "length old = 64"
    and p: "fds ! i = p" "p \<notin> Q" "vn' p = vn (src ! i)" and vn: "\<forall>j<64. src ! j \<noteq> 0 \<longrightarrow> vn1 (src ! j) = vn (src ! j)"
  shows "fds_copied i src old vn fds vn' (insert p Q)"
proof -
  have a: "if src ! j = 0 then fds ! j = old ! j else fds ! j \<in> insert p Q \<and> vn' (fds ! j) = vn (src ! j)"
    if "i \<le> j" "j < 64" for j
  proof (cases "j = i")
    case False
    with that c vn show ?thesis by (auto simp: fds_copied_def Suc_le_eq)
  qed (use i p in simp)
  have "fds ! j \<noteq> fds ! k" if h: "i \<le> j" "j < k" "k < 64" "src ! j \<noteq> 0" "src ! k \<noteq> 0" for j k
  proof (cases "j = i")
    case True
    have "fds ! k \<in> Q" using c h by (auto simp: fds_copied_def)
    with True p show ?thesis by auto
  next
    case False
    with c h show ?thesis by (auto simp: fds_copied_def Suc_le_eq)
  qed
  with a show ?thesis unfolding fds_copied_def by blast
qed

lemma fds_copied_closed: "fds_copied (Suc i) src old vn fds vn' Q \<Longrightarrow> src ! i = 0 \<Longrightarrow> fds ! i = old ! i \<Longrightarrow> fds_copied i src old vn fds vn' Q"
  unfolding fds_copied_def by (metis Suc_leI le_neq_implies_less)

lemma copy_fds_loop_correct:
  fixes i :: nat
  assumes "kheap_inv (k_heap s) P" and "a \<noteq> b" and "length (file_descriptors (k_ps s b)) = 64"
    and "\<forall>j<64. file_descriptors (k_ps s a) ! j \<noteq> 0 \<longrightarrow> file_descriptors (k_ps s a) ! j \<in> P" and "i \<le> 64"
  shows "\<exists>s' r Q fds. copy_fds_loop s a b i = Some (s', r) \<and> kheap_inv (k_heap s') (P \<union> Q) \<and> P \<inter> Q = {} \<and>
     k_ps s' = (k_ps s)(b := (k_ps s b)\<lparr>file_descriptors := fds\<rparr>) \<and> length fds = 64 \<and>
     (\<forall>j<i. fds ! j = file_descriptors (k_ps s b) ! j) \<and> (\<forall>v\<in>P. k_vn s' v = k_vn s v) \<and>
     (r = - 1 \<or> r = 0 \<and> fds_copied i (file_descriptors (k_ps s a)) (file_descriptors (k_ps s b)) (k_vn s) fds (k_vn s') Q)"
  using assms
proof (induction "64 - i" arbitrary: i s P)
  case 0
  then have "copy_fds_loop s a b i = Some (s, 0)" by (subst copy_fds_loop.simps) simp
  with 0 show ?case by (intro exI [of _ s] exI [of _ 0] exI [of _ "{}"] exI [of _ "file_descriptors (k_ps s b)"])
      (auto simp: fds_copied_def)
next
  case (Suc n)
  let ?src = "file_descriptors (k_ps s a)" and ?old = "file_descriptors (k_ps s b)"
  have i: "i < 64" "n = 64 - Suc i" "Suc i \<le> 64" using Suc.hyps(2) by simp_all
  show ?case
  proof (cases "?src ! i = 0")
    case True
    then have "copy_fds_loop s a b i = copy_fds_loop s a b (Suc i)" using i by (subst copy_fds_loop.simps) (simp add: Let_def)
    with Suc.hyps(1) [OF i(2) Suc.prems(1-4) i(3)] fds_copied_closed [OF _ True] show ?thesis by (metis less_Suc_eq)
  next
    case False
    show ?thesis
    proof (rule k_kmalloc_cases [OF Suc.prems(1), of SIZEOF_VNODE])
      fix s1 assume s1: "k_kmalloc s SIZEOF_VNODE = Some (s1, 0)" "s1 = s\<lparr>k_heap := k_heap s1\<rparr>" "kheap_inv (k_heap s1) P"
      have "copy_fds_loop s a b i = Some (s1, - 1)" using s1(1) False i by (subst copy_fds_loop.simps) (simp add: Let_def)
      moreover have "k_ps s1 = k_ps s" "k_vn s1 = k_vn s" by (subst s1(2); simp)+
      ultimately show ?thesis using s1(3) Suc.prems(3)
        by (intro exI [of _ s1] exI [of _ "- 1"] exI [of _ "{}"] exI [of _ ?old]) simp
    next
      fix s1 p
      assume s1: "k_kmalloc s SIZEOF_VNODE = Some (s1, p)" "s1 = s\<lparr>k_heap := k_heap s1\<rparr>" "p \<noteq> 0" "p \<notin> P" "kheap_inv (k_heap s1) (insert p P)"
      define s2 where "s2 = upd_ps b (\<lambda>x. x\<lparr>file_descriptors := (file_descriptors x)[i := p]\<rparr>) (set_vn p (k_vn s (?src ! i)) s1)"
      have f1: "k_ps s1 = k_ps s" "k_vn s1 = k_vn s" by (subst s1(2); simp)+
      have f2: "k_ps s2 = (k_ps s)(b := (k_ps s b)\<lparr>file_descriptors := ?old[i := p]\<rparr>)" "k_vn s2 = (k_vn s)(p := k_vn s (?src ! i))"
          "k_heap s2 = k_heap s1"
        by (simp_all add: s2_def upd_ps_def set_vn_def f1)
      have e: "copy_fds_loop s a b i = copy_fds_loop s2 a b (Suc i)"
        using s1(1,3) False i f1 by (subst copy_fds_loop.simps) (simp add: Let_def s2_def)
      have ab: "file_descriptors (k_ps s2 a) = ?src" "file_descriptors (k_ps s2 b) = ?old[i := p]" using Suc.prems(2) by (simp_all add: f2)
      have inv2: "kheap_inv (k_heap s2) (insert p P)" using s1(5) by (simp add: f2)
      obtain s' r Q fds where s': "copy_fds_loop s2 a b (Suc i) = Some (s', r)" "kheap_inv (k_heap s') (insert p P \<union> Q)" "insert p P \<inter> Q = {}"
        "k_ps s' = (k_ps s2)(b := (k_ps s2 b)\<lparr>file_descriptors := fds\<rparr>)" "length fds = 64"
        "\<forall>j<Suc i. fds ! j = ?old[i := p] ! j" "\<forall>v\<in>insert p P. k_vn s' v = k_vn s2 v"
        "r = - 1 \<or> r = 0 \<and> fds_copied (Suc i) ?src (?old[i := p]) (k_vn s2) fds (k_vn s') Q"
        using Suc.hyps(1) [OF i(2) inv2 Suc.prems(2) _ _ i(3)] Suc.prems(3,4) unfolding ab by auto
      have fi: "fds ! i = p" "\<forall>j<i. fds ! j = ?old ! j" using s'(6) Suc.prems(3) i by auto
      have vP: "\<forall>v\<in>P. k_vn s' v = k_vn s v" and vp: "k_vn s' p = k_vn s (?src ! i)" using s'(7) s1(4) by (auto simp: f2)
      have cp: "fds_copied i ?src ?old (k_vn s) fds (k_vn s') (insert p Q)"
        if "fds_copied (Suc i) ?src (?old[i := p]) (k_vn s2) fds (k_vn s') Q"
        by (rule fds_copied_step [OF that False i(1) Suc.prems(3) fi(1)]) (use s'(3) vp Suc.prems(4) s1(4) in \<open>auto simp: f2\<close>)
      have "k_ps s' = (k_ps s)(b := (k_ps s b)\<lparr>file_descriptors := fds\<rparr>)" using s'(4) by (simp add: f2)
      moreover have "kheap_inv (k_heap s') (P \<union> insert p Q)" "P \<inter> insert p Q = {}" using s'(2,3) s1(4) by auto
      ultimately show ?thesis unfolding e using s'(1,5,8) fi(2) vP cp by blast
    qed simp
  qed
qed

section \<open>An example\<close>

text \<open>A kernel before its first process.\<close>

definition blank_ps :: "u32 \<Rightarrow> ps" where
  "blank_ps i = process_init i \<lparr>ps_id = 0, ps_parent_id = 0, ps_pdt = 0, ps_pdt_paddr = 0, ps_current = zero_registers,
     ps_user_mode = zero_registers, kernel_stack_start_vaddr = 0, stack_start_vaddr = 0, code_start_vaddr = 0,
     file_descriptors = [], code_paddrs = null_paddrs, stack_paddrs = null_paddrs, kernel_stack_paddrs = null_paddrs\<rparr>"

definition boot_kernel :: kernel where
  "boot_kernel = \<lparr>k_heap = example_kheap, k_fs = example_fs,
     k_fb = \<lparr>fb_mem = (\<lambda>_. 0), cursor_pos = 0, fb_io = \<lparr>io_in = (\<lambda>_ _. 0), io_reads = (\<lambda>_. 0), io_out = []\<rparr>\<rparr>,
     k_kbd = example_kbd, k_io = \<lparr>io_in = (\<lambda>_ _. 0x21), io_reads = (\<lambda>_. 0), io_out = []\<rparr>,
     k_phys = (\<lambda>_. 0), k_pdt = 0xC0101000, k_ps = (\<lambda>_. blank_ps 0), k_pe = (\<lambda>_. \<lparr>pe_paddr = 0, pe_count = 0, pe_next = 0\<rparr>),
     k_vn = (\<lambda>_. unset_vnode), k_ele = (\<lambda>_. \<lparr>le_next = 0, le_ps = 0\<rparr>),
     runnable_pss = \<lparr>pss_start = 0, pss_end = 0\<rparr>, zombie_pss = \<lparr>pss_start = 0, pss_end = 0\<rparr>, sched_ms = 0,
     tss_esp0 = 0, tss_ss0 = 0, interrupt_handlers = (\<lambda>_. None), interrupts_enabled = False, k_cpu = In_kernel\<rparr>"

lemma boot_kernel_heap: "kheap_inv (k_heap boot_kernel) {}"
  using example_kheap_inv by (simp add: boot_kernel_def)

text \<open>Frames just allocated are fit for the list of a process.\<close>

lemma allocated_frames:
  assumes inv: "kheap_inv (k_heap s) P" and a: "k_pfa_allocate s n = (s', p)" and p: "p \<noteq> 0"
  shows "kheap_inv (k_heap s') P" and "s' = s\<lparr>k_heap := k_heap s'\<rparr>"
    and "frame_block p n \<subseteq> managed_frames (pfa_st (k_paging s')) - free_frames (pfa_st (k_paging s')) -
          insert (kernel_pt_frame (k_paging s')) (tables (k_paging s') (kernel_pdt (k_paging s')))"
proof -
  let ?pg = "k_paging s"
  note wf = kheap_inv_wf [OF inv]
  obtain pa where pa: "pfa_allocate (pfa_st ?pg) n = (pa, p)" "s' = set_paging (?pg\<lparr>pfa_st := pa\<rparr>) s"
    using a by (auto simp: k_pfa_allocate_def Let_def split: prod.splits)
  have pg: "k_paging s' = ?pg\<lparr>pfa_st := pa\<rparr>" "k_heap s' = (k_heap s)\<lparr>kpaging := k_paging s'\<rparr>"
    by (simp_all add: pa(2) set_paging_def k_paging_def)
  have "maps_more ?pg (k_paging s')" using pdt_wf_alloc [OF wf pa(1)] by (simp add: maps_more_def pg(1))
  then show "kheap_inv (k_heap s') P" unfolding pg(2) using kheap_inv_more [OF inv] by (simp add: k_paging_def)
  show "s' = s\<lparr>k_heap := k_heap s'\<rparr>" by (simp add: pa(2) set_paging_def)
  note b = pfa.allocate_block [OF pdt_wfD(2) [OF wf] pa(1) p] pfa.avail_managed [OF pdt_wfD(2) [OF wf]]
    pfa.allocate_managed [OF pdt_wfD(2) [OF wf] pa(1)]
  have t: "tables ?pg (kernel_pdt ?pg) \<inter> free_frames (pfa_st ?pg) = {}" "kernel_pt_frame ?pg \<notin> free_frames (pfa_st ?pg)"
    using pdt_wfD(3,4) [OF wf] by (auto simp: tables_def)
  have e: "tables (k_paging s') = tables ?pg" "kernel_pt_frame (k_paging s') = kernel_pt_frame ?pg"
    by (simp_all add: pg(1) tables_def kernel_pt_frame_def fun_eq_iff)
  show "frame_block p n \<subseteq> managed_frames (pfa_st (k_paging s')) - free_frames (pfa_st (k_paging s')) -
          insert (kernel_pt_frame (k_paging s')) (tables (k_paging s') (kernel_pdt (k_paging s')))"
    using b t unfolding e by (auto simp: pg(1))
qed

text \<open>Blocks for a process and for an element of a list, and two frames.\<close>

lemma example_blocks:
  obtains s1 p s2 e s3 f where "k_kmalloc boot_kernel SIZEOF_PS = Some (s1, p)" and "p \<noteq> 0" and "k_kmalloc s1 SIZEOF_PADDR_ELE = Some (s2, e)"
    and "e \<noteq> 0" and "e \<noteq> p" and "k_pfa_allocate s2 2 = (s3, f)" and "f \<noteq> 0"
proof -
  have "map_option (\<lambda>(p, e, f). p \<noteq> 0 \<and> e \<noteq> 0 \<and> e \<noteq> p \<and> f \<noteq> 0)
      (do { (s1, p) \<leftarrow> k_kmalloc boot_kernel SIZEOF_PS; (s2, e) \<leftarrow> k_kmalloc s1 SIZEOF_PADDR_ELE; Some (p, e, snd (k_pfa_allocate s2 2)) }) = Some True"
    by code_simp
  then show ?thesis using that by (auto split: Option.bind_splits prod.splits) (metis prod.collapse)
qed

section \<open>Properties\<close>





end
