(* ===== verification/Scheduler_Correct.thy ===== *)
theory Scheduler_Correct
  imports Scheduler Process_Correct
begin

text \<open>
  The two lists of the scheduler as sequences of processes: adding appends, rotating rotates, removing
  takes out the first process with the number; and what follows for the order in which processes run.
\<close>

section \<open>The lists\<close>

abbreviation next_of :: "kernel \<Rightarrow> u32 \<Rightarrow> u32" where
  "next_of s \<equiv> (\<lambda>x. le_next (k_ele s x))"

definition queue :: "which \<Rightarrow> kernel \<Rightarrow> u32 list \<Rightarrow> bool" where
  "queue w s xs \<longleftrightarrow> linked (next_of s) (pss_start (pss_of w s)) xs \<and>
     (xs \<noteq> [] \<longrightarrow> pss_end (pss_of w s) = last xs) \<and> (\<forall>x\<in>set xs. le_ps (k_ele s x) \<noteq> 0)"

definition procs :: "kernel \<Rightarrow> u32 list \<Rightarrow> u32 list" where
  "procs s xs = map (\<lambda>x. le_ps (k_ele s x)) xs"

text \<open>The elements \<open>L w\<close> of the two lists are live blocks of the heap, in one list each.\<close>

definition sched_inv :: "kernel \<Rightarrow> u32 set \<Rightarrow> (which \<Rightarrow> u32 list) \<Rightarrow> bool" where
  "sched_inv s P L \<longleftrightarrow> (\<forall>w. queue w s (L w) \<and> set (L w) \<subseteq> P) \<and> set (L Runnable) \<inter> set (L Zombie) = {} \<and>
     kheap_inv (k_heap s) P"

text \<open>The abstract state: the processes on the two lists, in order.\<close>

definition sched_abs :: "kernel \<Rightarrow> (which \<Rightarrow> u32 list) \<Rightarrow> which \<Rightarrow> u32 list" where
  "sched_abs s L w = procs s (L w)"

fun remove_pid :: "(u32 \<Rightarrow> ps) \<Rightarrow> u32 \<Rightarrow> u32 list \<Rightarrow> u32 list" where
  "remove_pid f pid [] = []"
| "remove_pid f pid (p # qs) = (if ps_id (f p) = pid then qs else p # remove_pid f pid qs)"

lemma next_of_set_ele [simp]: "next_of (set_ele e x s) = (next_of s)(e := le_next x)"
  by (auto simp: set_ele_def)

lemma set_pss_simps [simp]:
  "k_ele (set_pss w l s) = k_ele s" "k_heap (set_pss w l s) = k_heap s" "k_ps (set_pss w l s) = k_ps s"
  "k_cpu (set_pss w l s) = k_cpu s" "pss_of w (set_pss w l s) = l" "pss_of w (s\<lparr>k_phys := m\<rparr>) = pss_of w s"
  by (cases w; simp)+

lemma set_pss_other [simp]: "w \<noteq> w' \<Longrightarrow> pss_of w (set_pss w' l s) = pss_of w s"
  by (cases w; cases w'; simp)

lemma set_ele_simps [simp]:
  "k_heap (set_ele e x s) = k_heap s" "k_ps (set_ele e x s) = k_ps s" "k_ele (set_ele e x s) = (k_ele s)(e := x)"
  "runnable_pss (set_ele e x s) = runnable_pss s" "zombie_pss (set_ele e x s) = zombie_pss s"
  "k_cpu (set_ele e x s) = k_cpu s"
  by (simp_all add: set_ele_def)

lemma pss_of_set_ele [simp]: "pss_of w (set_ele e x s) = pss_of w s"
  by (cases w) simp_all

lemma queueD:
  assumes "queue w s xs"
  shows "linked (next_of s) (pss_start (pss_of w s)) xs" and "distinct xs" and "0 \<notin> set xs"
    and "xs \<noteq> [] \<Longrightarrow> pss_end (pss_of w s) = last xs" and "x \<in> set xs \<Longrightarrow> le_ps (k_ele s x) \<noteq> 0"
    and "pss_start (pss_of w s) = (if xs = [] then 0 else hd xs)"
  using assms linked_distinct lseg_nonnull linked_start unfolding queue_def by blast+

text \<open>A list does not see what happens to elements that are not on it.\<close>

lemma queue_cong:
  assumes "queue w s xs" and "pss_of w s' = pss_of w s" and "\<And>x. x \<in> set xs \<Longrightarrow> k_ele s' x = k_ele s x"
  shows "queue w s' xs"
  using assms lseg_cong [of xs "next_of s'" "next_of s"] unfolding queue_def by simp

lemma procs_cong: "(\<And>x. x \<in> set xs \<Longrightarrow> le_ps (k_ele s' x) = le_ps (k_ele s x)) \<Longrightarrow> procs s' xs = procs s xs"
  by (simp add: procs_def)

section \<open>Rotation\<close>

lemma rotate_single:
  assumes "queue Runnable s [x]"
  shows "scheduler_get_and_rotate_runnable_process s = (s, le_ps (k_ele s x))"
  using queueD [OF assms] by (auto simp: scheduler_get_and_rotate_runnable_process_def Let_def)

lemma rotate_many:
  assumes q: "queue Runnable s (x # ys @ [e])"
  shows "scheduler_get_and_rotate_runnable_process s =
     (s\<lparr>k_ele := (k_ele s)(x := (k_ele s x)\<lparr>le_next := 0\<rparr>, e := (k_ele s e)\<lparr>le_next := x\<rparr>),
        runnable_pss := \<lparr>pss_start = le_next (k_ele s x), pss_end = x\<rparr>\<rparr>,
      le_ps (k_ele s (le_next (k_ele s x))))"
proof -
  note d = queueD [OF q]
  have st: "pss_start (runnable_pss s) = x" "pss_end (runnable_pss s) = e" and ne: "x \<noteq> 0" "x \<noteq> e" "le_ps (k_ele s x) \<noteq> 0"
    using d by auto
  have "le_next (k_ele s x) = hd (ys @ [e])" "hd (ys @ [e]) \<in> set (ys @ [e])"
    using linked_nth_next(1) [of "next_of s" x "[]" x "ys @ [e]"] d(1,6) by (auto simp: hd_append)
  with d(3) have "le_next (k_ele s x) \<noteq> 0" by auto
  with st ne show ?thesis
    by (cases "runnable_pss s") (simp add: scheduler_get_and_rotate_runnable_process_def Let_def set_ele_def)
qed

text \<open>What rotating keeps of the state: everything but the links between the elements of the list.\<close>

definition relinked :: "kernel \<Rightarrow> u32 list \<Rightarrow> kernel \<Rightarrow> bool" where
  "relinked s xs s' \<longleftrightarrow> (\<exists>f l. s' = s\<lparr>k_ele := f, runnable_pss := l\<rparr> \<and> (\<forall>x. le_ps (f x) = le_ps (k_ele s x)) \<and>
     (\<forall>x. x \<notin> set xs \<longrightarrow> f x = k_ele s x))"

lemma rotate_refines:
  assumes q: "queue Runnable s rs" and ne: "rs \<noteq> []"
  obtains s' where "scheduler_get_and_rotate_runnable_process s = (s', hd (procs s (rotate1 rs)))"
    and "queue Runnable s' (rotate1 rs)" and "relinked s rs s'"
proof -
  consider x where "rs = [x]" | x ys e where "rs = x # ys @ [e]"
    using ne by (metis append_butlast_last_id neq_Nil_conv)
  then show ?thesis
  proof cases
    case 1
    have "relinked s rs s" unfolding relinked_def by (intro exI [of _ "k_ele s"] exI [of _ "runnable_pss s"]) simp
    with 1 q rotate_single [of s x] that [of s] show ?thesis by (simp add: procs_def)
  next
    case 2
    let ?f = "(k_ele s)(x := (k_ele s x)\<lparr>le_next := 0\<rparr>, e := (k_ele s e)\<lparr>le_next := x\<rparr>)"
    let ?l = "\<lparr>pss_start = le_next (k_ele s x), pss_end = x\<rparr>"
    let ?s = "s\<lparr>k_ele := ?f, runnable_pss := ?l\<rparr>"
    have q': "queue Runnable s (x # ys @ [e])" using q 2 by simp
    note d = queueD [OF q']
    have nx: "next_of ?s = (next_of s)(x := 0, e := x)" by auto
    have l: "linked (next_of s) x (x # ys @ [e])" using d(1) d(6) by simp
    from linked_rotate [OF l] nx have "linked (next_of ?s) (le_next (k_ele s x)) (ys @ [e, x])" by simp
    with d have "queue Runnable ?s (rotate1 rs)" by (auto simp: queue_def 2)
    moreover have "le_next (k_ele s x) = hd (rotate1 rs)"
      using linked_nth_next(1) [of "next_of s" x "[]" x "ys @ [e]"] l by (auto simp: 2 hd_append)
    moreover have "relinked s rs ?s" unfolding relinked_def 2 by (intro exI [of _ ?f] exI [of _ ?l]) auto
    moreover have "hd (procs s (rotate1 rs)) = le_ps (k_ele s (hd (rotate1 rs)))"
      by (cases ys) (simp_all add: procs_def 2)
    ultimately show ?thesis using rotate_many [OF q'] by (intro that [of ?s]) simp_all
  qed
qed

lemma rotate_empty: "queue Runnable s [] \<Longrightarrow> scheduler_get_and_rotate_runnable_process s = (s, 0)"
  using queueD(6) [of Runnable s "[]"] by (simp add: scheduler_get_and_rotate_runnable_process_def)

lemma relinked_simps:
  assumes "relinked s xs s'"
  shows "k_heap s' = k_heap s" and "k_ps s' = k_ps s" and "zombie_pss s' = zombie_pss s"
    and "le_ps (k_ele s' x) = le_ps (k_ele s x)" and "x \<notin> set xs \<Longrightarrow> k_ele s' x = k_ele s x" and "k_cpu s' = k_cpu s"
  using assms by (auto simp: relinked_def)

section \<open>Scheduling\<close>

text \<open>What the processor runs for a process.\<close>

definition runs :: "ps \<Rightarrow> cpu_mode" where
  "runs p = (if r_cs (ps_current p) = SEGSEL_KERNEL_CS then Run_kernel (ps_current p) else Run_user (ps_current p))"

lemma k_load_pdt_simps [simp]:
  "k_ps (k_load_pdt d a s) = k_ps s" "k_ele (k_load_pdt d a s) = k_ele s" "runnable_pss (k_load_pdt d a s) = runnable_pss s"
  "zombie_pss (k_load_pdt d a s) = zombie_pss s" "k_pdt (k_load_pdt d a s) = d" "tss_esp0 (k_load_pdt d a s) = tss_esp0 s"
  by (simp_all add: k_load_pdt_def set_paging_def)

text \<open>The process \<open>p\<close> has the processor: its registers, its directory, its kernel stack.\<close>

definition running :: "kernel \<Rightarrow> u32 \<Rightarrow> bool" where
  "running s p \<longleftrightarrow> k_cpu s = runs (k_ps s p) \<and> k_pdt s = ps_pdt (k_ps s p) \<and>
     cr3 (k_paging s) = (ps_pdt_paddr (k_ps s p) AND 0xFFFFF000) OR 8 \<and>
     tss_esp0 s = kernel_stack_start_vaddr (k_ps s p) \<and> tss_ss0 s = ucast SEGSEL_KERNEL_DS"

lemma procs_rotate1: "procs s (rotate1 rs) = rotate1 (procs s rs)"
  by (simp add: procs_def rotate1_map)

lemma schedule_refines:
  assumes q: "queue Runnable s rs" and ne: "rs \<noteq> []"
  shows "queue Runnable (scheduler_schedule s) (rotate1 rs)"
    and "procs (scheduler_schedule s) xs = procs s xs"
    and "x \<notin> set rs \<Longrightarrow> k_ele (scheduler_schedule s) x = k_ele s x"
    and "k_ps (scheduler_schedule s) = k_ps s" and "zombie_pss (scheduler_schedule s) = zombie_pss s"
    and "running (scheduler_schedule s) (hd (rotate1 (procs s rs)))"
proof -
  let ?p = "hd (procs s (rotate1 rs))"
  obtain s1 where s1: "scheduler_get_and_rotate_runnable_process s = (s1, ?p)" "queue Runnable s1 (rotate1 rs)" "relinked s rs s1"
    by (rule rotate_refines [OF q ne])
  have "?p \<in> set (procs s (rotate1 rs))" using ne by (intro hd_in_set) (simp add: procs_def)
  then have p: "?p \<noteq> 0" using queueD(5) [OF q] by (auto simp: procs_def)
  let ?s2 = "k_load_pdt (ps_pdt (k_ps s1 ?p)) (ps_pdt_paddr (k_ps s1 ?p))
     (tss_set_kernel_stack (ucast SEGSEL_KERNEL_DS) (kernel_stack_start_vaddr (k_ps s1 ?p)) s1)"
  have ps: "k_ps ?s2 = k_ps s1" by (simp add: tss_set_kernel_stack_def)
  have e: "scheduler_schedule s = ?s2\<lparr>k_cpu := runs (k_ps s1 ?p), interrupts_enabled := bit (r_eflags (ps_current (k_ps s1 ?p))) 9\<rparr>"
    using s1(1) p ps by (simp add: scheduler_schedule_def Let_def runs_def run_process_in_kernel_mode_def run_process_in_user_mode_def
        tss_set_kernel_stack_def)
  note r = relinked_simps [OF s1(3)]
  have k: "k_ps (scheduler_schedule s) = k_ps s" "k_ele (scheduler_schedule s) = k_ele s1"
    "runnable_pss (scheduler_schedule s) = runnable_pss s1" "zombie_pss (scheduler_schedule s) = zombie_pss s"
    using ps r(2,3) by (simp_all add: e tss_set_kernel_stack_def)
  show "queue Runnable (scheduler_schedule s) (rotate1 rs)" by (rule queue_cong [OF s1(2)]) (simp_all add: k)
  show "procs (scheduler_schedule s) xs = procs s xs" by (rule procs_cong) (simp add: k r(4))
  show "k_ps (scheduler_schedule s) = k_ps s" "zombie_pss (scheduler_schedule s) = zombie_pss s" by (fact k)+
  show "x \<notin> set rs \<Longrightarrow> k_ele (scheduler_schedule s) x = k_ele s x" using r(5) by (simp add: k)
  show "running (scheduler_schedule s) (hd (rotate1 (procs s rs)))"
    using r(2) by (simp add: running_def e procs_rotate1 k_load_pdt_def pdt_load_process_pdt_def pdt_set_def set_paging_def
        tss_set_kernel_stack_def k_paging_def)
qed

lemma rotate_frame:
  assumes "scheduler_get_and_rotate_runnable_process s = (s', p)"
  shows "k_io s' = k_io s" and "sched_ms s' = sched_ms s" and "k_vn s' = k_vn s" and "k_phys s' = k_phys s" and "k_pe s' = k_pe s"
  using assms by (auto simp: scheduler_get_and_rotate_runnable_process_def Let_def set_ele_def split: if_splits)

lemma schedule_frame:
  "k_io (scheduler_schedule s) = k_io s" "sched_ms (scheduler_schedule s) = sched_ms s" "k_vn (scheduler_schedule s) = k_vn s"
  "k_phys (scheduler_schedule s) = k_phys s" "k_pe (scheduler_schedule s) = k_pe s"
  using rotate_frame [of s] by (auto simp: scheduler_schedule_def Let_def run_process_in_kernel_mode_def run_process_in_user_mode_def
      tss_set_kernel_stack_def k_load_pdt_def set_paging_def split: prod.splits)

lemma schedule_iterate:
  assumes "queue Runnable s rs" and "rs \<noteq> []"
  shows "queue Runnable ((scheduler_schedule ^^ k) s) (rotate k rs) \<and> (\<forall>xs. procs ((scheduler_schedule ^^ k) s) xs = procs s xs) \<and>
     k_ps ((scheduler_schedule ^^ k) s) = k_ps s \<and> zombie_pss ((scheduler_schedule ^^ k) s) = zombie_pss s \<and>
     (k > 0 \<longrightarrow> running ((scheduler_schedule ^^ k) s) (procs s rs ! (k mod length rs)))"
proof (induction k)
  case (Suc k)
  let ?s = "(scheduler_schedule ^^ k) s"
  have q: "queue Runnable ?s (rotate k rs)" and ne: "rotate k rs \<noteq> []" using Suc assms(2) by auto
  note r = schedule_refines [OF q ne]
  have "procs ?s (rotate k rs) = rotate k (procs s rs)"
    using Suc.IH by (simp add: procs_def rotate_map)
  then have "hd (rotate1 (procs ?s (rotate k rs))) = hd (rotate (Suc k) (procs s rs))" by simp
  also have "\<dots> = procs s rs ! (Suc k mod length rs)"
    using assms(2) by (subst hd_rotate_conv_nth) (simp_all add: procs_def)
  finally show ?case using r Suc by simp
qed (use assms in simp)

section \<open>Walks along a list\<close>

definition pids :: "kernel \<Rightarrow> u32 list \<Rightarrow> u32 list" where
  "pids s xs = map (\<lambda>p. ps_id (k_ps s p)) (procs s xs)"

lemma pids_Nil [simp]: "pids s [] = []" and procs_Nil [simp]: "procs s [] = []"
  and pids_Cons [simp]: "pids s (x # xs) = ps_id (k_ps s (le_ps (k_ele s x))) # pids s xs"
  and procs_Cons [simp]: "procs s (x # xs) = le_ps (k_ele s x) # procs s xs"
  and procs_append [simp]: "procs s (xs @ ys) = procs s xs @ procs s ys"
  and pids_append [simp]: "pids s (xs @ ys) = pids s xs @ pids s ys"
  by (simp_all add: pids_def procs_def)

lemma max_id_loop_linked:
  assumes "linked (next_of s) a xs" and "\<And>x. x \<in> set xs \<Longrightarrow> le_ps (k_ele s x) \<noteq> 0"
  shows "max_id_loop s a mx = Some (fold max (pids s xs) mx)"
  using assms
proof (induction xs arbitrary: a mx)
  case Nil
  then show ?case by (simp add: max_id_loop.simps)
next
  case (Cons x xs)
  let ?i = "ps_id (k_ps s (le_ps (k_ele s x)))"
  have "(if mx \<le> ?i then ?i else mx) = max ?i mx" by (auto simp: max_def)
  with Cons show ?case by (subst max_id_loop.simps) (simp add: Let_def)
qed

lemma count_children_linked:
  "linked (next_of s) a xs \<Longrightarrow>
   count_children_loop s pid a num = Some (num + int (length (filter (\<lambda>p. ps_parent_id (k_ps s p) = pid) (procs s xs))))"
proof (induction xs arbitrary: a num)
  case Nil
  then show ?case by (simp add: count_children_loop.simps)
next
  case (Cons x xs)
  then show ?case by (subst count_children_loop.simps) simp
qed

lemma child_terminated_linked:
  "linked (next_of s) a xs \<Longrightarrow>
   child_terminated_loop s pid a = Some (\<exists>p\<in>set (procs s xs). ps_parent_id (k_ps s p) = pid)"
proof (induction xs arbitrary: a)
  case Nil
  then show ?case by (simp add: child_terminated_loop.simps)
next
  case (Cons x xs)
  then show ?case by (subst child_terminated_loop.simps) simp
qed

lemma fold_max_bound: "mx \<le> fold max xs (mx :: u32) \<and> (\<forall>x\<in>set xs. x \<le> fold max xs mx)"
proof (induction xs arbitrary: mx)
  case (Cons y ys)
  have "max y mx \<le> fold max ys (max y mx)" using Cons [of "max y mx"] by simp
  with Cons [of "max y mx"] show ?case by simp
qed simp

lemma fold_max_mem: "fold max xs (mx :: u32) \<in> insert mx (set xs)"
  by (induction xs arbitrary: mx) (auto simp: max_def)

section \<open>Adding and removing\<close>

text \<open>An operation on the list \<open>w\<close> that may change the elements \<open>xs\<close> leaves the rest of the scheduler.\<close>

definition touches :: "which \<Rightarrow> u32 set \<Rightarrow> kernel \<Rightarrow> kernel \<Rightarrow> bool" where
  "touches w X s s' \<longleftrightarrow> k_ps s' = k_ps s \<and> k_cpu s' = k_cpu s \<and> (\<forall>x. x \<notin> X \<longrightarrow> k_ele s' x = k_ele s x) \<and>
     (\<forall>w'. w' \<noteq> w \<longrightarrow> pss_of w' s' = pss_of w' s)"

lemma touches_other:
  assumes "touches w X s s'" and "queue w' s ys" and "w' \<noteq> w" and "set ys \<inter> X = {}"
  shows "queue w' s' ys" and "procs s' ys = procs s ys"
proof -
  have e: "k_ele s' x = k_ele s x" if "x \<in> set ys" for x using assms(1,4) that by (auto simp: touches_def)
  then show "procs s' ys = procs s ys" by (intro procs_cong) simp
  show "queue w' s' ys" by (rule queue_cong [OF assms(2) _ e]) (use assms(1,3) in \<open>auto simp: touches_def\<close>)
qed

lemma queue_heap [simp]: "queue w (s\<lparr>k_heap := h\<rparr>) xs = queue w s xs"
  by (cases w) (simp_all add: queue_def)

lemma procs_heap [simp]: "procs (s\<lparr>k_heap := h\<rparr>) xs = procs s xs"
  by (simp add: procs_def)

lemma add_process_queue:
  assumes q: "queue w s xs" and inv: "kheap_inv (k_heap s) P" and sub: "set xs \<subseteq> P" and p: "p \<noteq> 0"
  obtains (full) s' where "scheduler_add_process w s p = Some (s', - 1)" and "s' = s\<lparr>k_heap := k_heap s'\<rparr>" and "kheap_inv (k_heap s') P"
  | (added) s' e where "scheduler_add_process w s p = Some (s', 0)" and "e \<notin> P" and "kheap_inv (k_heap s') (insert e P)"
    and "queue w s' (xs @ [e])" and "procs s' (xs @ [e]) = procs s xs @ [p]" and "touches w (insert e (set xs)) s s'"
proof (rule k_kmalloc_cases [OF inv, of SIZEOF_PS_LIST_ELE])
  fix s1 assume s1: "k_kmalloc s SIZEOF_PS_LIST_ELE = Some (s1, 0)" "s1 = s\<lparr>k_heap := k_heap s1\<rparr>" "kheap_inv (k_heap s1) P"
  then show ?thesis by (intro full [of s1]) (simp_all add: scheduler_add_process_def)
next
  fix s1 e
  assume s1: "k_kmalloc s SIZEOF_PS_LIST_ELE = Some (s1, e)" "s1 = s\<lparr>k_heap := k_heap s1\<rparr>" "e \<noteq> 0" "e \<notin> P"
    "kheap_inv (k_heap s1) (insert e P)"
  have q1: "queue w s1 xs" using q by (subst s1(2)) simp
  note d = queueD [OF q1]
  have e: "e \<notin> set xs" using s1(4) sub by blast
  have f: "k_ele s1 = k_ele s" "k_ps s1 = k_ps s" "k_cpu s1 = k_cpu s" "\<And>w. pss_of w s1 = pss_of w s"
    by (subst s1(2); simp)+ (subst s1(2), rename_tac w, case_tac w, simp_all)
  let ?x = "\<lparr>le_next = 0, le_ps = p\<rparr>"
  show ?thesis
  proof (cases xs rule: rev_cases)
    case Nil
    let ?s = "set_pss w \<lparr>pss_start = e, pss_end = e\<rparr> (set_ele e ?x s1)"
    have "scheduler_add_process w s p = Some (?s, 0)"
      using s1(1,3) d(6) Nil by (cases "pss_of w s1"; cases w) (simp_all add: scheduler_add_process_def Let_def)
    moreover have "queue w ?s (xs @ [e])" using s1(3) p Nil by (simp add: queue_def)
    moreover have "touches w (insert e (set xs)) s ?s" using f by (simp add: touches_def)
    ultimately show ?thesis using s1 Nil by (intro added [of ?s e]) simp_all
  next
    case (snoc ys l)
    let ?s = "set_pss w ((pss_of w s1)\<lparr>pss_end := e\<rparr>) (set_ele l ((k_ele s1 l)\<lparr>le_next := e\<rparr>) (set_ele e ?x s1))"
    have "pss_start (pss_of w s1) \<in> set xs" using d(6) hd_in_set [of xs] snoc by simp
    then have l: "l \<noteq> e" "pss_end (pss_of w s1) = l" "pss_start (pss_of w s1) \<noteq> 0"
      using e d(3,4) snoc by auto
    have "scheduler_add_process w s p = Some (?s, 0)"
      using s1(1,3) l by (cases w) (simp_all add: scheduler_add_process_def Let_def)
    moreover have "next_of ?s = (next_of s1)(e := 0, l := e)" by auto
    then have "linked (next_of ?s) (pss_start (pss_of w s1)) (ys @ [l, e])"
      using linked_snoc [of "(next_of s1)(e := 0)" "pss_start (pss_of w s1)" ys l e] d(1) e s1(3) by (simp add: snoc)
    then have "queue w ?s (xs @ [e])" using d(5) p l(1) by (auto simp: queue_def snoc)
    moreover have "procs ?s (xs @ [e]) = procs s xs @ [p]" using e l(1) f(1) by (auto simp: procs_def snoc)
    moreover have "touches w (insert e (set xs)) s ?s" using f snoc by (auto simp: touches_def)
    ultimately show ?thesis using s1 by (intro added [of ?s e]) simp_all
  qed
qed simp

lemma store_word_mapped:
  assumes "\<And>i. i < 4 \<Longrightarrow> translate s (a + i) \<noteq> None"
  shows "\<exists>m. store_word a v s = Some (s\<lparr>k_phys := m\<rparr>)"
proof -
  have t: "translate (s\<lparr>k_phys := m\<rparr>) x = translate s x" for m x by (simp add: translate_def k_paging_def)
  obtain p0 p1 p2 p3 where "translate s a = Some p0" "translate s (a + 1) = Some p1" "translate s (a + 2) = Some p2"
      "translate s (a + 3) = Some p3"
    using assms [of 0] assms [of 1] assms [of 2] assms [of 3] by auto
  then show ?thesis by (auto simp: store_word_def store_byte_def t)
qed

text \<open>Taking an element out. The only element of a list is taken out with a store at address 0.\<close>

lemma unlink_queue:
  assumes q: "queue w s (us @ c # vs)"
    and only: "us = [] \<Longrightarrow> vs = [] \<Longrightarrow> \<forall>i<4. translate s i \<noteq> None"
  obtains s' where "unlink w (if us = [] then 0 else last us) c s = Some s'" and "queue w s' (us @ vs)"
    and "k_heap s' = k_heap s" and "procs s' (us @ vs) = procs s (us @ vs)" and "touches w (set us) s s'"
proof -
  note d = queueD [OF q]
  have nc: "next_of s c = (if vs = [] then 0 else hd vs)" "linked (next_of s) (next_of s c) vs"
    using linked_nth_next [OF d(1)] by auto
  show ?thesis
  proof (cases us rule: rev_cases)
    case Nil
    show ?thesis
    proof (cases vs rule: rev_cases)
      case Nil' : Nil
      let ?s = "set_pss w \<lparr>pss_start = 0, pss_end = 0\<rparr> s"
      have "\<forall>i<4. translate ?s i \<noteq> None" using only [OF Nil Nil'] by (cases w) (simp_all add: translate_def k_paging_def)
      then obtain m where m: "store_word 0 0 ?s = Some (?s\<lparr>k_phys := m\<rparr>)" using store_word_mapped [of ?s 0] by auto
      moreover have "unlink w 0 c s = store_word 0 0 ?s"
        using d(4) nc Nil Nil' by (cases "pss_of w s"; cases w) (simp_all add: unlink_def clear_next_def Let_def)
      moreover have "queue w (?s\<lparr>k_phys := m\<rparr>) []" by (cases w) (simp_all add: queue_def)
      moreover have "touches w {} s (?s\<lparr>k_phys := m\<rparr>)" by (simp add: touches_def)
      ultimately show ?thesis using Nil Nil' by (intro that [of "?s\<lparr>k_phys := m\<rparr>"]) (cases w; simp)+
    next
      case (snoc ws z)
      let ?s = "set_pss w ((pss_of w s)\<lparr>pss_start := next_of s c\<rparr>) s"
      have "unlink w 0 c s = Some ?s"
        using d(2,4) snoc Nil by (cases w) (auto simp: unlink_def Let_def)
      moreover have "queue w ?s vs" using nc(2) d(4,5) snoc Nil by (auto simp: queue_def)
      moreover have "touches w {} s ?s" by (simp add: touches_def)
      ultimately show ?thesis using Nil by (intro that [of ?s]) (simp_all add: procs_def)
    qed
  next
    case (snoc ws pr)
    let ?s1 = "set_ele pr ((k_ele s pr)\<lparr>le_next := next_of s c\<rparr>) s"
    have pr: "pr \<noteq> 0" "pr \<noteq> c" using d(2,3) snoc by auto
    have n1: "next_of ?s1 = (next_of s)(pr := next_of s c)" by auto
    have l1: "linked (next_of ?s1) (pss_start (pss_of w s)) (us @ vs)"
      using linked_unlink [of "next_of s" "pss_start (pss_of w s)" ws pr c vs] d(1) snoc n1 by simp
    have pp: "le_ps (k_ele ?s1 x) = le_ps (k_ele s x)" for x by simp
    show ?thesis
    proof (cases vs rule: rev_cases)
      case Nil
      let ?s = "set_ele pr ((k_ele ?s1 pr)\<lparr>le_next := 0\<rparr>) (set_pss w ((pss_of w s)\<lparr>pss_end := pr\<rparr>) ?s1)"
      have "unlink w (last us) c s = Some ?s"
        using d(4) pr snoc Nil by (cases w) (simp_all add: unlink_def clear_next_def Let_def)
      moreover have "next_of ?s = next_of ?s1" using nc(1) Nil by auto
      then have "queue w ?s (us @ vs)" using l1 d(5) snoc Nil by (auto simp: queue_def)
      moreover have "touches w (set us) s ?s" using snoc by (auto simp: touches_def)
      moreover have "procs ?s (us @ vs) = procs s (us @ vs)" by (simp add: procs_def)
      ultimately show ?thesis using snoc by (intro that [of ?s]) simp_all
    next
      case (snoc zs z)
      have "unlink w (last us) c s = Some ?s1"
        using d(2,4) pr snoc \<open>us = ws @ [pr]\<close> by (cases w) (auto simp: unlink_def Let_def)
      moreover have "queue w ?s1 (us @ vs)" using l1 d(4,5) snoc by (auto simp: queue_def)
      moreover have "touches w (set us) s ?s1" using \<open>us = ws @ [pr]\<close> by (auto simp: touches_def)
      moreover have "procs ?s1 (us @ vs) = procs s (us @ vs)" by (simp add: procs_def)
      ultimately show ?thesis using \<open>us = ws @ [pr]\<close> by (intro that [of ?s1]) simp_all
    qed
  qed
qed

lemma remove_loop_skip:
  assumes "lseg (next_of s) a us b" and "pid \<notin> set (pids s us)"
  shows "remove_loop w pid del s prv a = remove_loop w pid del s (if us = [] then prv else last us) b"
  using assms
proof (induction us arbitrary: a prv)
  case (Cons u us)
  have u: "a = u" "u \<noteq> 0" "lseg (next_of s) (next_of s u) us b" "pid \<notin> set (pids s us)"
    "ps_id (k_ps s (le_ps (k_ele s u))) \<noteq> pid" using Cons.prems by auto
  then have "remove_loop w pid del s prv a = remove_loop w pid del s u (next_of s u)" by (subst remove_loop.simps) simp
  also have "\<dots> = remove_loop w pid del s (if us = [] then u else last us) b" by (rule Cons.IH [OF u(3,4)])
  finally show ?case by simp
qed simp

lemma remove_absent:
  assumes "queue w s xs" and "pid \<notin> set (pids s xs)"
  shows "scheduler_remove_process w s pid del = Some (s, - 1)"
  using remove_loop_skip [OF queueD(1) [OF assms(1)] assms(2)]
  by (simp add: scheduler_remove_process_def remove_loop.simps)

lemma remove_present:
  assumes q: "queue w s (us @ c # vs)" and us: "pid \<notin> set (pids s us)" and c: "ps_id (k_ps s (le_ps (k_ele s c))) = pid"
    and u: "unlink w (if us = [] then 0 else last us) c s = Some s1"
  shows "scheduler_remove_process w s pid del =
     Option.bind (if del then Option.bind (process_delete_resources s1 (le_ps (k_ele s1 c))) (\<lambda>s. k_kfree s (le_ps (k_ele s c)))
                  else Some s1) (\<lambda>s. Option.bind (k_kfree s c) (\<lambda>s. Some (s, 0)))"
proof -
  note d = queueD [OF q]
  have "lseg (next_of s) (pss_start (pss_of w s)) us c" using d(1) by (auto simp: lseg_append)
  from remove_loop_skip [OF this us] have "scheduler_remove_process w s pid del = remove_loop w pid del s (if us = [] then 0 else last us) c"
    by (simp add: scheduler_remove_process_def)
  also have "c \<noteq> 0" "le_ps (k_ele s c) \<noteq> 0" using d(3,5) by auto
  then have "remove_loop w pid del s (if us = [] then 0 else last us) c =
     Option.bind (if del then Option.bind (process_delete_resources s1 (le_ps (k_ele s1 c))) (\<lambda>s. k_kfree s (le_ps (k_ele s c)))
                  else Some s1) (\<lambda>s. Option.bind (k_kfree s c) (\<lambda>s. Some (s, 0)))"
    using c u by (subst remove_loop.simps) simp
  finally show ?thesis .
qed

lemma remove_pid_split:
  assumes "pid \<in> set (pids s xs)"
  obtains us c vs where "xs = us @ c # vs" and "pid \<notin> set (pids s us)" and "ps_id (k_ps s (le_ps (k_ele s c))) = pid"
    and "remove_pid (k_ps s) pid (procs s xs) = procs s (us @ vs)"
  using assms
proof (induction xs arbitrary: thesis)
  case (Cons x xs)
  show ?case
  proof (cases "ps_id (k_ps s (le_ps (k_ele s x))) = pid")
    case True
    then show ?thesis by (intro Cons.prems(1) [of "[]" x xs]) simp_all
  next
    case False
    with Cons.prems(2) obtain us c vs where "xs = us @ c # vs" "pid \<notin> set (pids s us)" "ps_id (k_ps s (le_ps (k_ele s c))) = pid"
        "remove_pid (k_ps s) pid (procs s xs) = procs s (us @ vs)" using Cons.IH by auto
    with False show ?thesis by (intro Cons.prems(1) [of "x # us" c vs]) simp_all
  qed
qed simp

lemma sched_invD:
  assumes "sched_inv s P L"
  shows "queue w s (L w)" and "set (L w) \<subseteq> P" and "w \<noteq> w' \<Longrightarrow> set (L w) \<inter> set (L w') = {}" and "kheap_inv (k_heap s) P"
  using assms by (auto simp: sched_inv_def) (cases w; cases w'; auto)+

text \<open>An operation on one list keeps the invariant when it keeps that list's part of it.\<close>

lemma sched_inv_touches:
  assumes inv: "sched_inv s P L" and t: "touches w X s s'" and q: "queue w s' xs" and X: "\<forall>w'. w' \<noteq> w \<longrightarrow> set (L w') \<inter> (X \<union> set xs) = {}"
    and P: "kheap_inv (k_heap s') P'" "set xs \<subseteq> P'" "\<forall>w'. w' \<noteq> w \<longrightarrow> set (L w') \<subseteq> P'"
  shows "sched_inv s' P' (L(w := xs))" and "w' \<noteq> w \<Longrightarrow> procs s' (L w') = procs s (L w')"
proof -
  have o: "queue w' s' (L w')" "procs s' (L w') = procs s (L w')" if "w' \<noteq> w" for w'
    using touches_other [OF t sched_invD(1) [OF inv] that] X that by auto
  then show "w' \<noteq> w \<Longrightarrow> procs s' (L w') = procs s (L w')" by simp
  have "queue w' s' ((L(w := xs)) w') \<and> set ((L(w := xs)) w') \<subseteq> P'" for w' using o(1) q P by simp
  moreover have "set ((L(w := xs)) Runnable) \<inter> set ((L(w := xs)) Zombie) = {}"
    using X by (cases w) auto
  ultimately show "sched_inv s' P' (L(w := xs))" using P(1) by (simp add: sched_inv_def)
qed

lemma remove_pid_absent: "pid \<notin> set (pids s xs) \<Longrightarrow> remove_pid (k_ps s) pid (procs s xs) = procs s xs"
  by (induction xs) auto

lemma sched_abs_upd:
  assumes "\<And>w'. w' \<noteq> w \<Longrightarrow> procs s' (L w') = procs s (L w')"
  shows "sched_abs s' (L(w := xs)) = (sched_abs s L)(w := procs s' xs)"
  using assms by (auto simp: sched_abs_def)

lemma add_process_refines:
  assumes inv: "sched_inv s P L" and p: "p \<noteq> 0"
  shows "\<exists>s' r P' L'. scheduler_add_process w s p = Some (s', r) \<and> sched_inv s' P' L' \<and> k_ps s' = k_ps s \<and>
     (r = 0 \<and> sched_abs s' L' = (sched_abs s L)(w := sched_abs s L w @ [p]) \<or> r = - 1 \<and> sched_abs s' L' = sched_abs s L)"
proof -
  note d = sched_invD [OF inv]
  show ?thesis
  proof (rule add_process_queue [OF d(1,4) d(2) p])
    fix s'
    assume s': "scheduler_add_process w s p = Some (s', - 1)" "s' = s\<lparr>k_heap := k_heap s'\<rparr>" "kheap_inv (k_heap s') P"
    have "sched_inv s' P L" using inv s'(3) by (subst s'(2)) (simp add: sched_inv_def)
    moreover have "sched_abs s' L = sched_abs s L" "k_ps s' = k_ps s" by (subst s'(2); auto simp: sched_abs_def)+
    ultimately show ?thesis using s'(1) by blast
  next
    fix s' e
    assume s': "scheduler_add_process w s p = Some (s', 0)" "e \<notin> P" "kheap_inv (k_heap s') (insert e P)"
      "queue w s' (L w @ [e])" "procs s' (L w @ [e]) = procs s (L w) @ [p]" "touches w (insert e (set (L w))) s s'"
    have X: "\<forall>w'. w' \<noteq> w \<longrightarrow> set (L w') \<inter> (insert e (set (L w)) \<union> set (L w @ [e])) = {}" using d(2,3) s'(2) by fastforce
    note t = sched_inv_touches [OF inv s'(6,4) X s'(3)]
    have "sched_inv s' (insert e P) (L(w := L w @ [e]))" using t(1) d(2) by auto
    moreover have "sched_abs s' (L(w := L w @ [e])) = (sched_abs s L)(w := sched_abs s L w @ [p])"
      using sched_abs_upd [of w s' L s "L w @ [e]"] t(2) d(2) s'(5) by (auto simp: sched_abs_def)
    moreover have "k_ps s' = k_ps s" using s'(6) by (simp add: touches_def)
    ultimately show ?thesis using s'(1) by blast
  qed
qed

lemma remove_process_refines:
  assumes inv: "sched_inv s P L" and only: "length (L w) = 1 \<Longrightarrow> \<forall>i<4. translate s i \<noteq> None"
  shows "\<exists>s' P' L'. scheduler_remove_process w s pid False = Some (s', if pid \<in> set (pids s (L w)) then 0 else - 1) \<and>
     sched_inv s' P' L' \<and> k_ps s' = k_ps s \<and> sched_abs s' L' = (sched_abs s L)(w := remove_pid (k_ps s) pid (sched_abs s L w))"
proof (cases "pid \<in> set (pids s (L w))")
  case False
  have "(sched_abs s L)(w := remove_pid (k_ps s) pid (sched_abs s L w)) = sched_abs s L"
    using remove_pid_absent [OF False] by (auto simp: sched_abs_def)
  with remove_absent [OF sched_invD(1) [OF inv] False] inv False show ?thesis by auto
next
  case True
  note d = sched_invD [OF inv]
  obtain us c vs where x: "L w = us @ c # vs" "pid \<notin> set (pids s us)" "ps_id (k_ps s (le_ps (k_ele s c))) = pid"
    "remove_pid (k_ps s) pid (procs s (L w)) = procs s (us @ vs)" by (rule remove_pid_split [OF True])
  have q: "queue w s (us @ c # vs)" using d(1) x(1) by metis
  obtain s1 where s1: "unlink w (if us = [] then 0 else last us) c s = Some s1" "queue w s1 (us @ vs)"
    "k_heap s1 = k_heap s" "procs s1 (us @ vs) = procs s (us @ vs)" "touches w (set us) s s1"
    by (rule unlink_queue [OF q]) (use only x(1) in auto)
  have "kheap_inv (k_heap s1) P" "c \<in> P" using d(2) [of w] d(4) s1(3) x(1) by auto
  then obtain s' where s': "k_kfree s1 c = Some s'" "s' = s1\<lparr>k_heap := k_heap s'\<rparr>" "kheap_inv (k_heap s') (P - {c})"
    by (rule k_kfree_live)
  have t': "touches w (set us) s s'" using s1(5) by (subst s'(2)) (auto simp: touches_def split: which.splits, (case_tac w'; auto)+)
  have q': "queue w s' (us @ vs)" using s1(2) by (subst s'(2)) simp
  have pr: "procs s' (us @ vs) = procs s (us @ vs)" using s1(4) by (subst s'(2)) simp
  have dist: "c \<notin> set (us @ vs)" using queueD(2) [OF q] by auto
  have X: "\<forall>w'. w' \<noteq> w \<longrightarrow> set (L w') \<inter> (set us \<union> set (us @ vs)) = {}" using d(3) [of _ w] x(1) by fastforce
  have "\<forall>w'. w' \<noteq> w \<longrightarrow> set (L w') \<subseteq> P - {c}" using d(2) d(3) [of _ w] x(1) by fastforce
  moreover have "set (us @ vs) \<subseteq> P - {c}" using d(2) [of w] x(1) dist by auto
  ultimately have t: "sched_inv s' (P - {c}) (L(w := us @ vs))" "\<And>w'. w' \<noteq> w \<Longrightarrow> procs s' (L w') = procs s (L w')"
    using sched_inv_touches [OF inv t' q' X s'(3)] by blast+
  have "scheduler_remove_process w s pid False = Some (s', 0)"
    using remove_present [OF q x(2,3) s1(1), of False] s'(1) by simp
  moreover have "sched_abs s' (L(w := us @ vs)) = (sched_abs s L)(w := remove_pid (k_ps s) pid (sched_abs s L w))"
    using sched_abs_upd [of w s' L s "us @ vs", OF t(2)] pr x(4) by (simp add: sched_abs_def)
  moreover have "k_ps s' = k_ps s" using t' by (simp add: touches_def)
  ultimately show ?thesis using True t(1) by auto
qed

lemma rotate_process_refines:
  assumes inv: "sched_inv s P L"
  shows "\<exists>s' L'. scheduler_get_and_rotate_runnable_process s =
      (s', if L Runnable = [] then 0 else hd (rotate1 (sched_abs s L Runnable))) \<and> sched_inv s' P L' \<and> k_ps s' = k_ps s \<and>
      sched_abs s' L' = (sched_abs s L)(Runnable := rotate1 (sched_abs s L Runnable))"
proof (cases "L Runnable = []")
  case True
  then have "scheduler_get_and_rotate_runnable_process s = (s, 0)" using rotate_empty sched_invD(1) [OF inv] by metis
  moreover have "(sched_abs s L)(Runnable := rotate1 (sched_abs s L Runnable)) = sched_abs s L" using True by (auto simp: sched_abs_def)
  ultimately show ?thesis using True inv by auto
next
  case False
  note d = sched_invD [OF inv]
  obtain s' where s': "scheduler_get_and_rotate_runnable_process s = (s', hd (procs s (rotate1 (L Runnable))))"
    "queue Runnable s' (rotate1 (L Runnable))" "relinked s (L Runnable) s'" by (rule rotate_refines [OF d(1) False])
  note r = relinked_simps [OF s'(3)]
  have t: "touches Runnable (set (L Runnable)) s s'"
    using r by (auto simp: touches_def) (metis pss_of.simps(2) which.exhaust)
  have X: "\<forall>w'. w' \<noteq> Runnable \<longrightarrow> set (L w') \<inter> (set (L Runnable) \<union> set (rotate1 (L Runnable))) = {}"
    using d(3) [of _ Runnable] by auto
  have k: "kheap_inv (k_heap s') P" using d(4) r(1) by simp
  note u = sched_inv_touches [OF inv t s'(2) X k]
  have "sched_inv s' P (L(Runnable := rotate1 (L Runnable)))" using u(1) d(2) by auto
  moreover have "procs s' (L w) = procs s (L w)" for w using r(4) by (simp add: procs_def)
  then have "sched_abs s' (L(Runnable := rotate1 (L Runnable))) = (sched_abs s L)(Runnable := rotate1 (sched_abs s L Runnable))"
    using sched_abs_upd [of Runnable s' L s "rotate1 (L Runnable)"] by (simp add: sched_abs_def procs_rotate1)
  ultimately show ?thesis using False s'(1) r(2) by (auto simp: sched_abs_def procs_rotate1)
qed

section \<open>An example\<close>

text \<open>A kernel with three runnable processes.\<close>

definition three_kernel :: kernel where
  "three_kernel = boot_kernel\<lparr>
     k_ps := (\<lambda>_. blank_ps 0)(0xC0010000 := blank_ps 1, 0xC0020000 := (blank_ps 2)\<lparr>ps_parent_id := 1\<rparr>, 0xC0030000 := blank_ps 7),
     k_ele := (\<lambda>_. \<lparr>le_next = 0, le_ps = 0\<rparr>)(0xC0001000 := \<lparr>le_next = 0xC0003000, le_ps = 0xC0010000\<rparr>,
        0xC0003000 := \<lparr>le_next = 0xC0002000, le_ps = 0xC0030000\<rparr>, 0xC0002000 := \<lparr>le_next = 0, le_ps = 0xC0020000\<rparr>),
     runnable_pss := \<lparr>pss_start = 0xC0001000, pss_end = 0xC0002000\<rparr>, sched_ms := 8\<rparr>"

lemma boot_kernel_inv: "sched_inv boot_kernel {} (\<lambda>_. [])"
proof -
  have "queue w boot_kernel []" for w by (cases w) (simp_all add: queue_def boot_kernel_def)
  then show ?thesis using example_kheap_inv by (simp add: sched_inv_def boot_kernel_def)
qed

lemma three_kernel_queue: "queue Runnable three_kernel [0xC0001000, 0xC0003000, 0xC0002000]"
  and three_kernel_zombies: "queue Zombie three_kernel []"
  by (simp_all add: queue_def three_kernel_def boot_kernel_def)

section \<open>Properties\<close>



text \<open>C6. Scheduling is round robin: after the \<open>k\<close>-th call of \<open>scheduler_schedule\<close> the processor runs the
  process \<open>k\<close> places along the list of runnable processes, counted round: with its registers, its page
  directory and its kernel stack. So every runnable process runs once in as many calls as there are
  processes.\<close>

theorem scheduler_round_robin:
  assumes "queue Runnable s rs" and "rs \<noteq> []" and "0 < k"
  shows "running ((scheduler_schedule ^^ k) s) (procs s rs ! (k mod length rs)) \<and> k_ps ((scheduler_schedule ^^ k) s) = k_ps s"
  using schedule_iterate [OF assms(1,2), of k] assms(3) by simp

theorem scheduler_round_robin_witness:
  "running ((scheduler_schedule ^^ 5) three_kernel) 0xC0020000"
  using scheduler_round_robin [OF three_kernel_queue, of 5] by (simp add: procs_def three_kernel_def)

text \<open>C28. \<open>scheduler_next_pid\<close> returns a number above that of every process on either list; only when the
  number \<open>0xFFFFFFFF\<close> is in use does it wrap to 0.\<close>

theorem scheduler_next_pid_fresh:
  assumes "queue Runnable s rs" and "queue Zombie s zs"
  shows "\<exists>n. scheduler_next_pid s = Some n \<and>
     (if 0xFFFFFFFF \<in> set (pids s rs) \<union> set (pids s zs) then n = 0 else \<forall>i \<in> set (pids s rs) \<union> set (pids s zs). i < n)"
proof -
  let ?a = "fold max (pids s rs) 0" and ?b = "fold max (pids s zs) 0"
  have m: "max_id_in_ps_list s (runnable_pss s) = Some ?a" "max_id_in_ps_list s (zombie_pss s) = Some ?b"
    using max_id_loop_linked queueD(1,5) [OF assms(1)] queueD(1,5) [OF assms(2)] by (simp_all add: max_id_in_ps_list_def)
  have ub: "i \<le> maxu ?a ?b" if "i \<in> set (pids s rs) \<union> set (pids s zs)" for i
    using that fold_max_bound [of 0 "pids s rs"] fold_max_bound [of 0 "pids s zs"] by (fastforce simp: maxu_def)
  have mem: "maxu ?a ?b \<in> insert 0 (set (pids s rs) \<union> set (pids s zs))"
    using fold_max_mem [of "pids s rs" 0] fold_max_mem [of "pids s zs" 0] by (auto simp: maxu_def)
  have top: "(x :: u32) < x + 1" if "x \<noteq> 0xFFFFFFFF" for x using that by unat_arith simp
  show ?thesis
  proof (cases "0xFFFFFFFF \<in> set (pids s rs) \<union> set (pids s zs)")
    case True
    have "maxu ?a ?b \<le> (- 1 :: u32)" "(- 1 :: u32) = 0xFFFFFFFF" by simp_all
    with ub [OF True] have "maxu ?a ?b = 0xFFFFFFFF" by (metis order.antisym)
    with m True show ?thesis by (auto simp: scheduler_next_pid_def)
  next
    case False
    then have "maxu ?a ?b \<noteq> 0xFFFFFFFF" using mem by auto
    with m False ub top show ?thesis by (fastforce simp: scheduler_next_pid_def)
  qed
qed

theorem scheduler_next_pid_fresh_witness: "scheduler_next_pid three_kernel = Some 8"
proof -
  have "0xFFFFFFFF \<notin> set (pids three_kernel [0xC0001000, 0xC0003000, 0xC0002000]) \<union> set (pids three_kernel [])"
    by (simp add: three_kernel_def blank_ps_def process_init_def)
  with scheduler_next_pid_fresh [OF three_kernel_queue three_kernel_zombies]
  obtain n where n: "scheduler_next_pid three_kernel = Some n" by blast
  moreover have "scheduler_next_pid three_kernel = Some 8" by code_simp
  ultimately show ?thesis by simp
qed

lemma saved_registers:
  assumes "r_cs r = 0x1B \<or> r_cs r = SEGSEL_KERNEL_CS \<and> r_ss r = SEGSEL_KERNEL_DS \<and> esp = r_esp r - 12"
  shows "runs ((if st_cs (hardware_frame r) = SEGSEL_USER_SPACE_CS OR 3 then scheduler_update_user_registers (interrupt_frame esp r) (hardware_frame r)
       else scheduler_update_kernel_registers (interrupt_frame esp r) (hardware_frame r)) p) =
     (if r_cs r = SEGSEL_KERNEL_CS then Run_kernel r else Run_user r)"
  using assms
  by (cases r; cases "ps_user_mode p"; cases "ps_current p")
    (auto simp: hardware_frame_def interrupt_frame_def scheduler_update_user_registers_def scheduler_update_kernel_registers_def
      scheduler_copy_common_registers_def runs_def Let_def)

text \<open>A process whose record is changed while it is at the head of the list goes on with the new record when
  its turn comes.\<close>

lemma schedule_saved:
  assumes q: "queue Runnable s rs" and ne: "rs \<noteq> []" and f: "k_ele s1 = k_ele s" "runnable_pss s1 = runnable_pss s"
    and p: "k_ps s1 = (k_ps s)(hd (procs s rs) := p')"
  shows "running (scheduler_schedule s1) (procs s rs ! (1 mod length rs))"
    and "k_cpu ((scheduler_schedule ^^ (length rs - 1)) (scheduler_schedule s1)) = runs p'"
proof -
  have q1: "queue Runnable s1 rs" by (rule queue_cong [OF q]) (simp_all add: f)
  have pr: "procs s1 rs = procs s rs" by (rule procs_cong) (simp add: f(1))
  show "running (scheduler_schedule s1) (procs s rs ! (1 mod length rs))"
    using schedule_iterate [OF q1 ne, of 1] pr by simp
  have "procs s rs ! 0 = hd (procs s rs)" using ne by (simp add: procs_def hd_conv_nth)
  then have "k_cpu ((scheduler_schedule ^^ length rs) s1) = runs p'"
    using schedule_iterate [OF q1 ne, of "length rs"] pr ne p by (simp add: running_def)
  moreover have "(scheduler_schedule ^^ (length rs - 1)) (scheduler_schedule s1) = (scheduler_schedule ^^ length rs) s1"
    using ne by (metis Suc_diff_1 comp_apply funpow_Suc_right length_greater_0_conv)
  ultimately show "k_cpu ((scheduler_schedule ^^ (length rs - 1)) (scheduler_schedule s1)) = runs p'" by simp
qed

lemma current_head: "queue Runnable s rs \<Longrightarrow> scheduler_get_current_process s = (if rs = [] then 0 else hd (procs s rs))"
  using queueD(3,6) [of Runnable s rs] hd_in_set [of rs]
  by (cases rs) (auto simp: scheduler_get_current_process_def procs_def)

lemma current_nonnull: "queue Runnable s rs \<Longrightarrow> rs \<noteq> [] \<Longrightarrow> hd (procs s rs) \<noteq> 0"
  using queueD(5) [of Runnable s rs "hd rs"] by (cases rs) auto

text \<open>C9. Preemption loses nothing. A timer interrupt before the end of the time slice only counts and is
  acknowledged. The interrupt that ends the slice, taken with the registers \<open>r\<close> in user mode or in kernel
  mode, gives the processor to the next runnable process; and when the turn comes back to the
  interrupted process, it goes on in the same mode with exactly the registers \<open>r\<close>.\<close>

theorem preemption_resumes:
  assumes q: "queue Runnable s rs" and ne: "rs \<noteq> []" and ms: "sched_ms s = 8"
    and r: "r_cs r = 0x1B \<or> r_cs r = SEGSEL_KERNEL_CS \<and> r_ss r = SEGSEL_KERNEL_DS \<and> esp = r_esp r - 12"
  shows "(\<exists>s'. scheduler_handle_pit_interrupt (interrupt_frame esp r) (hardware_frame r) s = Some s' \<and> sched_ms s' = 0 \<and>
        k_io s' = pic_acknowledge (k_io s) \<and> running s' (procs s rs ! (1 mod length rs)) \<and>
        k_cpu ((scheduler_schedule ^^ (length rs - 1)) s') = (if r_cs r = SEGSEL_KERNEL_CS then Run_kernel r else Run_user r)) \<and>
     (\<forall>t. sched_ms t < 8 \<longrightarrow> scheduler_handle_pit_interrupt (interrupt_frame esp r) (hardware_frame r) t =
        Some (t\<lparr>sched_ms := sched_ms t + 2, k_io := pic_acknowledge (k_io t)\<rparr>))"
proof (rule conjI)
  define p f s0 where "p = hd (procs s rs)"
    and "f = (if st_cs (hardware_frame r) = SEGSEL_USER_SPACE_CS OR 3 then scheduler_update_user_registers (interrupt_frame esp r) (hardware_frame r)
       else scheduler_update_kernel_registers (interrupt_frame esp r) (hardware_frame r))"
    and "s0 = disable_interrupts (s\<lparr>sched_ms := 0\<rparr>)"
  define s1 where "s1 = (upd_ps p f s0)\<lparr>k_io := pic_acknowledge (k_io s)\<rparr>"
  have "queue Runnable s0 rs" by (rule queue_cong [OF q]) (simp_all add: s0_def disable_interrupts_def)
  then have cur: "scheduler_get_current_process s0 = p" "p \<noteq> 0"
    using current_head ne current_nonnull [OF q] by (simp_all add: p_def procs_def s0_def disable_interrupts_def)
  have k: "k_ele s1 = k_ele s" "runnable_pss s1 = runnable_pss s" "k_ps s1 = (k_ps s)(hd (procs s rs) := f (k_ps s p))"
      "sched_ms s1 = 0" "k_io s1 = pic_acknowledge (k_io s)"
    by (simp_all add: s1_def upd_ps_def s0_def disable_interrupts_def p_def)
  have "scheduler_handle_pit_interrupt (interrupt_frame esp r) (hardware_frame r) s = Some (scheduler_schedule s1)"
    using cur ms by (simp add: scheduler_handle_pit_interrupt_def scheduler_schedule_on_interrupt_def Let_def s1_def f_def flip: s0_def)
      (simp add: s0_def upd_ps_def disable_interrupts_def)
  moreover have "runs (f (k_ps s p)) = (if r_cs r = SEGSEL_KERNEL_CS then Run_kernel r else Run_user r)"
    unfolding f_def by (rule saved_registers [OF r])
  ultimately show "\<exists>s'. scheduler_handle_pit_interrupt (interrupt_frame esp r) (hardware_frame r) s = Some s' \<and> sched_ms s' = 0 \<and>
        k_io s' = pic_acknowledge (k_io s) \<and> running s' (procs s rs ! (1 mod length rs)) \<and>
        k_cpu ((scheduler_schedule ^^ (length rs - 1)) s') = (if r_cs r = SEGSEL_KERNEL_CS then Run_kernel r else Run_user r)"
    using schedule_saved [OF q ne k(1-3)] schedule_frame [of s1] k(4,5) by (intro exI [of _ "scheduler_schedule s1"]) simp
  show "\<forall>t. sched_ms t < 8 \<longrightarrow> scheduler_handle_pit_interrupt (interrupt_frame esp r) (hardware_frame r) t =
        Some (t\<lparr>sched_ms := sched_ms t + 2, k_io := pic_acknowledge (k_io t)\<rparr>)"
  proof (intro allI impI)
    fix t :: kernel assume "sched_ms t < 8"
    then have "\<not> 10 \<le> sched_ms t + 2" by unat_arith
    then show "scheduler_handle_pit_interrupt (interrupt_frame esp r) (hardware_frame r) t =
        Some (t\<lparr>sched_ms := sched_ms t + 2, k_io := pic_acknowledge (k_io t)\<rparr>)"
      by (simp add: scheduler_handle_pit_interrupt_def Let_def)
  qed
qed

theorem preemption_resumes_witness:
  "\<exists>s'. scheduler_handle_pit_interrupt (interrupt_frame 0 (zero_registers\<lparr>r_ebx := 5, r_cs := 0x1B\<rparr>))
        (hardware_frame (zero_registers\<lparr>r_ebx := 5, r_cs := 0x1B\<rparr>)) three_kernel = Some s' \<and>
     running s' 0xC0030000 \<and> k_cpu ((scheduler_schedule ^^ 2) s') = Run_user (zero_registers\<lparr>r_ebx := 5, r_cs := 0x1B\<rparr>)"
proof -
  let ?r = "zero_registers\<lparr>r_ebx := 5, r_cs := 0x1B\<rparr>" and ?rs = "[0xC0001000, 0xC0003000, 0xC0002000] :: u32 list"
  have m: "1 mod length ?rs = 1" "length ?rs - 1 = 2" by simp_all
  have p: "procs three_kernel ?rs ! 1 = 0xC0030000" by (simp add: procs_def three_kernel_def)
  have "sched_ms three_kernel = 8" "?rs \<noteq> []" and r: "r_cs ?r = 0x1B" by (simp_all add: three_kernel_def)
  from conjunct1 [OF preemption_resumes [OF three_kernel_queue this(2,1) disjI1 [OF r], of 0]]
  show ?thesis unfolding m p using r by auto
qed

end
