(* ===== verification/Syscall_Correct.thy ===== *)
theory Syscall_Correct
  imports Syscall Scheduler_Correct
begin

text \<open>
  What system calls do to the process that makes them: its registers on return, its descriptors, its
  place among the runnable processes.
\<close>

section \<open>Waiting\<close>

abbreviation children :: "kernel \<Rightarrow> u32 \<Rightarrow> u32 list \<Rightarrow> u32 list" where
  "children s pid xs \<equiv> filter (\<lambda>p. ps_parent_id (k_ps s p) = pid) (procs s xs)"

lemma num_children_eq:
  assumes "queue Runnable s rs" and "queue Zombie s zs"
  shows "scheduler_num_children s pid = Some (int (length (children s pid zs) + length (children s pid rs)))"
  using count_children_linked [of s _ zs pid 0] count_children_linked [of s _ rs pid 0] queueD(1) [OF assms(1)] queueD(1) [OF assms(2)]
  by (simp add: scheduler_num_children_def scheduler_count_children_in_list_def)

lemma has_child_terminated_eq:
  "queue Zombie s zs \<Longrightarrow> scheduler_has_any_child_terminated s p = Some (children s (ps_id (k_ps s p)) zs \<noteq> [])"
  using child_terminated_linked [of s _ zs] queueD(1) [of Zombie s zs]
  by (simp add: scheduler_has_any_child_terminated_def filter_empty_conv)

lemma runs_not_kernel [simp]: "runs p \<noteq> In_kernel"
  by (simp add: runs_def)

lemma running_cpu: "running s p \<Longrightarrow> k_cpu s \<noteq> In_kernel"
  by (simp add: running_def)

lemma sys_wait_result:
  assumes q: "queue Runnable s rs" "rs \<noteq> []" and z: "queue Zombie s zs"
  shows "let p = hd (procs s rs); pid = ps_id (k_ps s p);
      saved = snap\<lparr>r_eax := 0, r_cs := SEGSEL_KERNEL_CS, r_ss := SEGSEL_KERNEL_DS\<rparr> in
    if children s pid zs = [] \<and> children s pid rs = [] then sys_wait snap s = Some (s, Result (- 1))
    else if children s pid zs \<noteq> [] then sys_wait snap s = Some (s, Result 0)
    else \<exists>s'. sys_wait snap s = Some (s', Switched) \<and> running s' (procs s rs ! (1 mod length rs)) \<and>
       k_cpu ((scheduler_schedule ^^ (length rs - 1)) s') = Run_kernel saved"
proof -
  define p where "p = hd (procs s rs)"
  define saved where "saved = snap\<lparr>r_eax := 0, r_cs := SEGSEL_KERNEL_CS, r_ss := SEGSEL_KERNEL_DS\<rparr>"
  define s1 where "s1 = upd_ps p (\<lambda>x. x\<lparr>ps_current := saved\<rparr>) (disable_interrupts s)"
  have cur: "scheduler_get_current_process s = p" "p \<noteq> 0"
    using current_head [OF q(1)] current_nonnull [OF q] q(2) by (simp_all add: p_def)
  have k: "k_ele s1 = k_ele s" "runnable_pss s1 = runnable_pss s" "k_ps s1 = (k_ps s)(hd (procs s rs) := (k_ps s p)\<lparr>ps_current := saved\<rparr>)"
    by (simp_all add: s1_def upd_ps_def disable_interrupts_def p_def)
  note sv = schedule_saved [OF q k]
  have n: "scheduler_num_children s (ps_id (k_ps s p)) =
      Some (int (length (children s (ps_id (k_ps s p)) zs) + length (children s (ps_id (k_ps s p)) rs)))"
    by (rule num_children_eq [OF q(1) z])
  have "snapshot_and_schedule p snap s = Some (scheduler_schedule s1, Switched)"
    using running_cpu [OF sv(1)] by (simp add: snapshot_and_schedule_def Let_def s1_def saved_def)
  then have w: "sys_wait snap s = (if children s (ps_id (k_ps s p)) zs = [] \<and> children s (ps_id (k_ps s p)) rs = [] then Some (s, Result (- 1))
      else if children s (ps_id (k_ps s p)) zs \<noteq> [] then Some (s, Result 0) else Some (scheduler_schedule s1, Switched))"
    using cur n has_child_terminated_eq [OF z, of p] by (simp add: sys_wait_def wait_round_def Let_def del: of_nat_add)
  have "runs ((k_ps s p)\<lparr>ps_current := saved\<rparr>) = Run_kernel saved" by (simp add: runs_def saved_def)
  with sv w show ?thesis unfolding Let_def p_def [symmetric] saved_def [symmetric] by auto
qed

text \<open>C26. \<open>sys_wait\<close> of the current process: \<open>-1\<close> when it has no child on either list; \<open>0\<close> at once, with
  nothing changed, when one of its children is a zombie, which therefore stays one and satisfies
  every later call too; otherwise the processor goes to the next process, and when the turn comes
  back the waiting process goes on in kernel mode where it was.\<close>

theorem sys_wait_correct:
  assumes q: "queue Runnable s rs" "rs \<noteq> []" and z: "queue Zombie s zs"
  shows "let p = hd (procs s rs); pid = ps_id (k_ps s p);
      saved = snap\<lparr>r_eax := 0, r_cs := SEGSEL_KERNEL_CS, r_ss := SEGSEL_KERNEL_DS\<rparr> in
    if children s pid zs = [] \<and> children s pid rs = [] then sys_wait snap s = Some (s, Result (- 1))
    else if children s pid zs \<noteq> [] then sys_wait snap s = Some (s, Result 0)
    else \<exists>s'. sys_wait snap s = Some (s', Switched) \<and> running s' (procs s rs ! (1 mod length rs)) \<and>
       k_cpu ((scheduler_schedule ^^ (length rs - 1)) s') = Run_kernel saved"
  by (rule sys_wait_result [OF assms])

theorem sys_wait_correct_witness:
  "\<exists>s'. sys_wait zero_registers three_kernel = Some (s', Switched) \<and> running s' 0xC0030000"
proof -
  let ?rs = "[0xC0001000, 0xC0003000, 0xC0002000] :: u32 list"
  have p: "procs three_kernel ?rs = [0xC0010000, 0xC0030000, 0xC0020000]" by (simp add: procs_def three_kernel_def)
  have c: "children three_kernel (ps_id (k_ps three_kernel 0xC0010000)) [] = []"
      "children three_kernel (ps_id (k_ps three_kernel 0xC0010000)) ?rs \<noteq> []"
    unfolding p by (simp_all add: three_kernel_def blank_ps_def process_init_def)
  from sys_wait_correct [OF three_kernel_queue _ three_kernel_zombies, of zero_registers] c
  show ?thesis unfolding p Let_def by simp blast
qed

section \<open>Yielding and leaving\<close>

text \<open>\<open>sys_yield\<close> gives the processor to the next runnable process; when the turn comes back, the caller
  goes on in user mode with the registers it had, and 0 as the result of the call.\<close>

lemma sys_yield_resumes:
  assumes q: "queue Runnable s rs" "rs \<noteq> []" and cs: "r_cs (ps_user_mode (k_ps s (hd (procs s rs)))) \<noteq> SEGSEL_KERNEL_CS"
  shows "\<exists>s'. sys_yield s = Some (s', Switched) \<and> running s' (procs s rs ! (1 mod length rs)) \<and>
     k_cpu ((scheduler_schedule ^^ (length rs - 1)) s') = Run_user ((ps_user_mode (k_ps s (hd (procs s rs))))\<lparr>r_eax := 0\<rparr>)"
proof -
  define p where "p = hd (procs s rs)"
  define um where "um = (ps_user_mode (k_ps s p))\<lparr>r_eax := 0\<rparr>"
  define s1 where "s1 = upd_ps p (\<lambda>x. x\<lparr>ps_current := ps_user_mode x\<rparr>)
     (disable_interrupts (upd_ps p (\<lambda>x. x\<lparr>ps_user_mode := (ps_user_mode x)\<lparr>r_eax := 0\<rparr>\<rparr>) s))"
  have cur: "scheduler_get_current_process s = p" "p \<noteq> 0"
    using current_head [OF q(1)] current_nonnull [OF q] q(2) by (simp_all add: p_def)
  have k: "k_ele s1 = k_ele s" "runnable_pss s1 = runnable_pss s"
      "k_ps s1 = (k_ps s)(hd (procs s rs) := (k_ps s p)\<lparr>ps_user_mode := um, ps_current := um\<rparr>)"
    by (simp_all add: s1_def upd_ps_def disable_interrupts_def um_def p_def)
  note sv = schedule_saved [OF q k]
  have "sys_yield s = Some (scheduler_schedule s1, Switched)"
    using cur running_cpu [OF sv(1)] by (simp add: sys_yield_def Let_def s1_def)
  moreover have "runs ((k_ps s p)\<lparr>ps_user_mode := um, ps_current := um\<rparr>) = Run_user um"
    using cs by (simp add: runs_def um_def p_def)
  ultimately show ?thesis using sv unfolding p_def [symmetric] um_def [symmetric] by auto
qed

text \<open>C27. When the current process leaves the list of runnable processes, as in \<open>continue_exit\<close> and
  \<open>continue_execve\<close>, the following \<open>scheduler_schedule\<close> rotates once more: the process whose turn it was goes
  to the end of the list unserved, and the one after it runs.\<close>

theorem leaving_skips_next:
  assumes inv: "sched_inv s P L" and l: "L Runnable = c # d # e # es"
  shows "\<exists>s1. scheduler_remove_process Runnable s (ps_id (k_ps s (le_ps (k_ele s c)))) False = Some (s1, 0) \<and>
     (\<forall>h. running (scheduler_schedule (s1\<lparr>k_heap := h\<rparr>)) (le_ps (k_ele s e)))"
proof -
  let ?pid = "ps_id (k_ps s (le_ps (k_ele s c)))"
  have "length (L Runnable) \<noteq> 1" by (simp add: l)
  then obtain s1 P' L' where s1: "scheduler_remove_process Runnable s ?pid False = Some (s1, if ?pid \<in> set (pids s (L Runnable)) then 0 else - 1)"
    "sched_inv s1 P' L'" "sched_abs s1 L' = (sched_abs s L)(Runnable := remove_pid (k_ps s) ?pid (sched_abs s L Runnable))"
    using remove_process_refines [OF inv, of Runnable ?pid] by auto
  then have pr: "procs s1 (L' Runnable) = procs s (d # e # es)" by (simp add: sched_abs_def l fun_eq_iff)
  have "running (scheduler_schedule (s1\<lparr>k_heap := h\<rparr>)) (le_ps (k_ele s e))" for h
  proof -
    have q: "queue Runnable (s1\<lparr>k_heap := h\<rparr>) (L' Runnable)" "L' Runnable \<noteq> []"
      using sched_invD(1) [OF s1(2)] pr by (auto simp: procs_def)
    have "length (L' Runnable) = length (d # e # es)" using pr by (metis length_map procs_def)
    with schedule_iterate [OF q, of 1] pr show ?thesis by simp
  qed
  with s1(1) show ?thesis by (auto simp: l)
qed

text \<open>Three processes added to the kernel of \<open>boot_kernel\<close>.\<close>

lemma three_added:
  obtains s P L where "sched_inv s P L" and "sched_abs s L Runnable = [0xC0010000, 0xC0020000, 0xC0030000]"
proof -
  have "(do { (s, r) \<leftarrow> scheduler_add_process Runnable boot_kernel 0xC0010000; (s, r') \<leftarrow> scheduler_add_process Runnable s 0xC0020000;
       (s, r'') \<leftarrow> scheduler_add_process Runnable s 0xC0030000; Some (r, r', r'') }) = Some (0, 0, 0)"
    by code_simp
  then obtain s1 s2 s3 where s: "scheduler_add_process Runnable boot_kernel 0xC0010000 = Some (s1, 0)"
    "scheduler_add_process Runnable s1 0xC0020000 = Some (s2, 0)" "scheduler_add_process Runnable s2 0xC0030000 = Some (s3, 0)"
    by (auto split: Option.bind_splits)
  have add: "\<exists>P' L'. sched_inv s' P' L' \<and> sched_abs s' L' Runnable = sched_abs s L Runnable @ [p]"
    if "sched_inv s P L" "p \<noteq> 0" "scheduler_add_process Runnable s p = Some (s', 0)" for s s' P L p
    using add_process_refines [OF that(1,2), of Runnable] that(3) by fastforce
  obtain P1 L1 where 1: "sched_inv s1 P1 L1" "sched_abs s1 L1 Runnable = [0xC0010000]"
    using add [OF boot_kernel_inv _ s(1)] by (auto simp: sched_abs_def)
  then obtain P2 L2 where 2: "sched_inv s2 P2 L2" "sched_abs s2 L2 Runnable = [0xC0010000, 0xC0020000]"
    using add [OF 1(1) _ s(2)] by auto
  then show ?thesis using add [OF 2(1) _ s(3)] that by auto
qed

theorem leaving_skips_next_witness:
  "\<exists>s s1 P L. sched_inv s P L \<and> sched_abs s L Runnable = [0xC0010000, 0xC0020000, 0xC0030000] \<and>
     scheduler_remove_process Runnable s (ps_id (k_ps s 0xC0010000)) False = Some (s1, 0) \<and> running (scheduler_schedule s1) 0xC0030000"
proof (rule three_added)
  fix s P L assume inv: "sched_inv s P L" and a: "sched_abs s L Runnable = [0xC0010000, 0xC0020000, 0xC0030000]"
  have "length (procs s (L Runnable)) = 3" using a by (simp add: sched_abs_def)
  then have "length (L Runnable) = 3" by (simp add: procs_def)
  then obtain c d e where l: "L Runnable = [c, d, e]" by (auto simp: numeral_3_eq_3 length_Suc_conv)
  with a have p: "le_ps (k_ele s c) = 0xC0010000" "le_ps (k_ele s e) = 0xC0030000" by (auto simp: sched_abs_def)
  from leaving_skips_next [OF inv l] obtain s1 where s1: "scheduler_remove_process Runnable s (ps_id (k_ps s 0xC0010000)) False = Some (s1, 0)"
    "\<forall>h. running (scheduler_schedule (s1\<lparr>k_heap := h\<rparr>)) 0xC0030000" unfolding p by auto
  from s1(2) have "running (scheduler_schedule (s1\<lparr>k_heap := k_heap s1\<rparr>)) 0xC0030000" by blast
  with s1(1) inv a show ?thesis by auto
qed

section \<open>Registers across the trap\<close>

lemma translate_cong: "k_paging s' = k_paging s \<Longrightarrow> k_pdt s' = k_pdt s \<Longrightarrow> translate s' a = translate s a"
  by (simp add: translate_def)

lemma load_word_cong: "k_paging s' = k_paging s \<Longrightarrow> k_pdt s' = k_pdt s \<Longrightarrow> k_phys s' = k_phys s \<Longrightarrow> load_word s' a = load_word s a"
  using translate_cong [of s' s] by (simp add: load_word_def load_byte_def)

lemma upd_ps_simps [simp]:
  "k_paging (upd_ps p f s) = k_paging s" "k_pdt (upd_ps p f s) = k_pdt s" "k_phys (upd_ps p f s) = k_phys s"
  "k_heap (upd_ps p f s) = k_heap s" "k_ps (upd_ps p f s) = (k_ps s)(p := f (k_ps s p))" "k_ele (upd_ps p f s) = k_ele s"
  "runnable_pss (upd_ps p f s) = runnable_pss s" "zombie_pss (upd_ps p f s) = zombie_pss s" "k_vn (upd_ps p f s) = k_vn s"
  by (simp_all add: upd_ps_def k_paging_def)

text \<open>The registers that a process has in user mode after a trap with the registers \<open>r\<close>, when the result of the
  call is \<open>eax\<close>: the trap pushes the general registers in another order than \<open>cpu_state_t\<close> has them.\<close>

definition returned :: "u32 \<Rightarrow> registers \<Rightarrow> u32 \<Rightarrow> registers" where
  "returned esp0 r eax = r\<lparr>r_eax := eax, r_ebx := r_edx r, r_ecx := r_ebx r, r_edx := esp0 - 36\<rparr>"

lemma trapped_registers:
  "ps_user_mode (update_user_mode_registers (trap_frame esp0 r) (hardware_frame r) p)\<lparr>r_eax := x\<rparr> = returned esp0 r x"
  by (cases "ps_user_mode p"; cases r) (simp add: update_user_mode_registers_def trap_frame_def hardware_frame_def returned_def)

text \<open>C25. The way into the kernel and back. A number that is no system call returns \<open>-1\<close>, without any
  other effect on memory, heap or processes; a call whose handler returns a result, and leaves the saved
  user registers of the caller, returns that result in \<open>eax\<close>. In either case \<open>esi\<close>, \<open>edi\<close>, \<open>ebp\<close>, the
  stack pointer, the flags and the program counter come back as they were, but \<open>ebx\<close> comes back with
  the value of \<open>edx\<close>, \<open>ecx\<close> with that of \<open>ebx\<close>, and \<open>edx\<close> with an address in the kernel stack.\<close>

theorem syscall_return_registers:
  assumes q: "queue Runnable s rs" "rs \<noteq> []" and n: "load_word s (r_esp r) = Some n"
  defines "p \<equiv> hd (procs s rs)"
  defines "s1 \<equiv> upd_ps p (update_user_mode_registers (trap_frame (tss_esp0 s) r) (hardware_frame r)) (s\<lparr>k_cpu := In_kernel\<rparr>)"
  shows "(n \<ge> NUM_SYSCALLS \<longrightarrow> (\<exists>s'. handle_syscall snap r s = Some s' \<and> k_cpu s' = Run_user (returned (tss_esp0 s) r (- 1)) \<and>
        k_heap s' = k_heap s \<and> k_phys s' = k_phys s \<and> (\<forall>x. x \<noteq> p \<longrightarrow> k_ps s' x = k_ps s x))) \<and>
     (\<forall>s2 e. n < NUM_SYSCALLS \<and> handlers snap n s1 (r_esp r + 4) = Some (s2, Result e) \<and> ps_user_mode (k_ps s2 p) = ps_user_mode (k_ps s1 p) \<longrightarrow>
        (\<exists>s'. handle_syscall snap r s = Some s' \<and> k_cpu s' = Run_user (returned (tss_esp0 s) r (word_of_int e))))"
proof -
  let ?s0 = "s\<lparr>k_cpu := In_kernel\<rparr>"
  have "queue Runnable ?s0 rs" by (rule queue_cong [OF q(1)]) simp_all
  then have cur: "scheduler_get_current_process ?s0 = p" "p \<noteq> 0"
    using current_head q(2) current_nonnull [OF q] by (simp_all add: p_def procs_def)
  have lw: "load_word s1 (st_user_esp (hardware_frame r)) = Some n"
    using n load_word_cong [of s1 s] by (simp add: s1_def hardware_frame_def k_paging_def)
  have um: "(ps_user_mode (k_ps s1 p))\<lparr>r_eax := x\<rparr> = returned (tss_esp0 s) r x" for x
    by (simp add: s1_def trapped_registers)
  have esp: "st_user_esp (hardware_frame r) = r_esp r" by (simp add: hardware_frame_def)
  show ?thesis
  proof (intro conjI impI allI)
    assume b: "n \<ge> NUM_SYSCALLS"
    let ?s' = "upd_ps p (\<lambda>p. p\<lparr>ps_user_mode := (ps_user_mode p)\<lparr>r_eax := - 1\<rparr>\<rparr>) s1"
    have "handle_syscall snap r s = Some (run_process_in_user_mode (ps_user_mode (k_ps ?s' p)) ?s')"
      using cur lw b by (simp add: handle_syscall_def syscall_handle_interrupt_def Let_def s1_def [symmetric] del: upd_ps_simps)
    then show "\<exists>s'. handle_syscall snap r s = Some s' \<and> k_cpu s' = Run_user (returned (tss_esp0 s) r (- 1)) \<and>
        k_heap s' = k_heap s \<and> k_phys s' = k_phys s \<and> (\<forall>x. x \<noteq> p \<longrightarrow> k_ps s' x = k_ps s x)"
      by (simp add: run_process_in_user_mode_def um) (simp add: s1_def)
  next
    fix s2 e
    assume h: "n < NUM_SYSCALLS \<and> handlers snap n s1 (r_esp r + 4) = Some (s2, Result e) \<and> ps_user_mode (k_ps s2 p) = ps_user_mode (k_ps s1 p)"
    then have nb: "\<not> NUM_SYSCALLS \<le> n" by (simp add: not_le)
    let ?s' = "upd_ps p (\<lambda>p. p\<lparr>ps_user_mode := (ps_user_mode p)\<lparr>r_eax := word_of_int e\<rparr>\<rparr>) (disable_interrupts s2)"
    have "handle_syscall snap r s = Some (run_process_in_user_mode (ps_user_mode (k_ps ?s' p)) ?s')"
      using cur lw h esp nb by (simp add: handle_syscall_def syscall_handle_interrupt_def Let_def s1_def [symmetric] del: upd_ps_simps)
    moreover have "ps_user_mode (k_ps ?s' p) = returned (tss_esp0 s) r (word_of_int e)" using h um by (simp add: disable_interrupts_def)
    ultimately show "\<exists>s'. handle_syscall snap r s = Some s' \<and> k_cpu s' = Run_user (returned (tss_esp0 s) r (word_of_int e))"
      by (simp add: run_process_in_user_mode_def)
  qed
qed

text \<open>The system call number 99 on the stack, and \<open>ebx = 5\<close>, \<open>edx = 7\<close>: the process gets \<open>ebx = 7\<close> back.\<close>

theorem syscall_return_registers_witness:
  "\<exists>s'. handle_syscall zero_registers (zero_registers\<lparr>r_esp := 0xC0000100, r_ebx := 5, r_edx := 7\<rparr>)
        (three_kernel\<lparr>k_phys := (\<lambda>_. 0)(0x100100 := 99)\<rparr>) = Some s' \<and>
     (\<exists>regs. k_cpu s' = Run_user regs \<and> r_eax regs = - 1 \<and> r_ebx regs = 7 \<and> r_ecx regs = 5)"
proof -
  let ?s = "three_kernel\<lparr>k_phys := (\<lambda>_. 0)(0x100100 := 99)\<rparr>" and ?r = "zero_registers\<lparr>r_esp := 0xC0000100, r_ebx := 5, r_edx := 7\<rparr>"
  have q: "queue Runnable ?s [0xC0001000, 0xC0003000, 0xC0002000]" by (rule queue_cong [OF three_kernel_queue]) simp_all
  have n: "load_word ?s (r_esp ?r) = Some 99" by code_simp
  have "(99 :: u32) \<ge> NUM_SYSCALLS" by simp
  with conjunct1 [OF syscall_return_registers [OF q _ n, of zero_registers]] show ?thesis by (auto simp: returned_def)
qed

section \<open>Descriptors\<close>

lemma get_next_fd_loop_spec:
  "get_next_fd_loop fds i = (if 0 \<in> set fds then i + int (length (takeWhile (\<lambda>v. v \<noteq> 0) fds)) else - 1)"
  by (induction fds arbitrary: i) auto

lemma takeWhile_stops: "0 \<in> set fds \<Longrightarrow> length (takeWhile (\<lambda>v. v \<noteq> 0) fds) < length fds"
  by (induction fds) auto

lemma get_next_fd_least:
  assumes "get_next_fd fds = fd" and "fd \<noteq> - 1"
  shows "0 \<le> fd" and "nat fd < length fds" and "fds ! nat fd = 0" and "\<forall>j<nat fd. fds ! j \<noteq> 0"
proof -
  let ?t = "takeWhile (\<lambda>v. v \<noteq> 0) fds"
  have z: "0 \<in> set fds" and fd: "fd = int (length ?t)"
    using assms by (auto simp: get_next_fd_def get_next_fd_loop_spec split: if_splits)
  have lt: "length ?t < length fds" using z by (rule takeWhile_stops)
  from fd lt show "0 \<le> fd" "nat fd < length fds" by simp_all
  show "fds ! nat fd = 0" using nth_length_takeWhile [OF lt] fd by simp
  show "\<forall>j<nat fd. fds ! j \<noteq> 0" using fd nth_mem [of _ ?t] takeWhile_nth [of _ _ fds] set_takeWhileD by fastforce
qed

lemma k_kmalloc_objects:
  assumes "k_kmalloc s n = Some (s', p)"
  shows "k_ps s' = k_ps s" and "k_ele s' = k_ele s" and "runnable_pss s' = runnable_pss s"
  using assms by (auto simp: k_kmalloc_def split: Option.bind_splits)

lemma k_vfs_lookup_objects:
  assumes "k_vfs_lookup s path res = Some (s', node, err)"
  shows "k_ps s' = k_ps s" and "k_ele s' = k_ele s" and "runnable_pss s' = runnable_pss s"
  using assms by (auto simp: k_vfs_lookup_def split: Option.bind_splits)

lemma sys_open_steps:
  assumes "sys_open s stack = Some (s', Result fd)" and "fd \<noteq> - 1"
  obtains path s1 v name s2 node where "k_kmalloc s SIZEOF_VNODE = Some (s1, v)" and "v \<noteq> 0"
    and "k_vfs_lookup s1 name (k_vn s1 v) = Some (s2, node, 0)"
    and "fd = get_next_fd (file_descriptors (k_ps s2 (scheduler_get_current_process s)))" and "vfs_open node = 0"
    and "s' = upd_ps (scheduler_get_current_process s) (\<lambda>p. p\<lparr>file_descriptors := (file_descriptors p)[nat fd := v]\<rparr>) (set_vn v node s2)"
    and "scheduler_get_current_process s \<noteq> 0"
  using assms that
  by (auto simp: sys_open_def Let_def set_vn_def split: Option.bind_splits if_splits)


text \<open>A kernel whose current process has the path of the frame buffer on its stack.\<close>

definition open_kernel :: kernel where
  "open_kernel = three_kernel\<lparr>k_phys := (\<lambda>_. 0)(0x100101 := 2, 0x100103 := 0xC0,
     0x100200 := 47, 0x100201 := 100, 0x100202 := 101, 0x100203 := 118, 0x100204 := 47, 0x100205 := 102, 0x100206 := 98)\<rparr>"


section \<open>Fork\<close>

lemma add_process_ps: "scheduler_add_process w s p = Some (s', r) \<Longrightarrow> k_ps s' = k_ps s"
  by (cases w) (auto simp: scheduler_add_process_def Let_def k_kmalloc_def split: Option.bind_splits if_splits)

lemma clone_fresh:
  assumes inv: "kheap_inv (k_heap s) P" and r: "process_clone s p i = Some (s', c)" and c: "c \<noteq> 0"
  shows "c \<notin> P"
proof -
  obtain s1 where k: "k_kmalloc s SIZEOF_PS = Some (s1, c)"
    using r c unfolding process_clone_def Let_def by (auto split: Option.bind_splits if_splits)
  show ?thesis by (rule k_kmalloc_cases [OF inv, of SIZEOF_PS]) (use k c in auto)
qed


text \<open>A kernel whose only process, at the address of a live block, has no pages.\<close>

definition fork_kernel :: "kernel" where
  "fork_kernel = (let (s, p) = the (k_kmalloc boot_kernel SIZEOF_PS) in
     (set_ps p (blank_ps 1) (set_ele 0xC0001000 \<lparr>le_next = 0, le_ps = p\<rparr> s))\<lparr>runnable_pss := \<lparr>pss_start = 0xC0001000, pss_end = 0xC0001000\<rparr>\<rparr>)"


end
