(* ===== verification/Pfa_Init.thy ===== *)
theory Pfa_Init
  imports Paging_Kernel Cstring
begin

text \<open>
  The initialisation of the page frame allocator (\<open>page_frame_allocator.c\<close>): \<open>fill_memory_map\<close>
  turns the memory map of the boot loader (\<open>multiboot.h\<close>) into the table of regions, \<open>pfa_init\<close>
  aligns the regions and \<open>construct_bitmap\<close> takes the frames for the bitmap out of the first region
  that holds it, maps them and marks the frames as free. The structures of the boot loader are read
  from memory at their offsets.
\<close>

section \<open>The structures of the boot loader\<close>

text \<open>\<open>multiboot_info_t\<close>, at \<open>p\<close>.\<close>

definition mb_flags :: "mem \<Rightarrow> u32 \<Rightarrow> u32" where
  "mb_flags m p = load32 m p"

definition mb_mods_count :: "mem \<Rightarrow> u32 \<Rightarrow> u32" where
  "mb_mods_count m p = load32 m (p + 20)"

definition mb_mods_addr :: "mem \<Rightarrow> u32 \<Rightarrow> u32" where
  "mb_mods_addr m p = load32 m (p + 24)"

definition mb_mmap_length :: "mem \<Rightarrow> u32 \<Rightarrow> u32" where
  "mb_mmap_length m p = load32 m (p + 44)"

definition mb_mmap_addr :: "mem \<Rightarrow> u32 \<Rightarrow> u32" where
  "mb_mmap_addr m p = load32 m (p + 48)"

text \<open>\<open>multiboot_memory_map_t\<close>: a 32-bit size, the 64-bit address and length, which the code casts
  to 32 bits, and a 32-bit type.\<close>

definition me_size :: "mem \<Rightarrow> u32 \<Rightarrow> u32" where
  "me_size m e = load32 m e"

definition me_addr :: "mem \<Rightarrow> u32 \<Rightarrow> u32" where
  "me_addr m e = load32 m (e + 4)"

definition me_len :: "mem \<Rightarrow> u32 \<Rightarrow> u32" where
  "me_len m e = load32 m (e + 12)"

definition me_type :: "mem \<Rightarrow> u32 \<Rightarrow> u32" where
  "me_type m e = load32 m (e + 20)"

abbreviation (input) MULTIBOOT_MEMORY_AVAILABLE :: u32 where "MULTIBOOT_MEMORY_AVAILABLE \<equiv> 1"
abbreviation (input) MAX_NUM_MEMORY_MAP :: nat where "MAX_NUM_MEMORY_MAP \<equiv> 100"
abbreviation (input) ONE_MB :: u32 where "ONE_MB \<equiv> 0x100000"

text \<open>\<open>kernel_meminfo_t\<close> (\<open>kernel.h\<close>).\<close>

record kernel_meminfo =
  kernel_physical_start :: u32
  kernel_physical_end :: u32
  kernel_virtual_start :: u32
  kernel_virtual_end :: u32

section \<open>The memory map\<close>

text \<open>A store into the static array \<open>mmap\<close>; the code has no check of the index, and a store past the
  array is \<open>None\<close>.\<close>

definition put_region :: "memory_map list \<Rightarrow> u32 \<Rightarrow> u32 \<Rightarrow> u32 \<Rightarrow> memory_map list option" where
  "put_region mm i addr len = (if unat i < length mm then Some (mm[unat i := \<lparr>mm_addr = addr, mm_len = len\<rparr>]) else None)"

definition fill_entry :: "kernel_meminfo \<Rightarrow> u32 \<Rightarrow> u32 \<Rightarrow> u32 \<Rightarrow> u32 \<Rightarrow> memory_map list \<times> u32 \<Rightarrow> (memory_map list \<times> u32) option" where
  "fill_entry kmem fs_paddr fs_size addr len mmi =
     (let (mm, i) = mmi;
          (addr, len) = (if addr \<le> kernel_physical_start kmem \<and> addr + len > kernel_physical_end kmem
                         then (kernel_physical_end kmem, len - kernel_physical_end kmem) else (addr, len))
      in if addr > ONE_MB then
           (if addr < fs_paddr \<and> addr + len > fs_paddr + fs_size then
              Option.bind (put_region mm i addr (fs_paddr - addr)) (\<lambda>mm.
                let i = i + 1; addr = fs_paddr + fs_size; len = len - ((fs_paddr + fs_size) - addr)
                in Option.bind (put_region mm i addr len) (\<lambda>mm. Some (mm, i + 1)))
            else Option.bind (put_region mm i addr len) (\<lambda>mm. Some (mm, i + 1)))
         else Some (mm, i))"

partial_function (option) fill_memory_map_loop ::
  "mem \<Rightarrow> kernel_meminfo \<Rightarrow> u32 \<Rightarrow> u32 \<Rightarrow> u32 \<Rightarrow> u32 \<Rightarrow> memory_map list \<times> u32 \<Rightarrow> (memory_map list \<times> u32) option" where
  "fill_memory_map_loop m kmem fs_paddr fs_size e_end entry mmi =
     (if entry < e_end then
        Option.bind (if me_type m entry = MULTIBOOT_MEMORY_AVAILABLE
                     then fill_entry kmem fs_paddr fs_size (me_addr m entry) (me_len m entry) mmi else Some mmi)
          (\<lambda>mmi. fill_memory_map_loop m kmem fs_paddr fs_size e_end (entry + me_size m entry + 4) mmi)
      else Some mmi)"

declare fill_memory_map_loop.simps [code]

definition fill_memory_map :: "mem \<Rightarrow> u32 \<Rightarrow> kernel_meminfo \<Rightarrow> u32 \<Rightarrow> u32 \<Rightarrow> memory_map list \<Rightarrow> (memory_map list \<times> u32) option" where
  "fill_memory_map m mbinfo kmem fs_paddr fs_size mm =
     (if mb_flags m mbinfo AND 0x20 = 0 then Some (mm, 0)
      else fill_memory_map_loop m kmem fs_paddr fs_size (mb_mmap_addr m mbinfo + mb_mmap_length m mbinfo)
             (mb_mmap_addr m mbinfo) (mm, 0))"

section \<open>The bitmap\<close>

fun count_pfs :: "memory_map list \<Rightarrow> u32 \<Rightarrow> u32" where
  "count_pfs [] total_pfs = total_pfs"
| "count_pfs (e # es) total_pfs = count_pfs es (total_pfs + mm_len e div FOUR_KB)"

text \<open>The first region that holds the bitmap gives up its first frames; \<open>None\<close> when there is none.\<close>

fun place_bitmap :: "u32 \<Rightarrow> memory_map list \<Rightarrow> (memory_map list \<times> u32) option" where
  "place_bitmap bitmap_pfs [] = None"
| "place_bitmap bitmap_pfs (e # es) =
     (if mm_len e \<ge> bitmap_pfs * FOUR_KB
      then Some (\<lparr>mm_addr = mm_addr e + bitmap_pfs * FOUR_KB, mm_len = mm_len e - bitmap_pfs * FOUR_KB\<rparr> # es, mm_addr e)
      else map_option (\<lambda>(es, paddr). (e # es, paddr)) (place_bitmap bitmap_pfs es))"

text \<open>The bits of the last byte, highest first.\<close>

definition last_byte :: "u32 \<Rightarrow> u8" where
  "last_byte len = fold (\<lambda>i b. b OR push_bit (7 - i) 1) [0..<unat (len mod 8)] 0"

definition set_bitmap :: "u32 \<Rightarrow> u32 \<Rightarrow> pfa_state \<Rightarrow> pfa_state" where
  "set_bitmap vaddr bitmap_size s =
     (let s = s\<lparr>pf_start := vaddr\<rparr>;
          m = memset (pf_mem s) (pf_start s) 0xFF bitmap_size;
          m = m(pf_start s + bitmap_size - 1 := last_byte (pf_len s))
      in s\<lparr>pf_mem := m\<rparr>)"

definition construct_bitmap :: "paging \<Rightarrow> u32 \<Rightarrow> (paging \<times> u32) option" where
  "construct_bitmap s n =
     (let mm = mmap (pfa_st s);
          total_pfs = count_pfs (take (unat n) mm) 0;
          bitmap_pfs = div_ceil (div_ceil total_pfs 8) FOUR_KB;
          len = total_pfs - bitmap_pfs;
          bitmap_size = div_ceil len 8
      in case place_bitmap bitmap_pfs (take (unat n) mm) of
           None \<Rightarrow> Some (s\<lparr>pfa_st := (pfa_st s)\<lparr>pf_len := len\<rparr>\<rparr>, 1)
         | Some (es, paddr) \<Rightarrow>
             let s = s\<lparr>pfa_st := (pfa_st s)\<lparr>pf_len := len, mmap := es @ drop (unat n) mm\<rparr>\<rparr>;
                 (s, vaddr) = pdt_kernel_find_next_vaddr s bitmap_size
             in if vaddr = 0 then Some (s, 1)
                else Option.bind (pdt_map_kernel_memory s paddr vaddr bitmap_size PAGING_PL0 PAGING_READ_WRITE)
                       (\<lambda>(s, mapped_mem). if mapped_mem < bitmap_size then Some (s, 1)
                          else Some (s\<lparr>pfa_st := set_bitmap vaddr bitmap_size (pfa_st s)\<rparr>, 0)))"

definition align_region :: "memory_map \<Rightarrow> memory_map" where
  "align_region e =
     (let addr = align_up (mm_addr e) FOUR_KB;
          len = align_down (mm_len e - (addr - mm_addr e)) FOUR_KB
      in \<lparr>mm_addr = addr, mm_len = len\<rparr>)"

definition pfa_init :: "mem \<Rightarrow> u32 \<Rightarrow> kernel_meminfo \<Rightarrow> u32 \<Rightarrow> u32 \<Rightarrow> paging \<Rightarrow> (paging \<times> u32) option" where
  "pfa_init m mbinfo kmem fs_paddr fs_size s =
     Option.bind (fill_memory_map m mbinfo kmem fs_paddr fs_size (mmap (pfa_st s))) (\<lambda>(mm, n).
       if n = 0 then Some (s\<lparr>pfa_st := (pfa_st s)\<lparr>mmap := mm\<rparr>\<rparr>, 1)
       else construct_bitmap (s\<lparr>pfa_st := (pfa_st s)\<lparr>mmap := map align_region (take (unat n) mm) @ drop (unat n) mm,
                                                     mmap_len := n\<rparr>\<rparr>) n)"

section \<open>The table survives the mapping of the bitmap\<close>

text \<open>What the paging code leaves alone of the allocator while the bitmap is not there yet: it may
  toggle bits, but keeps the table.\<close>

definition same_table :: "pfa_state \<Rightarrow> pfa_state \<Rightarrow> bool" where
  "same_table p q \<longleftrightarrow> mmap q = mmap p \<and> mmap_len q = mmap_len p \<and> pf_len q = pf_len p \<and> pf_start q = pf_start p"

lemma same_table_refl [simp]: "same_table p p"
  by (simp add: same_table_def)

lemma same_table_trans: "same_table p q \<Longrightarrow> same_table q r \<Longrightarrow> same_table p r"
  by (simp add: same_table_def)

lemma same_table_allocate: "same_table p (fst (pfa_allocate p n))"
  by (simp add: same_table_def pfa_allocate_def split: option.split)

lemma pfa_st_window [simp]:
  "pfa_st (fst (kernel_map_temporary_memory s p)) = pfa_st s"
  "pfa_st (kernel_set_temporary_entry s e) = pfa_st s"
  by (simp_all add: kernel_map_temporary_memory_def kernel_set_temporary_entry_def invalidate_page_table_entry_def
    create_pt_entry_def store_pte_def)

lemma pfa_st_pt_map_loop: "pfa_st (fst (pt_map_loop s pt d paddr sz rw pl i m)) = pfa_st s"
proof (induction s pt d paddr sz rw pl i m rule: pt_map_loop.induct)
  case (1 s pt d paddr sz rw pl i m)
  then show ?case by (subst pt_map_loop.simps) (simp add: create_pt_entry_def store_pte_def)
qed

lemma pfa_st_pt_map_memory [simp]: "pfa_st (fst (pt_map_memory s pt d paddr v sz rw pl)) = pfa_st s"
  by (simp add: pt_map_memory_def pfa_st_pt_map_loop)

lemma pfa_st_create_pdt_entry [simp]: "pfa_st (create_pdt_entry s pdt n p ps rw pl) = pfa_st s"
  by (simp add: create_pdt_entry_def store_pde_def)

lemma same_table_map_round:
  "same_table (pfa_st s) (pfa_st (case pdt_map_round s pdt paddr v sz rw pl of Inl s' \<Rightarrow> s' | Inr (s', m) \<Rightarrow> s'))"
proof (cases "pde_present (pdts s pdt (VIRTUAL_TO_PDT_IDX v))")
  case True
  then show ?thesis by (simp add: pdt_map_round_def Let_def case_prod_beta)
next
  case False
  then show ?thesis by (simp add: pdt_map_round_def Let_def case_prod_beta same_table_allocate)
qed

lemma same_table_map_loop:
  assumes "pdt_map_loop s pdt paddr v sz rw pl tot = Some y"
  shows "same_table (pfa_st s) (pfa_st (fst y))"
proof (rule pdt_map_loop.raw_induct [OF _ assms, where P = "\<lambda>s pdt paddr v sz rw pl tot y. same_table (pfa_st s) (pfa_st (fst y))"])
  fix f s pdt paddr v sz rw pl tot y
  assume IH: "\<And>s pdt paddr v sz rw pl tot y. f s pdt paddr v sz rw pl tot = Some y \<Longrightarrow> same_table (pfa_st s) (pfa_st (fst y))"
    and "(if sz \<noteq> 0 then case pdt_map_round s pdt paddr v sz rw pl of Inl s' \<Rightarrow> Some (s', 0)
          | Inr (s', m) \<Rightarrow> f s' pdt (paddr + m) (v + m) (sz - m) rw pl (tot + m) else Some (s, tot)) = Some y"
  then show "same_table (pfa_st s) (pfa_st (fst y))"
    using same_table_map_round [of s pdt paddr v sz rw pl]
    by (auto split: if_splits sum.splits prod.splits dest: IH intro: same_table_trans)
qed

lemma pt_find_bounds:
  assumes "num \<noteq> 0"
  shows "pt_find_loop s d pt num 0 0 0 = 0 \<or> (\<exists>a. pt_find_loop s d pt num 0 0 0 = page_addr d a \<and> a + unat num \<le> 1024)"
  using pt_find_loop_result [of "pts s (pt_frame s pt)" s pt 0 0 num d 0] assms
  by (auto simp: page_addr_def unat_gt_0 run_at_def)

lemma pdt_find_bounds:
  assumes "num = align_up sz 4096 div 4096" and "num \<noteq> 0" and "unat num \<le> 1024"
    and "pdt_find_loop s sz i = (s', v)"
  shows "pfa_st s' = pfa_st s \<and> (v = 0 \<or> (\<exists>d a. v = page_addr d a \<and> d < 1024 \<and> a + unat num \<le> 1024))"
  using assms(4)
proof (induction "1024 - unat i" arbitrary: s i rule: less_induct)
  case (less i s)
  show ?case
  proof (cases "i < 1024")
    case False
    with less.prems show ?thesis by (subst (asm) pdt_find_loop.simps) auto
  next
    case lt: True
    define t where "t = (if pde_present (pdts s (kernel_pdt s) i)
      then kernel_set_temporary_entry (fst (kernel_map_temporary_memory s (get_pt_paddr (pdts s (kernel_pdt s) i))))
             (kernel_get_temporary_entry s) else s)"
    define w where "w = (if pde_present (pdts s (kernel_pdt s) i)
      then pt_kernel_find_next_vaddr (fst (kernel_map_temporary_memory s (get_pt_paddr (pdts s (kernel_pdt s) i)))) i
             (snd (kernel_map_temporary_memory s (get_pt_paddr (pdts s (kernel_pdt s) i)))) sz else PDT_IDX_TO_VIRTUAL i)"
    have step: "pdt_find_loop s sz i = (if w \<noteq> 0 then (t, w) else pdt_find_loop t sz (i + 1))"
      using lt by (subst pdt_find_loop.simps) (simp add: t_def w_def Let_def case_prod_beta)
    have t: "pfa_st t = pfa_st s" by (simp add: t_def)
    have zero: "page_addr i 0 = PDT_IDX_TO_VIRTUAL i" by (simp add: page_addr_def PT_IDX_TO_VIRTUAL_def)
    have w: "w = 0 \<or> (\<exists>a. w = page_addr i a \<and> a + unat num \<le> 1024)"
      using pt_find_bounds [OF assms(2)] assms(1,3) unfolding w_def zero [symmetric] pt_kernel_find_next_vaddr_def
      by (metis add_0)
    show ?thesis
    proof (cases "w = 0")
      case True
      have "1024 - unat (i + 1) < 1024 - unat i" using unat_inc [OF lt] lt by (simp add: word_less_nat_alt)
      from less.hyps [OF this] less.prems step True t show ?thesis by simp
    next
      case False
      with less.prems step w lt t show ?thesis by auto
    qed
  qed
qed

section \<open>The regions and the length of the bitmap\<close>

lemma count_pfs_eq: "count_pfs es t = t + of_nat (length (frames es))"
proof (induction es arbitrary: t)
  case (Cons e es)
  have "mm_len e div 4096 = of_nat (length (region_frames e))"
    by (simp add: region_frames_def word_unat_eq_iff unat_div unat_of_nat_small div_le_dividend
      le_less_trans [OF div_le_dividend unat_lt_u32])
  then show ?case using Cons.IH by (simp add: algebra_simps)
qed simp

lemma place_bitmap_ok:
  assumes "place_bitmap b es = Some (es', p)" and "mmap_ok lo es" and "unat b < 2 ^ 20"
  shows "mmap_ok lo es' \<and> length (frames es') + unat b = length (frames es) \<and> length es' = length es \<and>
         set (frames es') \<subseteq> set (frames es)"
  using assms
proof (induction es arbitrary: es' lo)
  case (Cons e es)
  have ub: "unat (b * 4096) = 4096 * unat b" using Cons.prems(3) by (simp add: unat_mult_nowrap)
  show ?case
  proof (cases "b * 4096 \<le> mm_len e")
    case True
    then have le: "4096 * unat b \<le> unat (mm_len e)" using ub by (simp add: word_le_nat_alt)
    have len: "unat (mm_len e - b * 4096) = unat (mm_len e) - 4096 * unat b"
      using ub le by (simp add: unat_sub_nowrap)
    have adr: "unat (mm_addr e + b * 4096) = unat (mm_addr e) + 4096 * unat b"
      using ub le Cons.prems(2) by (subst unat_add_nowrap) auto
    have es': "es' = \<lparr>mm_addr = mm_addr e + b * 4096, mm_len = mm_len e - b * 4096\<rparr> # es"
      using Cons.prems(1) True by auto
    have "(unat (mm_len e) - 4096 * unat b) div 4096 + unat b = unat (mm_len e) div 4096" using le by simp
    moreover have "set (region_frames \<lparr>mm_addr = mm_addr e + b * 4096, mm_len = mm_len e - b * 4096\<rparr>) \<subseteq> set (region_frames e)"
    proof
      fix x
      assume "x \<in> set (region_frames \<lparr>mm_addr = mm_addr e + b * 4096, mm_len = mm_len e - b * 4096\<rparr>)"
      then obtain k where k: "k < (unat (mm_len e) - 4096 * unat b) div 4096" "x = unat (mm_addr e) + 4096 * (unat b + k)"
        by (auto simp: region_frames_def len adr)
      then have "unat b + k < unat (mm_len e) div 4096" using le by simp
      with k(2) show "x \<in> set (region_frames e)" unfolding region_frames_def set_map set_upt by (intro image_eqI) auto
    qed
    ultimately show ?thesis
      using Cons.prems(2) le unfolding es' by (auto simp: len adr region_frames_def dvd_diff_nat)
  next
    case False
    then obtain fs where fs: "place_bitmap b es = Some (fs, p)" "es' = e # fs" using Cons.prems(1) by auto
    have "mmap_ok (unat (mm_addr e) + unat (mm_len e)) es" using Cons.prems(2) by simp
    from Cons.IH [OF fs(1) this Cons.prems(3)] fs(2) Cons.prems(2) show ?thesis by auto
  qed
qed simp

section \<open>The bits\<close>

lemma bit_load32: "k < 32 \<Longrightarrow> bit (load32 m a) k \<longleftrightarrow> bit (m (a + of_nat (k div 8))) (k mod 8)"
proof -
  assume "k < 32"
  then consider "k < 8" | "8 \<le> k" "k < 16" | "16 \<le> k" "k < 24" | "24 \<le> k" "k < 32" by linarith
  then show ?thesis
  proof cases
    case 1
    then show ?thesis by (auto simp: load32_def bit_simps dest: bit_imp_le_length)
  next
    case 2
    then have "k div 8 = 1" "k mod 8 = k - 8" by (auto intro: div_nat_eqI mod_nat_eqI)
    with 2 show ?thesis by (auto simp: load32_def bit_simps dest: bit_imp_le_length)
  next
    case 3
    then have "k div 8 = 2" "k mod 8 = k - 16" by (auto intro: div_nat_eqI mod_nat_eqI)
    with 3 show ?thesis by (auto simp: load32_def bit_simps dest: bit_imp_le_length)
  next
    case 4
    then have "k div 8 = 3" "k mod 8 = k - 24" by (auto intro: div_nat_eqI mod_nat_eqI)
    with 4 show ?thesis by (auto simp: load32_def bit_simps dest: bit_imp_le_length)
  qed
qed

text \<open>The byte of the bitmap with the bit of frame \<open>k\<close>: the cells are read as 32-bit words, so the
  first eight frames of a cell are in its last byte.\<close>

definition bitmap_byte :: "nat \<Rightarrow> nat" where
  "bitmap_byte k = 4 * (k div 32) + (3 - k mod 32 div 8)"

lemma free_at_byte:
  assumes "k < 2 ^ 20"
  shows "free_at s k \<longleftrightarrow> bit (pf_mem s (pf_start s + of_nat (bitmap_byte k))) (7 - k mod 8)"
proof -
  have u: "unat (of_nat k :: u32) = k" using assms by (simp add: unat_of_nat_small)
  have d: "(of_nat k :: u32) div 32 = of_nat (k div 32)"
    by (simp add: word_unat_eq_iff unat_div u unat_of_nat_small le_less_trans [OF div_le_dividend] assms
      less_trans [OF le_less_trans [OF div_le_dividend assms]])
  have m: "unat ((of_nat k :: u32) mod 32) = k mod 32" by (simp add: unat_mod u)
  have a: "(31 - k mod 32) div 8 = 3 - k mod 32 div 8" "(31 - k mod 32) mod 8 = 7 - k mod 8"
  proof -
    define q r where "q = k mod 32 div 8" and "r = k mod 8"
    have "k mod 32 mod 8 = r" unfolding r_def by (rule mod_mod_cancel) simp
    then have k: "k mod 32 = 8 * q + r" using mult_div_mod_eq [of 8 "k mod 32"] by (simp only: q_def)
    have "q < 4" unfolding q_def by (rule less_mult_imp_div_less) simp
    moreover have "r < 8" by (simp add: r_def)
    ultimately have e: "31 - k mod 32 = 8 * (3 - q) + (7 - r)" unfolding k by linarith
    have "(8 * (3 - q) + (7 - r)) div 8 = 3 - q" "(8 * (3 - q) + (7 - r)) mod 8 = 7 - r" by simp_all
    then show "(31 - k mod 32) div 8 = 3 - k mod 32 div 8" "(31 - k mod 32) mod 8 = 7 - k mod 8"
      unfolding e by (simp_all only: q_def r_def)
  qed
  show ?thesis
    unfolding frame_bit_def bitmap_cell_def d m bitmap_byte_def
    by (simp add: bit_load32 a algebra_simps)
qed

lemma bit_last_byte: "k < 8 \<Longrightarrow> bit (last_byte len) (7 - k) \<longleftrightarrow> k < unat len mod 8"
proof -
  assume k: "k < 8"
  have "bit (fold (\<lambda>i b. b OR push_bit (7 - i) 1) [0..<n] (0 :: u8)) (7 - k) \<longleftrightarrow> k < n" if "n \<le> 8" for n
    using that
  proof (induction n)
    case (Suc n)
    then show ?case using k by (auto simp: bit_simps)
  qed simp
  from this [of "unat len mod 8"] show ?thesis by (simp add: last_byte_def unat_mod)
qed

lemma set_bitmap_fields [simp]:
  "pf_start (set_bitmap v b p) = v" "pf_len (set_bitmap v b p) = pf_len p" "mmap (set_bitmap v b p) = mmap p"
  "mmap_len (set_bitmap v b p) = mmap_len p"
  by (simp_all add: set_bitmap_def Let_def)

lemma free_at_set_bitmap:
  assumes "k < 2 ^ 20" and "bitmap_byte k < unat b" and "unat v + unat b < 2 ^ 32"
  shows "free_at (set_bitmap v b p) k \<longleftrightarrow> bitmap_byte k < unat b - 1 \<or> k mod 8 < unat (pf_len p) mod 8"
proof -
  let ?a = "v + of_nat (bitmap_byte k) :: u32"
  have ub: "unat (of_nat (bitmap_byte k) :: u32) = bitmap_byte k"
    using assms(2) unat_lt_u32 [of b] by (simp add: unat_of_nat_small)
  have ua: "unat ?a = unat v + bitmap_byte k"
    using assms(2,3) ub by (subst unat_add_nowrap) simp_all
  have ue: "unat (v + b) = unat v + unat b" using assms(3) by (simp add: unat_add_nowrap)
  then have ul: "unat (v + b - 1) = unat v + unat b - 1"
    using assms(2) by (subst unat_minus_one) (auto simp: unat_eq_zero [symmetric])
  have in_range: "v \<le> ?a" "?a < v + b" using ua ue assms(2) by (simp_all add: word_le_nat_alt word_less_nat_alt)
  have last: "?a = v + b - 1 \<longleftrightarrow> bitmap_byte k = unat b - 1"
    using assms(2) by (auto simp: word_unat_eq_iff ua ul)
  have "\<forall>j<8. bit (0xFF :: u8) j" by code_simp
  then have ff: "bit (0xFF :: u8) (7 - k mod 8)" by auto
  show ?thesis
    unfolding free_at_byte [OF assms(1)] using in_range last assms(2) bit_last_byte [of "k mod 8" "pf_len p"] ff
    by (auto simp: set_bitmap_def memset_eq Let_def)
qed

section \<open>The allocator after initialisation\<close>

lemma bitmap_pages:
  assumes "2 \<le> F" and "F < 2 ^ 20" and "t = of_nat F" and "B = div_ceil (div_ceil t 8) 4096"
  shows "unat B = ((F + 7) div 8 + 4095) div 4096" and "unat (t - B) = F - unat B" and "unat B < F"
proof -
  have t: "unat t = F" using assms(2,3) by (simp add: unat_of_nat_small)
  then have u: "unat (div_ceil t 8) = (F + 7) div 8" using assms(1) by (subst unat_div_ceil) auto
  have "1 \<le> (F + 7) div 8" using assms(1) by simp
  then have "div_ceil t 8 \<noteq> 0" using u by auto
  then show B: "unat B = ((F + 7) div 8 + 4095) div 4096" using u assms(4) by (simp add: unat_div_ceil)
  show lt: "unat B < F" using assms(1) unfolding B by simp
  then show "unat (t - B) = F - unat B" using t by (simp add: unat_sub_nowrap)
qed

lemma construct_bitmap_result:
  assumes "construct_bitmap s n = Some (s', 0)" and es: "es = take (unat n) (mmap (pfa_st s))" and n: "mmap_len (pfa_st s) = n"
    and ok: "mmap_ok 0x100000 es" and two: "2 \<le> length (frames es)"
  shows "\<exists>v p es'. pfa_st s' = set_bitmap v (div_ceil (pf_len p) 8) p \<and> mmap_used p = es' \<and> mmap_ok 0x100000 es' \<and>
           unat (pf_len p) = length (frames es') \<and> pf_len p \<noteq> 0 \<and> length (frames es') < 2 ^ 20 \<and>
           unat v + unat (div_ceil (pf_len p) 8) \<le> 2 ^ 32 \<and> set (frames es') \<subseteq> set (frames es)"
proof -
  define F t B len b where "F = length (frames es)" and "t = count_pfs es 0" and "B = div_ceil (div_ceil t 8) 4096"
    and "len = t - B" and "b = div_ceil len 8"
  have F: "F < 2 ^ 20" using length_frames_bound [OF ok] by (simp add: F_def)
  have t: "t = of_nat F" by (simp add: t_def count_pfs_eq F_def)
  note B = bitmap_pages [OF _ F t B_def, folded len_def] 
  have two': "2 \<le> F" using two by (simp add: F_def)
  note B = B [OF two']
  have len0: "len \<noteq> 0" using B(2,3) by (auto simp: unat_eq_zero [symmetric])
  then have b: "unat b = (F - unat B + 7) div 8" using B(2) by (simp add: b_def unat_div_ceil)
  from assms(1) obtain es' p0 where pl: "place_bitmap B es = Some (es', p0)"
    by (auto simp: construct_bitmap_def Let_def es t_def B_def split: option.splits)
  have es': "mmap_ok 0x100000 es'" "length (frames es') + unat B = F" "length es' = length es" "set (frames es') \<subseteq> set (frames es)"
    using place_bitmap_ok [OF pl ok] B(3) F by (simp_all add: F_def)
  define s1 where "s1 = s\<lparr>pfa_st := (pfa_st s)\<lparr>pf_len := len, mmap := es' @ drop (unat n) (mmap (pfa_st s))\<rparr>\<rparr>"
  obtain s2 v where f: "pdt_kernel_find_next_vaddr s1 b = (s2, v)" by fastforce
  from assms(1) pl f obtain s3 mp where v: "v \<noteq> 0"
      and m: "pdt_map_kernel_memory s2 p0 v b PAGING_PL0 PAGING_READ_WRITE = Some (s3, mp)"
      and s': "s' = s3\<lparr>pfa_st := set_bitmap v b (pfa_st s3)\<rparr>"
    by (auto simp: construct_bitmap_def Let_def t_def [symmetric] es [symmetric] B_def [symmetric]
      len_def [symmetric] b_def [symmetric] s1_def [symmetric] bind_eq_Some_conv split: if_splits)
  have b0: "0 < unat b" "unat b \<le> 131072" using b B(3) F by simp_all
  define num where "num = align_up b 4096 div 4096"
  have "b \<le> 0xFFFFF000" using b0(2) by (simp add: word_le_nat_alt)
  note al = align_up_page [OF this]
  have num: "4096 * unat num = unat (align_up b 4096)" using al(1) by (simp add: num_def unat_div)
  then have num_b: "num \<noteq> 0" "unat num \<le> 1024" "unat b \<le> 4096 * unat num"
    using al(2,3) b0 by (auto simp: unat_eq_zero [symmetric])
  obtain d a where v: "v = page_addr d a" "d < 1024" "a + unat num \<le> 1024" and p2: "pfa_st s2 = pfa_st s1"
    using pdt_find_bounds [OF num_def num_b(1,2)] f v unfolding pdt_kernel_find_next_vaddr_def by blast
  have "unat v = 4194304 * unat d + 4096 * a"
    using v num_b(1) unat_page_addr [of d a] unat_gt_0 [of num] by simp
  then have vb: "unat v + unat b \<le> 2 ^ 32" using v(2,3) num_b(3) by (simp add: word_less_nat_alt)
  have st: "same_table (pfa_st s1) (pfa_st s3)"
    using same_table_map_loop m p2 by (fastforce simp: pdt_map_kernel_memory_def pdt_map_memory_def)
  then have p3: "pf_len (pfa_st s3) = len" "mmap_used (pfa_st s3) = es'"
    using es'(3) by (simp_all add: same_table_def s1_def mmap_used_def n es min_def)
  have "pfa_st s' = set_bitmap v (div_ceil (pf_len (pfa_st s3)) 8) (pfa_st s3)" by (simp add: s' p3 b_def)
  then show ?thesis
    using es' B(2) len0 F p3 vb unfolding b_def by (intro exI [of _ v] exI [of _ "pfa_st s3"] exI [of _ es']) auto
qed

lemma pfa_init_result:
  assumes "fill_memory_map m mbinfo kmem fs_paddr fs_size (mmap (pfa_st s)) = Some (mm, n)"
    and "mmap_ok 0x100000 (map align_region (take (unat n) mm))"
    and "2 \<le> length (frames (map align_region (take (unat n) mm)))"
    and "pfa_init m mbinfo kmem fs_paddr fs_size s = Some (s', 0)"
  shows "\<exists>v p es'. pfa_st s' = set_bitmap v (div_ceil (pf_len p) 8) p \<and> mmap_used p = es' \<and> mmap_ok 0x100000 es' \<and>
           unat (pf_len p) = length (frames es') \<and> pf_len p \<noteq> 0 \<and> length (frames es') < 2 ^ 20 \<and>
           unat v + unat (div_ceil (pf_len p) 8) \<le> 2 ^ 32 \<and>
           set (frames es') \<subseteq> set (frames (map align_region (take (unat n) mm)))"
proof -
  let ?es = "map align_region (take (unat n) mm)"
  let ?s = "s\<lparr>pfa_st := (pfa_st s)\<lparr>mmap := ?es @ drop (unat n) mm, mmap_len := n\<rparr>\<rparr>"
  have "construct_bitmap ?s n = Some (s', 0)"
    using assms(1,4) by (auto simp: pfa_init_def split: if_splits)
  moreover have "?es = take (unat n) (mmap (pfa_st ?s))" by (simp add: min_def)
  ultimately show ?thesis using construct_bitmap_result [of ?s n s' ?es] assms(2,3) by simp
qed

text \<open>A machine with 72 frames from 2 MB on and the file system elsewhere.\<close>

definition boot_info :: mem where
  "boot_info = store32 (store32 (store32 (store32 (store32 (store32 (store32 (\<lambda>_. 0)
     0x9000 0x28) 0x902C 24) 0x9030 0xA000) 0xA000 20) 0xA004 0x200000) 0xA00C 0x48000) 0xA014 1"

definition boot_meminfo :: kernel_meminfo where
  "boot_meminfo = \<lparr>kernel_physical_start = 0x100000, kernel_physical_end = 0x110000,
     kernel_virtual_start = 0xC0100000, kernel_virtual_end = 0xC0110000\<rparr>"

definition boot_paging :: paging where
  "boot_paging = example_paging\<lparr>pfa_st := \<lparr>pf_start = 0, pf_len = 0, mmap = replicate 100 \<lparr>mm_addr = 0, mm_len = 0\<rparr>,
     mmap_len = 0, pf_mem = (\<lambda>_. 0)\<rparr>\<rparr>"

lemma managed_frames_eq:
  "unat (pf_len p) = length (frames (mmap_used p)) \<Longrightarrow> managed_frames p = of_nat ` set (frames (mmap_used p))"
  by (auto simp: managed_frames_def frame_addr_def set_conv_nth)

section \<open>Properties\<close>

text \<open>C13. A successful \<open>pfa_init\<close> establishes the invariant of the allocator, for a table of at least two
  frames whose aligned regions are in order and do not overlap: every frame it will ever hand out is
  one of the table, and the bitmap says \<open>free\<close> for every frame with its bit in a byte of the bitmap
  before the last, and in the last byte for the positions \<open>0\<close> to \<open>len mod 8 - 1\<close>. The bytes are
  counted in the order of memory, in which the first eight frames of a 32-bit cell come last: for the
  frames of the last cell the code sets the wrong bits.\<close>

theorem pfa_init_correct:
  assumes "fill_memory_map m mbinfo kmem fs_paddr fs_size (mmap (pfa_st s)) = Some (mm, n)"
    and "mmap_ok 0x100000 (map align_region (take (unat n) mm))"
    and "2 \<le> length (frames (map align_region (take (unat n) mm)))"
    and "pfa_init m mbinfo kmem fs_paddr fs_size s = Some (s', 0)"
    and "b = unat (div_ceil (pf_len (pfa_st s')) 8)" and "unat (pf_start (pfa_st s')) + b < 2 ^ 32"
  shows "pfa_inv (pfa_st s') \<and>
         managed_frames (pfa_st s') \<subseteq> of_nat ` set (frames (map align_region (take (unat n) mm))) \<and>
         (\<forall>k. k < unat (pf_len (pfa_st s')) \<and> bitmap_byte k < b \<longrightarrow>
            (free_at (pfa_st s') k \<longleftrightarrow> bitmap_byte k < b - 1 \<or> k mod 8 < unat (pf_len (pfa_st s')) mod 8))"
proof -
  obtain v p es' where h: "pfa_st s' = set_bitmap v (div_ceil (pf_len p) 8) p" "mmap_used p = es'" "mmap_ok 0x100000 es'"
      "unat (pf_len p) = length (frames es')" "pf_len p \<noteq> 0" "length (frames es') < 2 ^ 20"
      "set (frames es') \<subseteq> set (frames (map align_region (take (unat n) mm)))"
    using pfa_init_result [OF assms(1-4)] by blast
  have "mmap_used (pfa_st s') = es'" using h(1,2) by (simp add: mmap_used_def)
  moreover from this have "pfa_inv (pfa_st s')" using h by (simp add: pfa_inv_def)
  moreover have "free_at (pfa_st s') k \<longleftrightarrow> bitmap_byte k < b - 1 \<or> k mod 8 < unat (pf_len p) mod 8"
    if "k < unat (pf_len p)" "bitmap_byte k < b" for k
    using free_at_set_bitmap [of k "div_ceil (pf_len p) 8" v p] that h assms(5,6) by simp
  ultimately show ?thesis using h managed_frames_eq [of "pfa_st s'"] by (auto simp: image_mono)
qed

theorem pfa_init_correct_witness:
  "\<exists>s'. pfa_init boot_info 0x9000 boot_meminfo 0x120000 0x1000 boot_paging = Some (s', 0) \<and>
     pfa_inv (pfa_st s') \<and> free_at (pfa_st s') 0 \<and> free_at (pfa_st s') 63"
proof -
  let ?f = "fill_memory_map boot_info 0x9000 boot_meminfo 0x120000 0x1000 (mmap (pfa_st boot_paging))"
  have "map_option (\<lambda>(mm, n). (take 1 mm, n)) ?f = Some ([\<lparr>mm_addr = 0x200000, mm_len = 0x48000\<rparr>], 1)"
    by code_simp
  then obtain mm where mm: "?f = Some (mm, 1)" "take 1 mm = [\<lparr>mm_addr = 0x200000, mm_len = 0x48000\<rparr>]" by auto
  have "map_option (\<lambda>(s, r). (pf_start (pfa_st s), pf_len (pfa_st s), r))
      (pfa_init boot_info 0x9000 boot_meminfo 0x120000 0x1000 boot_paging) = Some (0xC0001000, 71, 0)"
    by code_simp
  then obtain s' where s': "pfa_init boot_info 0x9000 boot_meminfo 0x120000 0x1000 boot_paging = Some (s', 0)"
      "pf_start (pfa_st s') = 0xC0001000" "pf_len (pfa_st s') = 71" by auto
  have es: "map align_region (take (unat (1 :: u32)) mm) = [\<lparr>mm_addr = 0x200000, mm_len = 0x48000\<rparr>]"
    using mm(2) by (simp add: align_region_def align_up_def align_down_def)
  have b: "9 = unat (div_ceil (pf_len (pfa_st s')) 8)" unfolding s'(3) by (simp add: div_ceil_def)
  have "unat (pf_start (pfa_st s')) + 9 < 2 ^ 32" unfolding s'(2) by simp
  note r = pfa_init_correct [OF mm(1) _ _ s'(1) b this, unfolded es]
  have "pfa_inv (pfa_st s')" using r by (simp add: region_frames_def)
  moreover have fr: "\<forall>k. k < 71 \<and> bitmap_byte k < 9 \<longrightarrow> (free_at (pfa_st s') k \<longleftrightarrow> bitmap_byte k < 8 \<or> k mod 8 < 7)"
    using r s'(3) by (simp add: region_frames_def)
  moreover have "free_at (pfa_st s') 0" "free_at (pfa_st s') 63"
    using fr [rule_format, of 0] fr [rule_format, of 63] by (simp_all add: bitmap_byte_def)
  ultimately show ?thesis using s'(1) by blast
qed

text \<open>What \<open>fill_memory_map\<close> makes of a machine with one available region \<open>[addr, addr + len)\<close> that
  starts with the kernel, when the boot loader has put the file system behind the kernel: because the
  length is reduced by the physical end of the kernel instead of the part in front of it, the file
  system is only cut out when it ends before \<open>len\<close>; otherwise one region from the kernel to \<open>len\<close> is
  entered, with the frames of the file system in it. And because the length is not reduced when it is cut out, the
  second region reaches past the end of the memory as soon as the file system ends more than \<open>addr\<close>
  behind the kernel.\<close>

lemma fill_memory_map_kernel_region:
  assumes "mb_flags m mbinfo AND 0x20 \<noteq> 0" and "mb_mmap_addr m mbinfo = a" and "mb_mmap_length m mbinfo = 24"
    and "a < a + 24" and "me_size m a = 20" and "me_type m a = 1" and "me_addr m a = addr" and "me_len m a = len"
    and "addr \<le> kernel_physical_start kmem" and "kernel_physical_end kmem = k" and "0x100000 < k" and "k \<le> len"
    and "unat addr + unat len < 2 ^ 32" and "k < addr + len" and "k < fs" and "unat fs + unat fsz < unat addr + unat len"
    and "2 \<le> length mm"
  shows "fill_memory_map m mbinfo kmem fs fsz mm =
           (if fs + fsz < len
            then Some (mm[0 := \<lparr>mm_addr = k, mm_len = fs - k\<rparr>, 1 := \<lparr>mm_addr = fs + fsz, mm_len = len - k\<rparr>], 2)
            else Some (mm[0 := \<lparr>mm_addr = k, mm_len = len - k\<rparr>], 1)) \<and>
         (unat (fs + fsz) + unat (len - k) \<le> unat addr + unat len \<longleftrightarrow> unat (fs + fsz) \<le> unat addr + unat k)"
proof
  have stop: "fill_memory_map_loop m kmem fs fsz (a + 24) (24 + a) mmi = Some mmi" for mmi
    by (subst fill_memory_map_loop.simps) (simp add: add.commute)
  have "fill_entry kmem fs fsz addr len (mm, 0) =
      (if fs + fsz < len
       then Some (mm[0 := \<lparr>mm_addr = k, mm_len = fs - k\<rparr>, 1 := \<lparr>mm_addr = fs + fsz, mm_len = len - k\<rparr>], 2)
       else Some (mm[0 := \<lparr>mm_addr = k, mm_len = len - k\<rparr>], 1))"
    using assms by (auto simp: fill_entry_def Let_def put_region_def)
  then show "fill_memory_map m mbinfo kmem fs fsz mm =
           (if fs + fsz < len
            then Some (mm[0 := \<lparr>mm_addr = k, mm_len = fs - k\<rparr>, 1 := \<lparr>mm_addr = fs + fsz, mm_len = len - k\<rparr>], 2)
            else Some (mm[0 := \<lparr>mm_addr = k, mm_len = len - k\<rparr>], 1))"
    using assms(1-8)
    by (simp add: fill_memory_map_def fill_memory_map_loop.simps [of _ _ _ _ _ a] stop)
  have "unat (fs + fsz) = unat fs + unat fsz" using assms(13,16) by (simp add: unat_add_nowrap)
  moreover have "unat (len - k) = unat len - unat k" "unat k \<le> unat len"
    using assms(12) by (simp_all add: unat_sub_nowrap word_le_nat_alt)
  ultimately show "unat (fs + fsz) + unat (len - k) \<le> unat addr + unat len \<longleftrightarrow> unat (fs + fsz) \<le> unat addr + unat k"
    by linarith
qed

end
