(* ===== verification/Descriptors.thy ===== *)
theory Descriptors
  imports Prelude
begin

text \<open>
  The descriptor tables (\<open>gdt.c\<close>, \<open>idt.c\<close>) and what the processor reads from them: the fields of a segment
  descriptor and of a gate, spread over the bytes of an entry as the hardware defines them.
\<close>

section \<open>Segments\<close>

record gdt_entry =
  limit_low :: u16
  base_low :: u16
  base_mid :: u8
  access :: u8
  granularity :: u8
  base_high :: u8

record gdt_ptr =
  gdt_limit :: u16
  gdt_base :: u32

abbreviation (input) SEGMENT_BASE :: u32 where "SEGMENT_BASE \<equiv> 0"
abbreviation (input) SEGMENT_LIMIT :: u32 where "SEGMENT_LIMIT \<equiv> 0xFFFFF"
abbreviation (input) CODE_RX_TYPE :: u8 where "CODE_RX_TYPE \<equiv> 0xA"
abbreviation (input) DATA_RW_TYPE :: u8 where "DATA_RW_TYPE \<equiv> 0x2"
abbreviation (input) PL0 :: u8 where "PL0 \<equiv> 0"
abbreviation (input) PL3 :: u8 where "PL3 \<equiv> 3"
abbreviation (input) TSS_SEGSEL :: u16 where "TSS_SEGSEL \<equiv> 40"
abbreviation (input) SIZEOF_TSS :: u16 where "SIZEOF_TSS \<equiv> 104"

definition gdt_create_entry :: "u32 \<Rightarrow> u8 \<Rightarrow> u8 \<Rightarrow> (u32 \<Rightarrow> gdt_entry) \<Rightarrow> u32 \<Rightarrow> gdt_entry" where
  "gdt_create_entry n pl type g = g(n := (g n)
     \<lparr>base_low := ucast (SEGMENT_BASE AND 0xFFFF),
      base_mid := ucast (drop_bit 16 SEGMENT_BASE AND 0xFF),
      base_high := ucast (drop_bit 24 SEGMENT_BASE AND 0xFF),
      limit_low := ucast (SEGMENT_LIMIT AND 0xFFFF),
      granularity := granularity (g n) OR (push_bit 7 1 OR push_bit 6 1 OR 0x0F),
      access := push_bit 7 1 OR push_bit 5 (pl AND 3) OR push_bit 4 1 OR (type AND 0x0F)\<rparr>)"

definition gdt_create_tss_entry :: "u32 \<Rightarrow> u32 \<Rightarrow> (u32 \<Rightarrow> gdt_entry) \<Rightarrow> u32 \<Rightarrow> gdt_entry" where
  "gdt_create_tss_entry n tss_vaddr g = g(n := (g n)
     \<lparr>base_low := ucast (tss_vaddr AND 0xFFFF),
      base_mid := ucast (drop_bit 16 tss_vaddr AND 0xFF),
      base_high := ucast (drop_bit 24 tss_vaddr AND 0xFF),
      limit_low := SIZEOF_TSS - 1,
      access := push_bit 7 1 OR push_bit 3 1 OR 1,
      granularity := 0\<rparr>)"

text \<open>The entries, the pointer for \<open>lgdt\<close> and the selector for \<open>ltr\<close>; \<open>entries\<close> is the address of the table.\<close>

definition gdt_init :: "u32 \<Rightarrow> u32 \<Rightarrow> (u32 \<Rightarrow> gdt_entry) \<Rightarrow> (u32 \<Rightarrow> gdt_entry) \<times> gdt_ptr \<times> u16" where
  "gdt_init entries tss_vaddr g =
     (let p = \<lparr>gdt_limit = 8 * 6, gdt_base = entries\<rparr>;
          g = gdt_create_entry 0 0 0 g;
          g = gdt_create_entry 1 PL0 CODE_RX_TYPE g;
          g = gdt_create_entry 2 PL0 DATA_RW_TYPE g;
          g = gdt_create_entry 3 PL3 CODE_RX_TYPE g;
          g = gdt_create_entry 4 PL3 DATA_RW_TYPE g;
          g = gdt_create_tss_entry 5 tss_vaddr g
      in (g, p, TSS_SEGSEL))"

section \<open>Gates\<close>

record idt_gate =
  handler_low :: u16
  segsel :: u16
  zero :: u8
  config :: u8
  handler_high :: u16

abbreviation (input) IDT_TRAP_GATE_TYPE :: u8 where "IDT_TRAP_GATE_TYPE \<equiv> 1"

definition create_idt_gate :: "u8 \<Rightarrow> u32 \<Rightarrow> u8 \<Rightarrow> u8 \<Rightarrow> (u8 \<Rightarrow> idt_gate) \<Rightarrow> u8 \<Rightarrow> idt_gate" where
  "create_idt_gate n handler type pl t = t(n := (t n)
     \<lparr>handler_low := ucast (handler AND 0x0000FFFF),
      handler_high := ucast (drop_bit 16 handler AND 0x0000FFFF),
      segsel := ucast SEGSEL_KERNEL_CS,
      zero := 0,
      config := push_bit 7 1 OR push_bit 5 (pl AND 3) OR push_bit 3 1 OR push_bit 2 1 OR push_bit 1 1 OR type\<rparr>)"

text \<open>\<open>interrupt_handler_n\<close> and \<open>handle_syscall\<close> are labels of \<open>interrupt_asm.s\<close>: their addresses are given.\<close>

definition idt_vectors :: "u8 list" where
  "idt_vectors = [0, 1, 2, 3, 4, 5, 6, 7, 8, 9, 10, 11, 12, 13, 14, 15, 16, 17, 18, 19,
     32, 33, 34, 35, 36, 37, 38, 39, 40, 41, 42, 43, 44, 45, 46, 47]"

definition idt_init :: "(u8 \<Rightarrow> u32) \<Rightarrow> u32 \<Rightarrow> (u8 \<Rightarrow> idt_gate) \<Rightarrow> u8 \<Rightarrow> idt_gate" where
  "idt_init interrupt_handler_label handle_syscall_label t =
     create_idt_gate 0xAE handle_syscall_label IDT_TRAP_GATE_TYPE PL3
       (fold (\<lambda>n. create_idt_gate n (interrupt_handler_label n) IDT_TRAP_GATE_TYPE PL0) idt_vectors t)"

section \<open>What the processor reads\<close>

definition seg_base :: "gdt_entry \<Rightarrow> u32" where
  "seg_base e = ucast (base_low e) OR push_bit 16 (ucast (base_mid e)) OR push_bit 24 (ucast (base_high e))"

text \<open>The last offset of the segment: the limit counts pages when bit 7 of the granularity is set.\<close>

definition seg_last :: "gdt_entry \<Rightarrow> nat" where
  "seg_last e =
     (let l = unat (ucast (limit_low e) OR push_bit 16 (ucast (granularity e AND 0x0F)) :: u32)
      in if bit (granularity e) 7 then 4096 * l + 4095 else l)"

record segment =
  seg_present :: bool
  seg_dpl :: u8
  seg_system :: bool
  seg_executable :: bool
  seg_writable :: bool
  seg_32bit :: bool

definition segment_of :: "gdt_entry \<Rightarrow> segment" where
  "segment_of e = \<lparr>seg_present = bit (access e) 7, seg_dpl = drop_bit 5 (access e) AND 3, seg_system = (\<not> bit (access e) 4),
     seg_executable = bit (access e) 3, seg_writable = (bit (access e) 1 \<and> \<not> bit (access e) 3), seg_32bit = bit (granularity e) 6\<rparr>"

definition gate_offset :: "idt_gate \<Rightarrow> u32" where
  "gate_offset t = ucast (handler_low t) OR push_bit 16 (ucast (handler_high t))"

definition gate_dpl :: "idt_gate \<Rightarrow> u8" where
  "gate_dpl t = drop_bit 5 (config t) AND 3"

text \<open>A present 32-bit trap gate.\<close>

definition trap_gate :: "idt_gate \<Rightarrow> bool" where
  "trap_gate t \<longleftrightarrow> bit (config t) 7 \<and> config t AND 0x1F = 0x0F"

lemma field_masks: "(0xFFFF :: u32) = mask 16" "(0xFF :: u32) = mask 8"
  by (simp_all add: mask_eq_exp_minus_1)

lemma split_word: "(ucast (ucast (a AND 0xFFFF :: u32) :: u16) :: u32) OR push_bit 16 (ucast (ucast (drop_bit 16 a AND 0xFFFF) :: u16)) = a"
  unfolding field_masks by (rule bit_word_eqI) (auto simp: bit_simps)

lemma split_base:
  "(ucast (ucast (a AND 0xFFFF :: u32) :: u16) :: u32) OR push_bit 16 (ucast (ucast (drop_bit 16 a AND 0xFF) :: u8)) OR
     push_bit 24 (ucast (ucast (drop_bit 24 a AND 0xFF) :: u8)) = a"
  unfolding field_masks
proof (rule bit_word_eqI)
  fix n assume "n < LENGTH(32)"
  then consider "n < 16" | "16 \<le> n" "n < 24" | "24 \<le> n" "n < 32" by fastforce
  then show "bit ((ucast (ucast (a AND mask 16 :: u32) :: u16) :: u32) OR push_bit 16 (ucast (ucast (drop_bit 16 a AND mask 8) :: u8)) OR
     push_bit 24 (ucast (ucast (drop_bit 24 a AND mask 8) :: u8))) n = bit a n"
    by cases (auto simp: bit_simps)
qed

lemma create_gate_fold:
  assumes "distinct ns"
  shows "fold (\<lambda>n. create_idt_gate n (h n) ty pl) ns t m = (if m \<in> set ns then create_idt_gate m (h m) ty pl t m else t m)"
  using assms by (induction ns arbitrary: t) (auto simp: create_idt_gate_def)

section \<open>Properties\<close>


text \<open>After \<open>idt_init\<close> the gates of the exceptions 0 to 19 and of the interrupts 32 to 47 are present trap
  gates into the kernel's code segment to their own handlers, usable by the hardware only; the gate \<open>0xAE\<close> leads
  to \<open>handle_syscall\<close> and may be used by user programs; the other gates are as they were.\<close>

lemma idt_init_gates:
  "let t' = idt_init labels sc t in
   if n = 0xAE then trap_gate (t' n) \<and> gate_offset (t' n) = sc \<and> gate_dpl (t' n) = 3 \<and> segsel (t' n) = ucast SEGSEL_KERNEL_CS
   else if n \<le> 19 \<or> 32 \<le> n \<and> n \<le> 47 then trap_gate (t' n) \<and> gate_offset (t' n) = labels n \<and> gate_dpl (t' n) = 0 \<and> segsel (t' n) = ucast SEGSEL_KERNEL_CS
   else t' n = t n"
proof -
  have d: "distinct idt_vectors" by (simp add: idt_vectors_def)
  have "map unat idt_vectors = [0..<20] @ [32..<48]" by code_simp
  then have "set (map unat idt_vectors) = set ([0..<20] @ [32..<48])" by simp
  then have "n \<in> set idt_vectors \<longleftrightarrow> unat n \<in> set ([0..<20] @ [32..<48])" by (metis imageE imageI list.set_map word_unat_eq_iff)
  also have "\<dots> \<longleftrightarrow> n \<le> 19 \<or> 32 \<le> n \<and> n \<le> 47" unfolding set_append set_upt by (auto simp: word_le_nat_alt)
  finally have v: "n \<in> set idt_vectors \<longleftrightarrow> n \<le> 19 \<or> 32 \<le> n \<and> n \<le> 47" .
  have g: "trap_gate (create_idt_gate m h 1 pl u m)" "gate_offset (create_idt_gate m h 1 pl u m) = h"
      "segsel (create_idt_gate m h 1 pl u m) = ucast SEGSEL_KERNEL_CS" if "pl = 0 \<or> pl = 3" for m h u and pl :: u8
    using that by (auto simp: create_idt_gate_def trap_gate_def gate_offset_def split_word)
  have p: "gate_dpl (create_idt_gate m h 1 0 u m) = 0" "gate_dpl (create_idt_gate m h 1 3 u m) = 3" for m h u
    by (simp_all add: create_idt_gate_def gate_dpl_def)
  have "idt_init labels sc t n = (if n = 0xAE then create_idt_gate n sc 1 3 (fold (\<lambda>n. create_idt_gate n (labels n) 1 0) idt_vectors t) n
     else if n \<in> set idt_vectors then create_idt_gate n (labels n) 1 0 t n else t n)"
    using create_gate_fold [OF d, of labels 1 0 t n] by (simp add: idt_init_def) (simp add: create_idt_gate_def)
  then show ?thesis unfolding Let_def using g p by (cases "n = 0xAE") (simp_all only: v if_True if_False simp_thms split: if_splits)
qed

end
