(* ===== verification/Kmain.thy ===== *)
theory Kmain
  imports Pfa_Init Scheduler Descriptors
begin

text \<open>
  The entry of the kernel (\<open>kmain.c\<close>): \<open>kinit\<close> brings the components up in order, \<open>start_init\<close> creates the
  first process and gives the processor to it. The loader (\<open>loader.s\<close>) calls \<open>kmain\<close> with the address of the
  structures of the boot loader, its magic number, the limits of the kernel and the addresses of its page
  directory and page table.
\<close>

section \<open>State\<close>

text \<open>The state of the kernel and the tables of the processor.\<close>

record machine =
  mc_kernel :: kernel
  mc_gdt :: "u32 \<Rightarrow> gdt_entry"
  mc_gdtr :: gdt_ptr
  mc_tr :: u16
  mc_idt :: "u8 \<Rightarrow> idt_gate"

text \<open>The addresses the linker gives to the static variables \<open>gdt_entries\<close> and \<open>tss\<close> and to the entry points of
  the interrupt handlers.\<close>

record layout =
  gdt_entries_addr :: u32
  tss_addr :: u32
  interrupt_handler_label :: "u8 \<Rightarrow> u32"
  handle_syscall_label :: u32

definition on_kernel :: "(kernel \<Rightarrow> kernel) \<Rightarrow> machine \<Rightarrow> machine" where
  "on_kernel f mc = mc\<lparr>mc_kernel := f (mc_kernel mc)\<rparr>"

definition literal :: "string \<Rightarrow> u8 list" where
  "literal s = map of_char s"

section \<open>Helpers\<close>

text \<open>The result is the address and, through the pointer, the size.\<close>

definition get_fs_paddr :: "mem \<Rightarrow> u32 \<Rightarrow> u32 \<times> u32" where
  "get_fs_paddr m mbinfo =
     (if mb_flags m mbinfo AND 0x8 \<noteq> 0 then
        (if mb_mods_count m mbinfo \<noteq> 1 then (0, 0)
         else (let module = mb_mods_addr m mbinfo
               in (load32 m module, load32 m (module + 4) - load32 m module)))
      else (0, 0))"

text \<open>\<open>fb_get_vnode\<close> (\<open>fb.c\<close>) and \<open>kbd_get_vnode\<close> (\<open>keyboard.c\<close>), after the initialisation of the two devices.\<close>

definition fb_get_vnode :: "vnode \<Rightarrow> vnode \<times> int" where
  "fb_get_vnode out = (out\<lparr>v_op := Fb_vnodeops, v_data := 123456\<rparr>, 0)"

definition kbd_get_vnode :: "vnode \<Rightarrow> vnode \<times> int" where
  "kbd_get_vnode out = (out\<lparr>v_op := Kbd_vnodeops, v_data := 0\<rparr>, 0)"

definition upd_devfs :: "(devfs \<Rightarrow> devfs) \<Rightarrow> kernel \<Rightarrow> kernel" where
  "upd_devfs f s = s\<lparr>k_fs := (k_fs s)\<lparr>fs_devfs := f (fs_devfs (k_fs s))\<rparr>\<rparr>"

definition upd_vfs :: "(vfs_state \<Rightarrow> vfs_state) \<Rightarrow> kernel \<Rightarrow> kernel" where
  "upd_vfs f s = s\<lparr>k_fs := (k_fs s)\<lparr>fs_vfs := f (fs_vfs (k_fs s))\<rparr>\<rparr>"

definition k_add_device :: "kernel \<Rightarrow> cstring \<Rightarrow> u32 \<Rightarrow> (kernel \<times> int) option" where
  "k_add_device s name device =
     do { (d, h, r) \<leftarrow> devfs_add_device (fs_devfs (k_fs s)) (k_heap s) (Some name) device;
          Some (upd_devfs (\<lambda>_. d) (s\<lparr>k_heap := h\<rparr>), r) }"

definition k_vfs_mount :: "kernel \<Rightarrow> cstring \<Rightarrow> u32 \<Rightarrow> (kernel \<times> int) option" where
  "k_vfs_mount s path vfs =
     do { (v, h, r) \<leftarrow> vfs_mount (fs_vfs (k_fs s)) (k_heap s) path vfs;
          Some (upd_vfs (\<lambda>_. v) (s\<lparr>k_heap := h\<rparr>), r) }"

abbreviation (input) SIZEOF_VNODE_T :: u32 where "SIZEOF_VNODE_T \<equiv> 8"
abbreviation (input) SIZEOF_VFS_T :: u32 where "SIZEOF_VFS_T \<equiv> 16"

definition add_device :: "kernel \<Rightarrow> cstring \<Rightarrow> (vnode \<Rightarrow> vnode \<times> int) \<Rightarrow> (kernel \<times> u32) option" where
  "add_device s name get_vnode =
     do { (s, device) \<leftarrow> k_kmalloc s SIZEOF_VNODE_T;
          if device = 0 then Some (s, 1) else
          let (v, err) = get_vnode (dev_vnodes (fs_devfs (k_fs s)) device);
              s = upd_devfs (\<lambda>d. d\<lparr>dev_vnodes := (dev_vnodes d)(device := v)\<rparr>) s in
          if err \<noteq> 0 then Some (s, 1) else
          do { (s, r) \<leftarrow> k_add_device s name device; Some (s, 0) } }"

definition populate_devfs :: "kernel \<Rightarrow> (kernel \<times> u32) option" where
  "populate_devfs s =
     do { (s, devfs) \<leftarrow> k_kmalloc s SIZEOF_VFS_T;
          if devfs = 0 then Some (s, 1) else
          let (d, v, r) = devfs_init (fs_devfs (k_fs s)) (vfss (fs_vfs (k_fs s)) devfs);
              s = upd_vfs (set_vfs devfs v) (upd_devfs (\<lambda>_. d) s) in
          do { (s, r) \<leftarrow> add_device s (literal ''console'') fb_get_vnode;
               (s, r) \<leftarrow> add_device s (literal ''keyboard'') kbd_get_vnode;
               (s, r) \<leftarrow> k_vfs_mount s (literal ''/dev/'') devfs;
               Some (s, 0) } }"

section \<open>Initialisation of the devices\<close>

definition k_kbd_init :: "kernel \<Rightarrow> kernel" where
  "k_kbd_init s =
     (let (s, r) = register_interrupt_handler 0x21 Keyboard_handler s in s\<lparr>k_kbd := kbd_init (k_kbd s)\<rparr>)"

definition serial_init :: "u16 \<Rightarrow> kernel \<Rightarrow> kernel" where
  "serial_init com s =
     (let s = s\<lparr>k_io := serial_init_ports com (k_io s)\<rparr>;
          (s, r) = register_interrupt_handler 0x24 Serial_com1_handler s;
          (s, r) = register_interrupt_handler 0x23 Serial_com2_handler s
      in s)"

definition k_pfa_init :: "kernel \<Rightarrow> u32 \<Rightarrow> kernel_meminfo \<Rightarrow> u32 \<Rightarrow> u32 \<Rightarrow> (kernel \<times> u32) option" where
  "k_pfa_init s mbinfo kmem fs_addr fs_len =
     do { (pg, r) \<leftarrow> pfa_init (view s) mbinfo kmem fs_addr fs_len (k_paging s); Some (set_paging pg s, r) }"

definition k_aefs_init :: "kernel \<Rightarrow> u32 \<Rightarrow> u32 \<Rightarrow> u32 \<Rightarrow> (kernel \<times> u32) option" where
  "k_aefs_init s fs_addr fs_len vfs =
     do { (pg, fs, v, r) \<leftarrow> aefs_init (\<lambda>pg. view (set_paging pg s)) (k_paging s) (fs_aefs (k_fs s)) fs_addr fs_len
                               (vfss (fs_vfs (k_fs s)) vfs);
          let s = set_paging pg s;
              s = s\<lparr>k_fs := (k_fs s)\<lparr>fs_aefs := fs\<rparr>\<rparr> in
          Some (upd_vfs (set_vfs vfs v) s, r) }"

section \<open>kinit\<close>

datatype kinit_error = Load_fs | Init_fs | Init_paging | Init_pfa | Malloc_root_vfs | Init_vfs | Init_scheduler

text \<open>The first part sets up the processor and the devices, the second memory, files and the scheduler. \<open>Inl\<close> is an
  early return with an error code.\<close>

definition kinit_devices :: "layout \<Rightarrow> machine \<Rightarrow> machine" where
  "kinit_devices l mc =
     (let (g, p, tr) = gdt_init (gdt_entries_addr l) (tss_addr l) (mc_gdt mc);
          mc = mc\<lparr>mc_gdt := g, mc_gdtr := p, mc_tr := tr\<rparr>;
          mc = mc\<lparr>mc_idt := idt_init (interrupt_handler_label l) (handle_syscall_label l) (mc_idt mc)\<rparr>;
          mc = on_kernel (\<lambda>s. s\<lparr>k_io := pic_init (k_io s)\<rparr>) mc;
          mc = on_kernel k_kbd_init mc;
          mc = on_kernel (serial_init COM1) mc
      in on_kernel (\<lambda>s. s\<lparr>k_io := pit_init (k_io s)\<rparr>) mc)"

definition kinit_memory :: "kernel_meminfo \<Rightarrow> u32 \<Rightarrow> u32 \<Rightarrow> u32 \<Rightarrow> u32 \<Rightarrow> u32 \<Rightarrow> kernel \<Rightarrow> (kernel \<times> kinit_error option) option" where
  "kinit_memory kmem mbinfo fs_addr fs_len kernel_pdt_vaddr kernel_pt_vaddr s =
     (let (pg, res) = paging_init (k_paging s) kernel_pdt_vaddr kernel_pt_vaddr;
          s = set_paging pg s in
      if res \<noteq> 0 then Some (s, Some Init_paging) else
      do { (s, res) \<leftarrow> k_pfa_init s mbinfo kmem fs_addr fs_len;
           if res \<noteq> 0 then Some (s, Some Init_pfa) else
           do { (s, aefs_vfs) \<leftarrow> k_kmalloc s SIZEOF_VFS_T;
                if aefs_vfs = 0 then Some (s, Some Malloc_root_vfs) else
                do { (s, res) \<leftarrow> k_aefs_init s fs_addr fs_len aefs_vfs;
                     if res \<noteq> 0 then Some (s, Some Init_fs) else
                     do { (s, res) \<leftarrow> k_vfs_mount s (literal ''/'') aefs_vfs;
                          if res \<noteq> 0 then Some (s, Some Init_vfs) else
                          do { (s, r) \<leftarrow> populate_devfs s;
                               (s, res) \<leftarrow> scheduler_init s;
                               if res \<noteq> 0 then Some (s, Some Init_scheduler)
                               else Some (enable_interrupts s, None) } } } } })"

definition kinit :: "layout \<Rightarrow> kernel_meminfo \<Rightarrow> u32 \<Rightarrow> u32 \<Rightarrow> u32 \<Rightarrow> machine \<Rightarrow> (machine \<times> kinit_error option) option" where
  "kinit l kmem mbinfo kernel_pdt_vaddr kernel_pt_vaddr mc =
     (let mc = on_kernel disable_interrupts mc;
          (fs_addr, fs_len) = get_fs_paddr (view (mc_kernel mc)) mbinfo in
      if fs_addr = 0 \<and> fs_len = 0 then Some (mc, Some Load_fs) else
      let mc = kinit_devices l mc in
      do { (s, e) \<leftarrow> kinit_memory kmem mbinfo fs_addr fs_len kernel_pdt_vaddr kernel_pt_vaddr (mc_kernel mc);
           Some (mc\<lparr>mc_kernel := s\<rparr>, e) })"

section \<open>kmain\<close>

definition remap_multiboot_info :: "kernel \<Rightarrow> u32 \<Rightarrow> (kernel \<times> u32) option" where
  "remap_multiboot_info s mbaddr =
     (let mbinfo = PHYSICAL_TO_VIRTUAL mbaddr in
      do { s \<leftarrow> store_word (mbinfo + 48) (PHYSICAL_TO_VIRTUAL (mb_mmap_addr (view s) mbinfo)) s;
           s \<leftarrow> store_word (mbinfo + 24) (PHYSICAL_TO_VIRTUAL (mb_mods_addr (view s) mbinfo)) s;
           Some (s, mbinfo) })"

definition k_printf :: "string \<Rightarrow> va list \<Rightarrow> kernel \<Rightarrow> kernel option" where
  "k_printf fmt args s = do { fb \<leftarrow> printf (literal fmt @ [10]) args (k_fb s); Some (s\<lparr>k_fb := fb\<rparr>) }"

definition start_init :: "kernel \<Rightarrow> kernel option" where
  "start_init s =
     do { pid \<leftarrow> scheduler_next_pid s;
          (s, init) \<leftarrow> process_create s (literal ''/bin/init'') pid;
          if init = 0 then k_printf ''ERROR: Could not create init!'' [] s
          else do { (s, r) \<leftarrow> scheduler_add_runnable_process s init; Some (scheduler_schedule s) } }"

fun error_message :: "kinit_error \<Rightarrow> string" where
  "error_message Load_fs = ''ERROR: Could not load filesystem!''"
| "error_message Init_fs = ''ERROR: Could not initialize filesystem!''"
| "error_message Init_paging = ''ERROR: Could not initialize paging!''"
| "error_message Init_pfa = ''ERROR: Could not initialize page frame allocator!''"
| "error_message Malloc_root_vfs = ''ERROR: Could not allocate VFS node for root FS!''"
| "error_message Init_vfs = ''ERROR: Could not initialize virtual filesystem!''"
| "error_message Init_scheduler = ''ERROR: Could not initialize scheduler!''"

abbreviation (input) MULTIBOOT_BOOTLOADER_MAGIC :: u32 where "MULTIBOOT_BOOTLOADER_MAGIC \<equiv> 0x2BADB002"

text \<open>The value is what \<open>kmain\<close> returns to the loader; with \<open>k_cpu\<close> other than \<open>In_kernel\<close> the processor has left
  for a process and the return is not reached.\<close>

definition kmain :: "layout \<Rightarrow> u32 \<Rightarrow> u32 \<Rightarrow> kernel_meminfo \<Rightarrow> u32 \<Rightarrow> u32 \<Rightarrow> machine \<Rightarrow> (machine \<times> u32) option" where
  "kmain l mbaddr magic_number kmem kernel_pdt_vaddr kernel_pt_vaddr mc =
     do { (s, mbinfo) \<leftarrow> remap_multiboot_info (mc_kernel mc) mbaddr;
          let mc = mc\<lparr>mc_kernel := s\<lparr>k_fb := fb_clear (k_fb s)\<rparr>\<rparr> in
          if magic_number \<noteq> MULTIBOOT_BOOTLOADER_MAGIC then
            do { s \<leftarrow> k_printf ''ERROR: magic number is wrong!'' [] (mc_kernel mc);
                 s \<leftarrow> k_printf ''magic_number: %u'' [Word magic_number] s;
                 Some (mc\<lparr>mc_kernel := s\<rparr>, 0xDEADDEAD) }
          else
            do { (mc, res) \<leftarrow> kinit l kmem mbinfo kernel_pdt_vaddr kernel_pt_vaddr mc;
                 case res of
                   Some e \<Rightarrow> do { s \<leftarrow> k_printf (error_message e) [] (mc_kernel mc); Some (mc\<lparr>mc_kernel := s\<rparr>, 0xDEADDEAD) }
                 | None \<Rightarrow> do { s \<leftarrow> start_init (mc_kernel mc); Some (mc\<lparr>mc_kernel := s\<rparr>, 0xDEADBEEF) } } }"

end
