(* ===== verification/Process_Create.thy ===== *)
theory Process_Create
  imports Scheduler_Correct
begin

text \<open>
  A process built by \<open>process_create\<close> (\<open>process.c\<close>): what its fields hold when it is handed to the scheduler, and
  that nothing else of the kernel's tables has changed on the way.
\<close>

section \<open>Computations that end in one update\<close>

text \<open>Every successful result (code \<open>0\<close>) comes from a state that differs from \<open>s\<close> in memory only, by a step in \<open>G\<close>.\<close>

definition lands :: "kernel \<Rightarrow> (kernel \<Rightarrow> kernel \<Rightarrow> bool) \<Rightarrow> (kernel \<times> int) option \<Rightarrow> bool" where
  "lands s G m \<longleftrightarrow> (\<forall>s'. m = Some (s', 0) \<longrightarrow> (\<exists>t. mem_frame s t \<and> G t s'))"

lemma landsD: "lands s G m \<Longrightarrow> m = Some (s', 0) \<Longrightarrow> \<exists>t. mem_frame s t \<and> G t s'"
  by (simp add: lands_def)

lemma lands_if: "(b \<Longrightarrow> lands s G m) \<Longrightarrow> (\<not> b \<Longrightarrow> lands s G m') \<Longrightarrow> lands s G (if b then m else m')"
  by simp

lemma lands_error: "lands s G (Some (t, - 1))"
  by (simp add: lands_def)

lemma lands_Some: "G t s' \<Longrightarrow> mem_frame s t \<Longrightarrow> lands s G (Some (s', 0))"
  by (auto simp: lands_def)

lemma mem_frame_write_back: "write_back s m b n = Some s' \<Longrightarrow> mem_frame s s'"
proof (induction n arbitrary: s b)
  case (Suc n)
  then obtain m' where "write_back (s\<lparr>k_phys := m'\<rparr>) m (b + 1) n = Some s'" by (auto split: Option.bind_splits)
  from mem_frame_trans [OF mem_frame_phys Suc.IH [OF this]] show ?case .
qed simp

lemma mem_frame_vfs_lookup: "k_vfs_lookup s path res = Some (s', x) \<Longrightarrow> mem_frame s s'"
  by (auto simp: k_vfs_lookup_def mem_frame_heap split: Option.bind_splits)

lemma mem_frame_vfs_read: "k_vfs_read s v buf n = Some (s', x) \<Longrightarrow> mem_frame s s'"
  by (auto simp: k_vfs_read_def split: Option.bind_splits dest: mem_frame_write_back)

lemma lands_bind:
  assumes "\<And>u x. m = Some (u, x) \<Longrightarrow> lands s G (F u x)"
  shows "lands s G (Option.bind m (\<lambda>(u, x). F u x))"
  using assms by (cases m) (auto simp: lands_def)

lemma lands_bind1:
  assumes "\<And>u. m = Some u \<Longrightarrow> lands s G (F u)"
  shows "lands s G (Option.bind m F)"
  using assms by (cases m) (auto simp: lands_def)

lemma lands_memory:
  assumes t: "mem_frame s t" and F: "\<And>u x. mem_frame s u \<Longrightarrow> lands s G (F u x)"
  shows "lands s G (case k_pfa_allocate t n of (u, x) \<Rightarrow> F u x)" "lands s G (case k_find_vaddr t n of (u, x) \<Rightarrow> F u x)"
    "lands s G (Option.bind (k_map_kernel t p v n) (\<lambda>(u, x). F u x))" "lands s G (Option.bind (k_map_user t d p v n) (\<lambda>(u, x). F u x))"
    "lands s G (Option.bind (k_kmalloc t n) (\<lambda>(u, x). F u x))"
proof -
  have st: "lands s G (F u x)" if "mem_frame t u" for u x using F mem_frame_trans [OF t that] by blast
  show "lands s G (case k_pfa_allocate t n of (u, x) \<Rightarrow> F u x)" "lands s G (case k_find_vaddr t n of (u, x) \<Rightarrow> F u x)"
    by (auto split: prod.split intro!: st dest: mem_frames(1,3))
  show "lands s G (Option.bind (k_map_kernel t p v n) (\<lambda>(u, x). F u x))" "lands s G (Option.bind (k_map_user t d p v n) (\<lambda>(u, x). F u x))"
    "lands s G (Option.bind (k_kmalloc t n) (\<lambda>(u, x). F u x))"
    by (rule lands_bind, rule st, erule mem_frames)+
qed

lemma lands_read:
  assumes t: "mem_frame s t" and F: "\<And>u r. mem_frame s u \<Longrightarrow> lands s G (F u r)"
  shows "lands s G (Option.bind (k_vfs_read t node v n) (\<lambda>(u, r). F u r))"
  by (rule lands_bind, rule F, rule mem_frame_trans [OF t], erule mem_frame_vfs_read)

lemma lands_unmap:
  assumes "mem_frame s t" and "\<And>u. mem_frame s u \<Longrightarrow> lands s G (F u)"
  shows "lands s G (Option.bind (k_unmap_kernel t v n) F)"
  by (rule lands_bind1, rule assms(2), rule mem_frame_trans [OF assms(1)], erule mem_frames(6))

lemma lands_lookup:
  assumes "mem_frame s t" and "\<And>u v e. mem_frame s u \<Longrightarrow> lands s G (F u v e)"
  shows "lands s G (Option.bind (k_vfs_lookup t path res) (\<lambda>(u, v, e). F u v e))"
proof (cases "k_vfs_lookup t path res")
  case (Some y)
  then obtain u v e where "y = (u, v, e)" by (cases y)
  then show ?thesis using Some assms mem_frame_trans [OF assms(1) mem_frame_vfs_lookup] by simp
qed (simp add: lands_def)

lemma lands_value: "(\<And>x y. lands s G (F x y)) \<Longrightarrow> lands s G (case p of (x, y) \<Rightarrow> F x y)"
  by (cases p) simp

lemmas lands_rules = lands_if lands_error lands_memory(1-5) lands_unmap

section \<open>The parts of a process\<close>

lemma process_load_code_lands:
  "lands s (\<lambda>t s'. \<exists>e x l. s' = upd_ps c (\<lambda>p. p\<lparr>code_paddrs := l, ps_user_mode := (ps_user_mode p)\<lparr>r_eip := v\<rparr>, code_start_vaddr := v\<rparr>)
       (set_pe e x t)) (process_load_code s c path v)"
  unfolding process_load_code_def Let_def
  by (intro lands_rules lands_lookup lands_read lands_value lands_Some mem_frame_refl exI; (rule refl)?) assumption+

lemma process_load_stack_lands:
  "lands s (\<lambda>t s'. \<exists>e x l. s' = upd_ps c (\<lambda>p. p\<lparr>stack_paddrs := l, stack_start_vaddr := PROC_INITIAL_STACK_VADDR,
       ps_user_mode := (ps_user_mode p)\<lparr>r_esp := PROC_INITIAL_ESP\<rparr>\<rparr>) (set_pe e x t)) (process_load_stack s c)"
  unfolding process_load_stack_def Let_def
  by (intro lands_rules lands_Some mem_frame_refl exI; (rule refl)?) assumption+

lemma process_load_kernel_stack_lands:
  "lands s (\<lambda>t s'. \<exists>e x l v. s' = upd_ps c (\<lambda>p. p\<lparr>kernel_stack_paddrs := l, kernel_stack_start_vaddr := v\<rparr>) (set_pe e x t))
     (process_load_kernel_stack s c)"
  unfolding process_load_kernel_stack_def Let_def
  by (intro lands_rules lands_Some mem_frame_refl exI; (rule refl)?) assumption+

lemma process_load_pdt_lands:
  "lands s (\<lambda>t s'. \<exists>d a. s' = upd_ps c (\<lambda>p. p\<lparr>ps_pdt := d, ps_pdt_paddr := a\<rparr>) t) (process_load_pdt s c)"
proof -
  have "mem_frame s (set_paging pg s)" for pg unfolding set_paging_def by (rule mem_frame_heap)
  then show ?thesis by (auto simp: lands_def process_load_pdt_def Let_def split: Option.bind_splits if_splits)
qed

section \<open>The whole process\<close>

text \<open>The registers a new process starts with: at address 0, at the top of its stack, in user mode, with interrupts on.\<close>

definition start_registers :: registers where
  "start_registers = \<lparr>r_eax = 0, r_ebx = 0, r_ecx = 0, r_edx = 0, r_ebp = 0, r_esi = 0, r_edi = 0,
     r_ss = 0x23, r_esp = 0xBFFFFFFC, r_eflags = 0x202, r_cs = 0x1B, r_eip = 0\<rparr>"

text \<open>What building the process \<open>c\<close> leaves alone.\<close>

definition others_kept :: "u32 \<Rightarrow> kernel \<Rightarrow> kernel \<Rightarrow> bool" where
  "others_kept c s s' \<longleftrightarrow> (\<forall>q. q \<noteq> c \<longrightarrow> k_ps s' q = k_ps s q) \<and> k_ele s' = k_ele s \<and> runnable_pss s' = runnable_pss s \<and>
     zombie_pss s' = zombie_pss s \<and> k_cpu s' = k_cpu s \<and> k_fs s' = k_fs s \<and> interrupt_handlers s' = interrupt_handlers s"

lemma others_kept_trans: "others_kept c s s' \<Longrightarrow> others_kept c s' s'' \<Longrightarrow> others_kept c s s''"
  by (simp add: others_kept_def)

lemma others_kept_mem: "mem_frame s t \<Longrightarrow> others_kept c s t \<and> k_ps t = k_ps s"
  by (auto simp: mem_frame_def others_kept_def)

lemma others_kept_step:
  "mem_frame s t \<Longrightarrow> others_kept c s (upd_ps c f (set_pe e x t)) \<and> k_ps (upd_ps c f (set_pe e x t)) c = f (k_ps s c)"
  "mem_frame s t \<Longrightarrow> others_kept c s (upd_ps c f t) \<and> k_ps (upd_ps c f t) c = f (k_ps s c)"
  by (auto simp: mem_frame_def others_kept_def upd_ps_def set_pe_def)

lemma process_create_result:
  assumes "process_create s path i = Some (s', p)" and "p \<noteq> 0"
  shows "others_kept p s s'" and "ps_id (k_ps s' p) = i" and "ps_parent_id (k_ps s' p) = 0"
    and "file_descriptors (k_ps s' p) = replicate 64 0" and "ps_user_mode (k_ps s' p) = start_registers"
    and "ps_current (k_ps s' p) = start_registers"
proof -
  obtain s1 s2 s3 s4 s5 where k: "k_kmalloc s SIZEOF_PS = Some (s1, p)" "process_load_pdt (upd_ps p (process_init i) s1) p = Some (s2, 0)"
      "process_load_code s2 p path 0 = Some (s3, 0)" "process_load_stack s3 p = Some (s4, 0)"
      "process_load_kernel_stack s4 p = Some (s5, 0)" "s' = upd_ps p (\<lambda>q. q\<lparr>ps_current := ps_user_mode q\<rparr>) s5"
    using assms unfolding process_create_def by (auto split: Option.bind_splits if_splits)
  have c1: "others_kept p s (upd_ps p (process_init i) s1)" "k_ps (upd_ps p (process_init i) s1) p = process_init i (k_ps s p)"
    using others_kept_step(2) [OF mem_frames(7) [OF k(1)]] by blast+
  from landsD [OF process_load_pdt_lands k(2)] obtain t2 d a
    where t2: "mem_frame (upd_ps p (process_init i) s1) t2" "s2 = upd_ps p (\<lambda>p. p\<lparr>ps_pdt := d, ps_pdt_paddr := a\<rparr>) t2" by blast
  note c2 = others_kept_step(2) [OF t2(1), where c = p and f = "\<lambda>p. p\<lparr>ps_pdt := d, ps_pdt_paddr := a\<rparr>", folded t2(2)]
  from landsD [OF process_load_code_lands k(3)] obtain t3 e x l where t3: "mem_frame s2 t3"
      "s3 = upd_ps p (\<lambda>p. p\<lparr>code_paddrs := l, ps_user_mode := (ps_user_mode p)\<lparr>r_eip := 0\<rparr>, code_start_vaddr := 0\<rparr>) (set_pe e x t3)" by blast
  note c3 = others_kept_step(1) [OF t3(1), where c = p and e = e and x = x
      and f = "\<lambda>p. p\<lparr>code_paddrs := l, ps_user_mode := (ps_user_mode p)\<lparr>r_eip := 0\<rparr>, code_start_vaddr := 0\<rparr>", folded t3(2)]
  from landsD [OF process_load_stack_lands k(4)] obtain t4 e x l where t4: "mem_frame s3 t4"
      "s4 = upd_ps p (\<lambda>p. p\<lparr>stack_paddrs := l, stack_start_vaddr := PROC_INITIAL_STACK_VADDR,
         ps_user_mode := (ps_user_mode p)\<lparr>r_esp := PROC_INITIAL_ESP\<rparr>\<rparr>) (set_pe e x t4)" by blast
  note c4 = others_kept_step(1) [OF t4(1), where c = p and e = e and x = x and f = "\<lambda>p. p\<lparr>stack_paddrs := l,
         stack_start_vaddr := PROC_INITIAL_STACK_VADDR, ps_user_mode := (ps_user_mode p)\<lparr>r_esp := PROC_INITIAL_ESP\<rparr>\<rparr>", folded t4(2)]
  from landsD [OF process_load_kernel_stack_lands k(5)] obtain t5 e x l v where t5: "mem_frame s4 t5"
      "s5 = upd_ps p (\<lambda>p. p\<lparr>kernel_stack_paddrs := l, kernel_stack_start_vaddr := v\<rparr>) (set_pe e x t5)" by blast
  note c5 = others_kept_step(1) [OF t5(1), where c = p and e = e and x = x
      and f = "\<lambda>p. p\<lparr>kernel_stack_paddrs := l, kernel_stack_start_vaddr := v\<rparr>", folded t5(2)]
  have c6: "others_kept p s5 s' \<and> k_ps s' p = (k_ps s5 p)\<lparr>ps_current := ps_user_mode (k_ps s5 p)\<rparr>"
    unfolding k(6) by (rule others_kept_step(2) [OF mem_frame_refl])
  show "others_kept p s s'"
    by (rule others_kept_trans [OF c1(1) others_kept_trans [OF conjunct1 [OF c2] others_kept_trans [OF conjunct1 [OF c3]
          others_kept_trans [OF conjunct1 [OF c4] others_kept_trans [OF conjunct1 [OF c5] conjunct1 [OF c6]]]]]])
  show "ps_id (k_ps s' p) = i" "ps_parent_id (k_ps s' p) = 0" "file_descriptors (k_ps s' p) = replicate 64 0"
    "ps_user_mode (k_ps s' p) = start_registers" "ps_current (k_ps s' p) = start_registers"
    unfolding conjunct2 [OF c6] conjunct2 [OF c5] conjunct2 [OF c4] conjunct2 [OF c3] conjunct2 [OF c2] c1(2)
    by (simp_all add: process_init_def zero_registers_def start_registers_def)
qed

end
