(* ===== verification/Kmain_Correct.thy ===== *)
theory Kmain_Correct
  imports Kmain Process_Create
begin

text \<open>
  The kernel after its initialisation: the devices are mounted and found under their paths, the errors of the
  boot sequence are reported, and the first process gets the processor.
\<close>

section \<open>A heap with room\<close>

text \<open>The heap grants requests of these sizes, one after the other.\<close>

fun grants :: "kheap \<Rightarrow> u32 list \<Rightarrow> bool" where
  "grants h [] \<longleftrightarrow> True"
| "grants h (n # ns) \<longleftrightarrow> (case kmalloc h n of None \<Rightarrow> False | Some (h', p) \<Rightarrow> p \<noteq> 0 \<and> grants h' ns)"

lemma grants_prefix: "grants h (ns @ ms) \<Longrightarrow> grants h ns"
  by (induction h ns rule: grants.induct) (auto split: option.splits)

lemma k_kmalloc_granted:
  assumes "grants (k_heap s) (n # ns)" and "k_kmalloc s n = Some (s', p)"
  shows "p \<noteq> 0" and "grants (k_heap s') ns"
  using assms by (auto simp: k_kmalloc_def split: option.splits Option.bind_splits)

declare grants.simps(2) [simp del]

section \<open>The devices\<close>

text \<open>The table of devices: names with the vnodes they stand for, all in live heap blocks.\<close>

definition devtab :: "kernel \<Rightarrow> u32 set \<Rightarrow> u32 list \<Rightarrow> (cstring \<times> vnode) list \<Rightarrow> bool" where
  "devtab s P as vs \<longleftrightarrow>
     (let d = fs_devfs (k_fs s) in devfs_ok d (k_heap s) P as \<and> snd ` set (dev_names d as) \<subseteq> P \<and>
        vs = map (\<lambda>(n, p). (n, dev_vnodes d p)) (dev_names d as))"

lemma devtab_lookup:
  assumes "devtab s P as vs"
  shows "devfs_lookup (fs_devfs (k_fs s)) (Some name) out =
    Some (case map_of vs name of Some v \<Rightarrow> (v, 0) | None \<Rightarrow> (out, - 1))"
proof -
  have c: "dev_chain (fs_devfs (k_fs s)) (devices (fs_devfs (k_fs s))) as"
    using assms by (simp add: devtab_def devfs_ok_def Let_def)
  have "map_of vs name = map_option (dev_vnodes (fs_devfs (k_fs s))) (map_of (dev_names (fs_devfs (k_fs s)) as) name)"
    using assms by (simp add: devtab_def Let_def map_of_map)
  then show ?thesis unfolding devfs_lookup_result [OF c] by (simp split: option.split)
qed

text \<open>What the registration of a device leaves alone.\<close>

definition fs_kept :: "kernel \<Rightarrow> kernel \<Rightarrow> bool" where
  "fs_kept s s' \<longleftrightarrow> fs_vfs (k_fs s') = fs_vfs (k_fs s) \<and> fs_aefs (k_fs s') = fs_aefs (k_fs s) \<and>
     devfs_root_vnode (fs_devfs (k_fs s')) = devfs_root_vnode (fs_devfs (k_fs s))"

lemma devfs_add_root: "devfs_add_device d h path node = Some (d', h', r) \<Longrightarrow> devfs_root_vnode d' = devfs_root_vnode d"
  by (auto simp: devfs_add_device_def Let_def split: option.splits if_splits Option.bind_splits)

lemma devfs_add_granted:
  assumes "dev_chain d (devices d) as" and "path \<notin> fst ` set (dev_names d as)" and "path \<noteq> []"
    and "grants h ((of_nat (length path) + 1) # 12 # ns)"
  shows "\<exists>d' h'. devfs_add_device d h (Some path) node = Some (d', h', 0) \<and> grants h' ns"
proof -
  have "List.find (\<lambda>a. di_name (devfs_inodes d a) = path) as = None"
    using assms(2) by (force simp: dev_names_def find_None_iff)
  then have "devfs_find d (devices d) path = Some 0" using devfs_find_chain [OF assms(1)] by simp
  then show ?thesis using assms(3,4) by (auto simp: devfs_add_device_def Let_def grants.simps(2) split: option.splits)
qed

lemma dev_chain_vnodes [simp]: "dev_chain (d\<lparr>dev_vnodes := f\<rparr>) = dev_chain d"
proof (intro ext)
  show "dev_chain (d\<lparr>dev_vnodes := f\<rparr>) p as = dev_chain d p as" for p as
    by (induction as arbitrary: p) auto
qed

lemma add_device_result:
  assumes tab: "devtab s P as vs" and name: "name \<noteq> []" "length name < 0x3FFFF8" and gv: "\<And>x. gv x = (v, 0)"
  shows "\<exists>s' r P' as' vs'. add_device s name gv = Some (s', r) \<and> devtab s' P' as' vs' \<and> P \<subseteq> P' \<and> fs_kept s s' \<and>
     (vs' = vs \<or> name \<notin> fst ` set vs \<and> vs' = take 1 vs @ [(name, v)]) \<and>
     (name \<notin> fst ` set vs \<and> grants (k_heap s) (8 # (of_nat (length name) + 1) # 12 # ns) \<longrightarrow>
        vs' = take 1 vs @ [(name, v)] \<and> grants (k_heap s') ns)"
proof -
  have inv: "kheap_inv (k_heap s) P" and sub: "snd ` set (dev_names (fs_devfs (k_fs s)) as) \<subseteq> P"
    and vs: "vs = map (\<lambda>(n, p). (n, dev_vnodes (fs_devfs (k_fs s)) p)) (dev_names (fs_devfs (k_fs s)) as)"
    and ok: "devfs_ok (fs_devfs (k_fs s)) (k_heap s) P as"
    using tab by (simp_all add: devtab_def devfs_ok_def Let_def)
  have l: "(8 :: u32) \<le> 0x3FFFF8" by simp
  show ?thesis
  proof (rule k_kmalloc_cases [OF inv l])
    fix s1
    assume s1: "k_kmalloc s 8 = Some (s1, 0)" "s1 = s\<lparr>k_heap := k_heap s1\<rparr>" "kheap_inv (k_heap s1) P"
    from s1(2) have fs: "k_fs s1 = k_fs s" by (metis kernel.ext_inject kernel.surjective kernel.update_convs(1))
    have "add_device s name gv = Some (s1, 1)" using s1(1) by (simp add: add_device_def)
    moreover have "devtab s1 P as vs" using ok sub vs s1(3) by (simp add: devtab_def devfs_ok_def fs Let_def)
    moreover have "fs_kept s s1" by (simp add: fs_kept_def fs)
    moreover have "\<not> grants (k_heap s) (8 # (of_nat (length name) + 1) # 12 # ns)" using k_kmalloc_granted(1) s1(1) by blast
    ultimately show ?thesis by blast
  next
    fix s1 p
    assume s1: "k_kmalloc s 8 = Some (s1, p)" "s1 = s\<lparr>k_heap := k_heap s1\<rparr>" "p \<noteq> 0" "p \<notin> P" "kheap_inv (k_heap s1) (insert p P)"
    from s1(2) have fs: "k_fs s1 = k_fs s" by (metis kernel.ext_inject kernel.surjective kernel.update_convs(1))
    define d where "d = (fs_devfs (k_fs s))\<lparr>dev_vnodes := (dev_vnodes (fs_devfs (k_fs s)))(p := v)\<rparr>"
    define s2 where "s2 = upd_devfs (\<lambda>_. d) s1"
    have d: "dev_names d as = dev_names (fs_devfs (k_fs s)) as" "dev_chain d = dev_chain (fs_devfs (k_fs s))"
      "devices d = devices (fs_devfs (k_fs s))" "devfs_root_vnode d = devfs_root_vnode (fs_devfs (k_fs s))"
      by (simp_all add: d_def dev_names_def dev_chain_vnodes)
    have s2: "fs_devfs (k_fs s2) = d" "k_heap s2 = k_heap s1" by (simp_all add: s2_def upd_devfs_def)
    have ok2: "devfs_ok d (k_heap s2) (insert p P) as" using ok s1(5) d s2 by (auto simp: devfs_ok_def)
    have old: "map (\<lambda>(n, q). (n, dev_vnodes d q)) (dev_names d as) = vs"
      unfolding vs d(1) using sub s1(4) by (intro map_cong) (auto simp: d_def)
    have run: "add_device s name gv = Option.bind (devfs_add_device d (k_heap s2) (Some name) p)
        (\<lambda>(d', h, r). Some (upd_devfs (\<lambda>_. d') (s2\<lparr>k_heap := h\<rparr>), 0))"
    proof -
      have upd: "upd_devfs (\<lambda>e. e\<lparr>dev_vnodes := (dev_vnodes e)(p := v)\<rparr>) s1 = s2"
        by (simp add: s2_def upd_devfs_def d_def fs)
      show ?thesis
        using s1(1,3) by (cases "devfs_add_device d (k_heap s2) (Some name) p") (auto simp: add_device_def k_add_device_def gv upd s2(1))
    qed
    have out: "fs_kept s (upd_devfs (\<lambda>_. d') (s2\<lparr>k_heap := h\<rparr>))" if "devfs_root_vnode d' = devfs_root_vnode d" for d' h
      using that d(4) by (simp add: fs_kept_def upd_devfs_def s2_def fs)
    have granted: "\<exists>d' h'. devfs_add_device d (k_heap s2) (Some name) p = Some (d', h', 0) \<and> grants h' ns"
      if "name \<notin> fst ` set vs \<and> grants (k_heap s) (8 # (of_nat (length name) + 1) # 12 # ns)"
    proof -
      have "name \<notin> fst ` set (dev_names d as)" using that old by force
      moreover have "grants (k_heap s2) ((of_nat (length name) + 1) # 12 # ns)"
        using that k_kmalloc_granted(2) [OF _ s1(1)] s2(2) by simp
      moreover have "dev_chain d (devices d) as" using ok2 by (simp add: devfs_ok_def)
      ultimately show ?thesis using devfs_add_granted name(1) by blast
    qed
    have same: ?thesis if "devfs_add_device d (k_heap s2) (Some name) p = Some (d, h, - 1)" "kheap_inv h (insert p P)" for h
    proof -
      have "\<not> (name \<notin> fst ` set vs \<and> grants (k_heap s) (8 # (of_nat (length name) + 1) # 12 # ns))"
        using granted that(1) by auto
      then
      have no: "\<not> (name \<notin> fst ` set vs \<and> grants (k_heap s) (8 # (of_nat (length name) + 1) # 12 # ns))" .
      let ?s = "upd_devfs (\<lambda>_. d) (s2\<lparr>k_heap := h\<rparr>)"
      have "devtab ?s (insert p P) as vs"
        using ok2 that(2) sub old d(1) by (auto simp: devtab_def devfs_ok_def upd_devfs_def)
      moreover have "add_device s name gv = Some (?s, 0)" using run that(1) by simp
      ultimately show ?thesis using out [of d h] no by blast
    qed
    from ok2 name show ?thesis
    proof (cases rule: devfs_add_result [where node = p])
      case refused
      with same ok2 show ?thesis by (simp add: devfs_ok_def)
    next
      case (no_memory h)
      with same show ?thesis by blast
    next
      case (added d' h P' as')
      let ?s = "upd_devfs (\<lambda>_. d') (s2\<lparr>k_heap := h\<rparr>)"
      have nm: "name \<notin> fst ` set vs" using added(6) old by force
      have new: "map (\<lambda>(n, q). (n, dev_vnodes d' q)) (dev_names d' as') = take 1 vs @ [(name, v)]"
        unfolding added(4,5) old [symmetric] by (simp add: take_map d_def)
      have "set (take 1 (dev_names d as)) \<subseteq> set (dev_names d as)" by (rule set_take_subset)
      then have "snd ` set (dev_names d' as') \<subseteq> P'"
        using added(3,4) sub d(1) by auto
      then have "devtab ?s P' as' (take 1 vs @ [(name, v)])"
        using added(2) new by (simp add: devtab_def upd_devfs_def)
      moreover have "add_device s name gv = Some (?s, 0)" using run added(1) by simp
      moreover have "P \<subseteq> P'" using added(3) by blast
      moreover have "grants (k_heap ?s) ns"
        if "name \<notin> fst ` set vs \<and> grants (k_heap s) (8 # (of_nat (length name) + 1) # 12 # ns)"
        using granted [OF that] added(1) by (auto simp: upd_devfs_def)
      ultimately show ?thesis using out [OF devfs_add_root [OF added(1)]] nm by blast
    qed
  qed
qed

section \<open>Mounting them\<close>

lemma common_len_append [simp]: "common_len (p @ q) p = length p"
  by (induction p) simp_all

lemma split_path_single: "name \<noteq> [] \<Longrightarrow> SLASH \<notin> set name \<Longrightarrow> split_path name = [name]"
proof -
  assume n: "name \<noteq> []" "SLASH \<notin> set name"
  then have "takeWhile (\<lambda>c. c \<noteq> SLASH) name = name" "dropWhile (\<lambda>c. c \<noteq> SLASH) name = []" by (auto simp: takeWhile_eq_all_conv dropWhile_eq_Nil_conv)
  moreover have "split_path [] = []" by (subst split_path.simps) simp
  ultimately show ?thesis using n(1) by (subst split_path.simps) (simp only: list.sel if_False)
qed

lemma literal_length [simp]: "length (literal cs) = length cs" "literal cs = [] \<longleftrightarrow> cs = []"
  by (simp_all add: literal_def)

text \<open>The vnodes of the two devices.\<close>

definition console_vnode :: vnode where "console_vnode = \<lparr>v_op = Fb_vnodeops, v_data = 123456\<rparr>"
definition keyboard_vnode :: vnode where "keyboard_vnode = \<lparr>v_op = Kbd_vnodeops, v_data = 0\<rparr>"

lemma get_vnodes: "fb_get_vnode x = (console_vnode, 0)" "kbd_get_vnode x = (keyboard_vnode, 0)"
  by (cases x; simp add: fb_get_vnode_def kbd_get_vnode_def console_vnode_def keyboard_vnode_def)+

text \<open>A kernel with the root file system mounted and no device yet, as \<open>kinit\<close> hands it to \<open>populate_devfs\<close>.\<close>

definition root_mounted :: "kernel \<Rightarrow> u32 set \<Rightarrow> u32 \<Rightarrow> bool" where
  "root_mounted s P r \<longleftrightarrow> kheap_inv (k_heap s) P \<and> r \<in> P \<and> devices (fs_devfs (k_fs s)) = 0 \<and>
     vfs_chain (fs_vfs (k_fs s)) (vfs_list (fs_vfs (k_fs s))) [r] \<and> mount_path (vfss (fs_vfs (k_fs s)) r) = literal ''/''"

lemma populate_devfs_result:
  assumes root: "root_mounted s P r"
  obtains (no_memory) s' where "populate_devfs s = Some (s', 1)" "\<not> grants (k_heap s) [16, 8, 8, 12, 8, 9, 12, 6]"
  | (mounted) s' P' as vs v where "populate_devfs s = Some (s', 0)" "devtab s' P' as vs"
      "vfs_chain (fs_vfs (k_fs s')) (vfs_list (fs_vfs (k_fs s'))) [r, v]" "mount_path (vfss (fs_vfs (k_fs s')) r) = literal ''/''"
      "mount_path (vfss (fs_vfs (k_fs s')) v) = literal ''/dev/''" "vfs_op (vfss (fs_vfs (k_fs s')) v) = Devfs_vfsops"
      "v_op (devfs_root_vnode (fs_devfs (k_fs s'))) = Devfs_vnodeops"
      "\<exists>c k. vs = (if c then [(literal ''console'', console_vnode)] else []) @ (if k then [(literal ''keyboard'', keyboard_vnode)] else []) \<and>
         (grants (k_heap s) [16, 8, 8, 12, 8, 9, 12, 6] \<longrightarrow> c \<and> k)"
proof -
  note inv = root [unfolded root_mounted_def, THEN conjunct1]
  have l: "(16 :: u32) \<le> 0x3FFFF8" by simp
  show thesis
  proof (rule k_kmalloc_cases [OF inv l])
    fix s1
    assume s1: "k_kmalloc s 16 = Some (s1, 0)"
    then have "\<not> grants (k_heap s) [16, 8, 8, 12, 8, 9, 12, 6]" using k_kmalloc_granted(1) by blast
    with s1 show thesis by (intro no_memory [of s1]) (simp_all add: populate_devfs_def)
  next
    fix s1 v
    assume s1: "k_kmalloc s 16 = Some (s1, v)" "s1 = s\<lparr>k_heap := k_heap s1\<rparr>" "v \<noteq> 0" "v \<notin> P" "kheap_inv (k_heap s1) (insert v P)"
    from s1(2) have fs: "k_fs s1 = k_fs s" by (metis kernel.ext_inject kernel.surjective kernel.update_convs(1))
    define d w where "d = (fs_devfs (k_fs s))\<lparr>devfs_root_vnode := (devfs_root_vnode (fs_devfs (k_fs s)))\<lparr>v_op := Devfs_vnodeops\<rparr>\<rparr>"
      and "w = (vfss (fs_vfs (k_fs s)) v)\<lparr>vfs_op := Devfs_vfsops, vfs_data := 0\<rparr>"
    define s2 where "s2 = upd_vfs (set_vfs v w) (upd_devfs (\<lambda>_. d) s1)"
    have "devices d = 0" using root by (simp add: d_def root_mounted_def)
    then have "devtab s2 (insert v P) [] []"
      using s1(5) by (simp add: devtab_def devfs_ok_def s2_def upd_vfs_def upd_devfs_def dev_names_def)
    then obtain s3 r3 P3 as3 vs3 where a3: "add_device s2 (literal ''console'') fb_get_vnode = Some (s3, r3)" "devtab s3 P3 as3 vs3"
        "insert v P \<subseteq> P3" "fs_kept s2 s3" "vs3 = [] \<or> vs3 = [(literal ''console'', console_vnode)]"
        "grants (k_heap s2) [8, 8, 12, 8, 9, 12, 6] \<longrightarrow> vs3 = [(literal ''console'', console_vnode)] \<and> grants (k_heap s3) [8, 9, 12, 6]"
      using add_device_result [of s2 "insert v P" "[]" "[]" "literal ''console''" fb_get_vnode, OF _ _ _ get_vnodes(1), of "[8, 9, 12, 6]"]
      by auto
    obtain s4 r4 P4 as4 vs4 where a4: "add_device s3 (literal ''keyboard'') kbd_get_vnode = Some (s4, r4)" "devtab s4 P4 as4 vs4"
        "P3 \<subseteq> P4" "fs_kept s3 s4" "vs4 = vs3 \<or> vs4 = take 1 vs3 @ [(literal ''keyboard'', keyboard_vnode)]"
        "literal ''keyboard'' \<notin> fst ` set vs3 \<and> grants (k_heap s3) [8, 9, 12, 6] \<longrightarrow>
           vs4 = take 1 vs3 @ [(literal ''keyboard'', keyboard_vnode)]"
      using add_device_result [OF a3(2), of "literal ''keyboard''" kbd_get_vnode, OF _ _ get_vnodes(2), of "[6]"]
      by simp blast
    have fs4: "fs_vfs (k_fs s4) = set_vfs v w (fs_vfs (k_fs s))" "devfs_root_vnode (fs_devfs (k_fs s4)) = devfs_root_vnode d"
      using a3(4) a4(4) by (simp_all add: fs_kept_def s2_def upd_vfs_def upd_devfs_def fs)
    have vr: "v \<noteq> r" using root s1(4) by (auto simp: root_mounted_def)
    have ch: "vfs_chain (fs_vfs (k_fs s4)) (vfs_list (fs_vfs (k_fs s4))) [r]"
      using root vr by (auto simp: root_mounted_def fs4(1) set_vfs_def)
    have inv4: "kheap_inv (k_heap s4) P4" using a4(2) by (simp add: devtab_def devfs_ok_def Let_def)
    obtain m h where mt: "vfs_mount (fs_vfs (k_fs s4)) (k_heap s4) (literal ''/dev/'') v = Some (m, h, 0)"
        "vfs_chain m (vfs_list m) [r, v]" "mount_path (vfss m v) = literal ''/dev/''"
        "vfs_op (vfss m v) = vfs_op (vfss (fs_vfs (k_fs s4)) v)" "mount_path (vfss m r) = mount_path (vfss (fs_vfs (k_fs s4)) r)"
        "\<exists>P'. P4 \<subseteq> P' \<and> kheap_inv h P'"
      using vfs_mount_appends [OF ch _ _ s1(3) inv4, of "literal ''/dev/''"] vr by auto
    define s5 where "s5 = upd_vfs (\<lambda>_. m) (s4\<lparr>k_heap := h\<rparr>)"
    have run: "populate_devfs s = Some (s5, 0)"
      using s1(1,3) a3(1) a4(1) mt(1)
      by (simp add: populate_devfs_def devfs_init_def fs d_def [symmetric] w_def [symmetric] s2_def [symmetric]
        k_vfs_mount_def s5_def)
    obtain P5 where "P4 \<subseteq> P5" "kheap_inv h P5" using mt(6) by blast
    then have "devtab s5 P5 as4 vs4" using a4(2) by (auto simp: devtab_def devfs_ok_def s5_def upd_vfs_def Let_def)
    moreover have "\<exists>c k. vs4 = (if c then [(literal ''console'', console_vnode)] else []) @
        (if k then [(literal ''keyboard'', keyboard_vnode)] else []) \<and> (grants (k_heap s) [16, 8, 8, 12, 8, 9, 12, 6] \<longrightarrow> c \<and> k)"
    proof (rule exI [of _ "vs3 \<noteq> []"], rule exI [of _ "vs4 \<noteq> vs3"], intro conjI impI)
      assume g: "grants (k_heap s) [16, 8, 8, 12, 8, 9, 12, 6]"
      have "k_heap s2 = k_heap s1" by (simp add: s2_def upd_vfs_def upd_devfs_def)
      with k_kmalloc_granted(2) [OF g s1(1)] a3(6)
      have v3: "vs3 = [(literal ''console'', console_vnode)]" "grants (k_heap s3) [8, 9, 12, 6]" by simp_all
      then show "vs3 \<noteq> []" by simp
      have "literal ''keyboard'' \<noteq> literal ''console''" by (rule notI, drule arg_cong [of _ _ length]) simp
      with a4(6) v3 show "vs4 \<noteq> vs3" by auto
    qed (use a3(5) a4(5) in auto)
    moreover have "fs_vfs (k_fs s5) = m" "v_op (devfs_root_vnode (fs_devfs (k_fs s5))) = Devfs_vnodeops"
      by (simp_all add: s5_def upd_vfs_def fs4(2) d_def)
    moreover have "vfs_op (vfss m v) = Devfs_vfsops" "mount_path (vfss m r) = literal ''/''"
      using mt(4,5) vr root by (simp_all add: fs4(1) set_vfs_def w_def root_mounted_def)
    ultimately show thesis using run mt(2,3) mounted [of s5 P5 as4 vs4 v] by simp
  qed
qed

section \<open>Interrupts during the initialisation\<close>

text \<open>What setting up memory and file systems leaves alone.\<close>

definition quiet :: "kernel \<Rightarrow> kernel \<Rightarrow> bool" where
  "quiet s s' \<longleftrightarrow> interrupts_enabled s' = interrupts_enabled s \<and> interrupt_handlers s' = interrupt_handlers s \<and>
     k_io s' = k_io s \<and> k_kbd s' = k_kbd s \<and> k_cpu s' = k_cpu s \<and> runnable_pss s' = runnable_pss s \<and> zombie_pss s' = zombie_pss s"

lemma quiet_trans: "quiet s s' \<Longrightarrow> quiet s' s'' \<Longrightarrow> quiet s s''"
  by (simp add: quiet_def)

lemma quiet_refl [simp]: "quiet s s"
  by (simp add: quiet_def)

lemma quiet_updates [simp]:
  "quiet s (set_paging pg t) = quiet s t" "quiet s (upd_devfs f t) = quiet s t" "quiet s (upd_vfs g t) = quiet s t"
  "quiet s (t\<lparr>k_fs := x\<rparr>) = quiet s t" "quiet s (t\<lparr>k_heap := h\<rparr>) = quiet s t"
  by (simp_all add: quiet_def set_paging_def upd_devfs_def upd_vfs_def)

lemma quiet_kmalloc: "k_kmalloc s n = Some (s', p) \<Longrightarrow> quiet s s'"
  by (auto simp: k_kmalloc_def split: Option.bind_splits)

lemma quiet_init:
  "k_pfa_init s mb km a n = Some (s', r) \<Longrightarrow> quiet s s'" "k_aefs_init s a n v = Some (s', r) \<Longrightarrow> quiet s s'"
  "k_vfs_mount s path v = Some (s', i) \<Longrightarrow> quiet s s'" "k_add_device s name v = Some (s', i) \<Longrightarrow> quiet s s'"
  by (auto simp: k_pfa_init_def k_aefs_init_def k_vfs_mount_def k_add_device_def Let_def split: Option.bind_splits)

lemma quiet_add_device: "add_device s name gv = Some (s', r) \<Longrightarrow> quiet s s'"
proof -
  assume r: "add_device s name gv = Some (s', r)"
  obtain s1 d where k: "k_kmalloc s 8 = Some (s1, d)" using r by (auto simp: add_device_def split: Option.bind_splits)
  have q: "quiet s (upd_devfs f s1)" for f using quiet_kmalloc [OF k] by simp
  show ?thesis using r k quiet_kmalloc [OF k] q quiet_trans [OF q quiet_init(4)]
    by (auto simp: add_device_def Let_def split: Option.bind_splits if_splits prod.splits)
qed

lemma quiet_populate: "populate_devfs s = Some (s', r) \<Longrightarrow> quiet s s'"
proof -
  assume r: "populate_devfs s = Some (s', r)"
  obtain s1 v where k: "k_kmalloc s 16 = Some (s1, v)" using r by (auto simp: populate_devfs_def split: Option.bind_splits)
  note q = quiet_kmalloc [OF k]
  show ?thesis
  proof (cases "v = 0")
    case True
    with r k q show ?thesis by (simp add: populate_devfs_def)
  next
    case False
    then obtain s2 s3 s4 f g i j where a: "add_device (upd_vfs f (upd_devfs g s1)) (literal ''console'') fb_get_vnode = Some (s2, i)"
        "add_device s2 (literal ''keyboard'') kbd_get_vnode = Some (s3, j)" "k_vfs_mount s3 (literal ''/dev/'') v = Some (s', s4)"
      using r k by (auto simp: populate_devfs_def Let_def split: Option.bind_splits prod.splits)
    show ?thesis
      using q quiet_add_device [OF a(1)] quiet_add_device [OF a(2)] quiet_init(3) [OF a(3)] by (simp add: quiet_def upd_vfs_def upd_devfs_def)
  qed
qed

text \<open>\<open>kinit_memory\<close> up to the scheduler.\<close>

lemma kinit_memory_cases:
  assumes "kinit_memory kmem mb a n pd pt s = Some (s', e)"
  obtains (failed) "e \<noteq> None" "quiet s s'"
  | (scheduler) t where "quiet s t" "scheduler_init t = Some (s', 1)" "e = Some Init_scheduler"
  | (ready) t u where "quiet s t" "scheduler_init t = Some (u, 0)" "s' = enable_interrupts u" "e = None"
proof -
  define s0 where "s0 = set_paging (fst (paging_init (k_paging s) pd pt)) s"
  have q0: "quiet s s0" by (simp add: s0_def)
  have "Option.bind (k_pfa_init s0 mb kmem a n) (\<lambda>(s, res).
      if res \<noteq> 0 then Some (s, Some Init_pfa) else
      Option.bind (k_kmalloc s SIZEOF_VFS_T) (\<lambda>(s, aefs_vfs).
        if aefs_vfs = 0 then Some (s, Some Malloc_root_vfs) else
        Option.bind (k_aefs_init s a n aefs_vfs) (\<lambda>(s, res).
          if res \<noteq> 0 then Some (s, Some Init_fs) else
          Option.bind (k_vfs_mount s (literal ''/'') aefs_vfs) (\<lambda>(s, res).
            if res \<noteq> 0 then Some (s, Some Init_vfs) else
            Option.bind (populate_devfs s) (\<lambda>(s, r).
              Option.bind (scheduler_init s) (\<lambda>(s, res).
                if res \<noteq> 0 then Some (s, Some Init_scheduler) else Some (enable_interrupts s, None))))))) = Some (s', e)"
    using assms by (simp add: kinit_memory_def s0_def paging_init_def)
  note run = this
  from run obtain s1 r1 where 1: "k_pfa_init s0 mb kmem a n = Some (s1, r1)" by (auto split: Option.bind_splits)
  have q1: "quiet s s1" by (rule quiet_trans [OF q0 quiet_init(1) [OF 1]])
  show thesis
  proof (cases "r1 = 0")
    case False
    with run 1 q1 show ?thesis by (intro failed) auto
  next
    case True
    with run 1 obtain s2 v where 2: "k_kmalloc s1 SIZEOF_VFS_T = Some (s2, v)" by (auto split: Option.bind_splits)
    have q2: "quiet s s2" by (rule quiet_trans [OF q1 quiet_kmalloc [OF 2]])
    show ?thesis
    proof (cases "v = 0")
      case True
      with run 1 2 q2 \<open>r1 = 0\<close> show ?thesis by (intro failed) auto
    next
      case v: False
      with run 1 2 \<open>r1 = 0\<close> obtain s3 r3 where 3: "k_aefs_init s2 a n v = Some (s3, r3)" by (auto split: Option.bind_splits)
      have q3: "quiet s s3" by (rule quiet_trans [OF q2 quiet_init(2) [OF 3]])
      show ?thesis
      proof (cases "r3 = 0")
        case False
        with run 1 2 3 v q3 \<open>r1 = 0\<close> show ?thesis by (intro failed) auto
      next
        case r3: True
        with run 1 2 3 v \<open>r1 = 0\<close> obtain s4 r4 where 4: "k_vfs_mount s3 (literal ''/'') v = Some (s4, r4)" by (auto split: Option.bind_splits)
        have q4: "quiet s s4" by (rule quiet_trans [OF q3 quiet_init(3) [OF 4]])
        show ?thesis
        proof (cases "r4 = 0")
          case False
          with run 1 2 3 4 v r3 q4 \<open>r1 = 0\<close> show ?thesis by (intro failed) auto
        next
          case r4: True
          with run 1 2 3 4 v r3 \<open>r1 = 0\<close> obtain s5 r5 s6 r6 where 5: "populate_devfs s4 = Some (s5, r5)" "scheduler_init s5 = Some (s6, r6)"
            by (auto split: Option.bind_splits)
          have q5: "quiet s s5" by (rule quiet_trans [OF q4 quiet_populate [OF 5(1)]])
          have "r6 = 0 \<or> r6 = 1" using 5(2) by (auto simp: scheduler_init_def register_interrupt_handler_def split: Option.bind_splits if_splits)
          with run 1 2 3 4 5 v r3 r4 q5 \<open>r1 = 0\<close> show ?thesis
            using scheduler [of s5] ready [of s5 s6] by (auto split: if_splits)
        qed
      qed
    qed
  qed
qed

section \<open>The first process\<close>

lemma next_pid_empty: "queue Runnable s [] \<Longrightarrow> queue Zombie s [] \<Longrightarrow> scheduler_next_pid s = Some 1"
  by (auto simp: queue_def scheduler_next_pid_def max_id_in_ps_list_def max_id_loop.simps maxu_def)

lemma add_first_process:
  assumes q: "queue Runnable s []" and p: "p \<noteq> 0" and g: "grants (k_heap s) [8]"
  obtains s' e where "scheduler_add_runnable_process s p = Some (s', 0)" "queue Runnable s' [e]" "procs s' [e] = [p]" "k_ps s' = k_ps s"
proof -
  obtain s1 e where k: "k_kmalloc s SIZEOF_PS_LIST_ELE = Some (s1, e)"
    using g by (auto simp: grants.simps(2) k_kmalloc_def split: option.splits)
  have e: "e \<noteq> 0" by (rule k_kmalloc_granted(1) [OF g k])
  have f: "runnable_pss s1 = runnable_pss s" "k_ps s1 = k_ps s" using k by (auto simp: k_kmalloc_def split: Option.bind_splits)
  have z: "pss_start (runnable_pss s) = 0" using q by (simp add: queue_def)
  let ?s = "(set_ele e \<lparr>le_next = 0, le_ps = p\<rparr> s1)\<lparr>runnable_pss := \<lparr>pss_start = e, pss_end = e\<rparr>\<rparr>"
  have "scheduler_add_runnable_process s p = Some (?s, 0)"
    using k e f z by (simp add: scheduler_add_runnable_process_def scheduler_add_process_def Let_def set_ele_def)
  moreover have "queue Runnable ?s [e]" "procs ?s [e] = [p]" "k_ps ?s = k_ps s"
    using e p f by (simp_all add: queue_def procs_def set_ele_def)
  ultimately show thesis by (rule that)
qed

section \<open>Properties\<close>

text \<open>C12. When the heap grants the requests for memory that \<open>populate_devfs\<close> makes, the devices are reached through
  the virtual file system afterwards: \<open>/dev/console\<close> is the frame buffer, \<open>/dev/keyboard\<close> is the keyboard, and no other
  name is found in \<open>/dev/\<close>; the lookup gives its memory back.\<close>

theorem devices_mounted:
  assumes "root_mounted s P r" and "grants (k_heap s) [16, 8, 8, 12, 8, 9, 12, 6]"
  shows "\<exists>s' P'. populate_devfs s = Some (s', 0) \<and>
     (\<forall>name m res. name \<noteq> [] \<and> SLASH \<notin> set name \<and> length name < 1000 \<longrightarrow>
        (\<exists>h'. kheap_inv h' P' \<and> vfs_lookup (k_fs s') m (k_heap s') (literal ''/dev/'' @ name) res =
           Some (h', if name = literal ''console'' then (console_vnode, 0)
                     else if name = literal ''keyboard'' then (keyboard_vnode, 0) else (res, - 1))))"
  using assms(1)
proof (cases rule: populate_devfs_result)
  case (no_memory s')
  with assms(2) show ?thesis by blast
next
  case (mounted s' P' as vs v)
  let ?fs = "k_fs s'"
  have vs: "vs = [(literal ''console'', console_vnode), (literal ''keyboard'', keyboard_vnode)]" using mounted(8) assms(2) by auto
  have inv: "kheap_inv (k_heap s') P'" using mounted(2) by (simp add: devtab_def devfs_ok_def Let_def)
  have "\<exists>h'. kheap_inv h' P' \<and> vfs_lookup ?fs m (k_heap s') (literal ''/dev/'' @ name) res =
      Some (h', if name = literal ''console'' then (console_vnode, 0)
                else if name = literal ''keyboard'' then (keyboard_vnode, 0) else (res, - 1))"
    if n: "name \<noteq> []" "SLASH \<notin> set name" "length name < 1000" for name m res
  proof -
    let ?p = "literal ''/dev/'' @ name"
    have "common_len ?p (literal ''/'') = 1" by (simp add: literal_def)
    then have b: "best_mount (fs_vfs ?fs) ?p [r, v] None 0 = (Some v, 5)"
      using mounted(4,5) common_len_append [of "literal ''/dev/''" name] by (simp add: Let_def)
    have rt: "vfs_root ?fs (vfs_op (vfss (fs_vfs ?fs) v)) = Some (devfs_root_vnode (fs_devfs ?fs), 0)"
      using mounted(6) by (simp add: vfs_root_def devfs_root_def)
    have "hd ?p = SLASH" "drop 5 ?p = name" by (simp_all add: literal_def)
    moreover have "length ?p < 0x3FFFF8" using n(3) by simp
    ultimately obtain h' where h: "kheap_inv h' P'" "vfs_lookup ?fs m (k_heap s') ?p res =
        map_option (\<lambda>(r, ret). (h', r, ret)) (resolve (vn_lookup ?fs m) (devfs_root_vnode (fs_devfs ?fs)) res 0 (split_path name))"
      using vfs_lookup_result [OF mounted(3) inv _ b rt, of m res] n(1) by auto
    have "resolve (vn_lookup ?fs m) (devfs_root_vnode (fs_devfs ?fs)) res 0 (split_path name) =
        Some (case map_of vs name of Some v \<Rightarrow> (v, 0) | None \<Rightarrow> (res, - 1))"
      unfolding split_path_single [OF n(1,2)] using mounted(7) devtab_lookup [OF mounted(2), of name res]
      by (simp add: vn_lookup_def split: option.split)
    with h show ?thesis unfolding vs by auto
  qed
  with mounted(1) show ?thesis by blast
qed

definition root_vfs :: "u32 \<Rightarrow> vfs_state" where
  "root_vfs p = \<lparr>vfs_list = p, vfss = (\<lambda>_. \<lparr>vfs_next = 0, vfs_op = Aefs_vfsops, mount_path = literal ''/'', vfs_data = 0\<rparr>)\<rparr>"

theorem devices_mounted_witness:
  "\<exists>s s' h'. populate_devfs s = Some (s', 0) \<and>
     vfs_lookup (k_fs s') (\<lambda>_. 0) (k_heap s') (literal ''/dev/'' @ literal ''console'') keyboard_vnode = Some (h', console_vnode, 0)"
proof -
  have g: "grants example_kheap [16, 16, 8, 8, 12, 8, 9, 12, 6]" by code_simp
  obtain s1 p where k: "k_kmalloc boot_kernel 16 = Some (s1, p)" "p \<noteq> 0" "kheap_inv (k_heap s1) {p}"
    "grants (k_heap s1) [16, 8, 8, 12, 8, 9, 12, 6]"
  proof (rule k_kmalloc_cases [OF boot_kernel_heap, of 16])
    fix s1 assume "k_kmalloc boot_kernel 16 = Some (s1, 0)"
    with g k_kmalloc_granted(1) [of boot_kernel] show thesis by (force simp: boot_kernel_def)
  next
    fix s1 p assume "k_kmalloc boot_kernel 16 = Some (s1, p)" "p \<noteq> 0" "kheap_inv (k_heap s1) {p}"
    with g k_kmalloc_granted(2) [of boot_kernel] that show thesis by (force simp: boot_kernel_def)
  qed simp
  define s where "s = s1\<lparr>k_fs := example_fs\<lparr>fs_vfs := root_vfs p, fs_devfs := example_devfs\<rparr>\<rparr>"
  have "root_mounted s {p} p" using k(2,3) by (simp add: root_mounted_def s_def root_vfs_def example_devfs_def)
  moreover have "grants (k_heap s) [16, 8, 8, 12, 8, 9, 12, 6]" using k(4) by (simp add: s_def)
  ultimately obtain s' P' where "populate_devfs s = Some (s', 0)"
    and l: "\<forall>name m res. name \<noteq> [] \<and> SLASH \<notin> set name \<and> length name < 1000 \<longrightarrow>
        (\<exists>h'. kheap_inv h' P' \<and> vfs_lookup (k_fs s') m (k_heap s') (literal ''/dev/'' @ name) res =
           Some (h', if name = literal ''console'' then (console_vnode, 0)
                     else if name = literal ''keyboard'' then (keyboard_vnode, 0) else (res, - 1)))"
    using devices_mounted by blast
  moreover have "SLASH \<notin> set (literal ''console'')" by code_simp
  ultimately show ?thesis using l [rule_format, of "literal ''console''"] by fastforce
qed


text \<open>A kernel with two free frames, which the heap takes: no room for a page directory.\<close>

definition two_frame_kernel :: kernel where
  "two_frame_kernel = boot_kernel\<lparr>k_heap := example_kheap\<lparr>kpaging := example_paging\<lparr>pfa_st := example_pfa
     \<lparr>pf_mem := (\<lambda>_. 0)(0xC0500003 := 0xC0)\<rparr>\<rparr>\<rparr>\<rparr>"


text \<open>C14. Interrupts are off while the kernel initialises itself and on afterwards exactly when it succeeded. Then the
  handlers of the timer, of the keyboard and of the two serial ports are registered and no others, the gates of
  \<open>idt_init\<close> and the segments of \<open>gdt_init\<close> are in place, and the timer runs with an interval of 2 ms.\<close>

theorem kinit_interrupts:
  assumes "kinit l kmem mbinfo pd pt mc = Some (mc', e)" and "interrupt_handlers (mc_kernel mc) = (\<lambda>_. None)"
  shows "(interrupts_enabled (mc_kernel mc') \<longleftrightarrow> e = None) \<and>
    (e = None \<longrightarrow>
       interrupt_handlers (mc_kernel mc') = [0x20 \<mapsto> Scheduler_handler, 0x21 \<mapsto> Keyboard_handler,
         0x23 \<mapsto> Serial_com2_handler, 0x24 \<mapsto> Serial_com1_handler] \<and>
       mc_idt mc' = idt_init (interrupt_handler_label l) (handle_syscall_label l) (mc_idt mc) \<and>
       (mc_gdt mc', mc_gdtr mc', mc_tr mc') = gdt_init (gdt_entries_addr l) (tss_addr l) (mc_gdt mc) \<and>
       pit_set_interval 2 (pit_init (serial_init_ports COM1 (pic_init (k_io (mc_kernel mc))))) = Some (k_io (mc_kernel mc')))"
proof -
  define m0 where "m0 = on_kernel disable_interrupts mc"
  define m1 where "m1 = kinit_devices l m0"
  obtain a n where fs: "get_fs_paddr (view (mc_kernel m0)) mbinfo = (a, n)" by fastforce
  have off: "\<not> interrupts_enabled (mc_kernel m0)" by (simp add: m0_def on_kernel_def disable_interrupts_def)
  show ?thesis
  proof (cases "a = 0 \<and> n = 0")
    case True
    then have "mc' = m0" "e = Some Load_fs" using assms(1) fs by (simp_all add: kinit_def Let_def m0_def)
    with off show ?thesis by simp
  next
    case False
    then obtain s' where km: "kinit_memory kmem mbinfo a n pd pt (mc_kernel m1) = Some (s', e)" and mc': "mc' = m1\<lparr>mc_kernel := s'\<rparr>"
      using assms(1) fs by (auto simp: kinit_def Let_def m0_def m1_def split: Option.bind_splits)
    have k1: "interrupt_handlers (mc_kernel m1) = [0x21 \<mapsto> Keyboard_handler, 0x23 \<mapsto> Serial_com2_handler, 0x24 \<mapsto> Serial_com1_handler]"
      "\<not> interrupts_enabled (mc_kernel m1)" "k_io (mc_kernel m1) = pit_init (serial_init_ports COM1 (pic_init (k_io (mc_kernel mc))))"
      "mc_idt m1 = idt_init (interrupt_handler_label l) (handle_syscall_label l) (mc_idt mc)"
      "(mc_gdt m1, mc_gdtr m1, mc_tr m1) = gdt_init (gdt_entries_addr l) (tss_addr l) (mc_gdt mc)"
      using assms(2)
      by (simp_all add: m1_def m0_def kinit_devices_def on_kernel_def disable_interrupts_def k_kbd_init_def serial_init_def
        register_interrupt_handler_def Let_def gdt_init_def fun_upd_twist)
    from km show ?thesis
    proof (cases rule: kinit_memory_cases)
      case failed
      with k1(2) mc' show ?thesis by (auto simp: quiet_def)
    next
      case (scheduler t)
      then show ?thesis
        using k1(2) mc' by (auto simp: quiet_def scheduler_init_def register_interrupt_handler_def split: Option.bind_splits if_splits)
    next
      case (ready t u)
      then have q: "interrupt_handlers t = interrupt_handlers (mc_kernel m1)" "k_io t = k_io (mc_kernel m1)" by (simp_all add: quiet_def)
      from ready(2) q obtain i where i: "pit_set_interval 2 (k_io (mc_kernel m1)) = Some i"
          "u = t\<lparr>k_io := i, interrupt_handlers := (interrupt_handlers (mc_kernel m1))(0x20 \<mapsto> Scheduler_handler)\<rparr>"
        by (auto simp: scheduler_init_def register_interrupt_handler_def split: Option.bind_splits if_splits)
      show ?thesis using ready(3,4) i mc' k1 by (simp add: enable_interrupts_def fun_upd_twist)
    qed
  qed
qed

text \<open>A machine as the loader hands it over: the structures of the boot loader in memory, one region of 72 frames, a file
  system with nothing but its magic number.\<close>

definition boot_phys :: mem where
  "boot_phys = store32 (store32 (store32 (store32 (store32 (store32 (store32 (store32 (store32 (store32 (store32 (store32 (\<lambda>_. 0)
     0x9000 0x28) 0x9014 1) 0x9018 0xC0009100) 0x9100 0x120000) 0x9104 0x121000) 0x902C 24) 0x9030 0xC000A000)
     0xA000 20) 0xA004 0x200000) 0xA00C 0x48000) 0xA014 1) 0x120000 0xAE12AE34"

definition boot_machine :: machine where
  "boot_machine = \<lparr>mc_kernel = boot_kernel\<lparr>k_phys := boot_phys,
      k_fs := example_fs\<lparr>fs_vfs := \<lparr>vfs_list = 0, vfss = (\<lambda>_. \<lparr>vfs_next = 0, vfs_op = No_vfsops, mount_path = [], vfs_data = 0\<rparr>)\<rparr>,
        fs_devfs := example_devfs\<rparr>,
      k_heap := example_kheap\<lparr>kpaging := boot_paging
        \<lparr>pts := (pts boot_paging)(0x102000 := (pts boot_paging 0x102000)(9 := make_pte 0x9000 PAGING_READ_WRITE PAGING_PL0,
           10 := make_pte 0xA000 PAGING_READ_WRITE PAGING_PL0))\<rparr>\<rparr>\<rparr>,
     mc_gdt = (\<lambda>_. gdt_entry.make 0 0 0 0 0 0),
     mc_gdtr = \<lparr>gdt_limit = 0, gdt_base = 0\<rparr>, mc_tr = 0, mc_idt = (\<lambda>_. idt_gate.make 0 0 0 0 0)\<rparr>"
definition boot_layout :: layout where
  "boot_layout = \<lparr>gdt_entries_addr = 0xC0103000, tss_addr = 0xC0104000, interrupt_handler_label = (\<lambda>_. 0xC0105000), handle_syscall_label = 0xC0106000\<rparr>"

theorem kinit_interrupts_witness:
  "\<exists>mc'. kinit boot_layout boot_meminfo 0xC0009000 0xC0101000 0xC0102000 boot_machine = Some (mc', None) \<and>
     interrupts_enabled (mc_kernel mc') \<and> interrupt_handlers (mc_kernel mc') 0x20 = Some Scheduler_handler"
proof -
  have "map_option (\<lambda>(m, e). e) (kinit boot_layout boot_meminfo 0xC0009000 0xC0101000 0xC0102000 boot_machine) = Some None"
    by code_simp
  then obtain mc' where k: "kinit boot_layout boot_meminfo 0xC0009000 0xC0101000 0xC0102000 boot_machine = Some (mc', None)" by auto
  have "interrupt_handlers (mc_kernel boot_machine) = (\<lambda>_. None)" by (simp add: boot_machine_def boot_kernel_def)
  from kinit_interrupts [OF k this] k show ?thesis by simp
qed

end
