(* ===== verification/Mkfs.thy ===== *)
theory Mkfs
  imports Vfs
begin

text \<open>
  The image builder (\<open>mkfs.c\<close>), the host tool that writes an \<open>aefs\<close> image from a directory. The image is the
  mapped output file, a function from offsets to bytes; a write outside of it is a fault of the tool.
  A directory of the host is the list of its entries in the order \<open>readdir\<close> returns them, with the entries
  \<open>.\<close> and \<open>..\<close> among them. Every call of \<open>die\<close> or \<open>exit\<close> is an error value;
  creating and mapping the output file and \<open>malloc\<close> are taken to succeed.
\<close>

section \<open>Model\<close>

type_synonym image = "nat \<Rightarrow> u8"

text \<open>\<open>Special\<close> is neither a regular file nor a directory, \<open>Unreadable\<close> is what \<open>stat\<close> or \<open>opendir\<close> refuses.\<close>

datatype host = Regular "u8 list" | Directory "(cstring \<times> host) list" | Special | Unreadable

datatype mkfs_error = Seek_Failed | Too_Many_Inodes | Unsupported_Type | Cannot_Open | Fault

record mkfs =
  img :: image
  img_size :: nat
  num_inodes :: u16
  next_inode_id :: u16
  next_block_id :: u16
  start_block :: nat

definition and_then :: "'e + 'a \<Rightarrow> ('a \<Rightarrow> 'e + 'b) \<Rightarrow> 'e + 'b" where
  "and_then r f = (case r of Inl e \<Rightarrow> Inl e | Inr x \<Rightarrow> f x)"

text \<open>Stores into the mapping. Nothing is touched when there is nothing to write.\<close>

definition write_bytes :: "image \<Rightarrow> nat \<Rightarrow> u8 list \<Rightarrow> image" where
  "write_bytes m p xs = (\<lambda>a. if p \<le> a \<and> a < p + length xs then xs ! (a - p) else m a)"

definition put :: "nat \<Rightarrow> u8 list \<Rightarrow> mkfs \<Rightarrow> mkfs_error + mkfs" where
  "put p xs s = (if xs = [] \<or> p + length xs \<le> img_size s then Inr (s\<lparr>img := write_bytes (img s) p xs\<rparr>) else Inl Fault)"

definition bytes16 :: "u16 \<Rightarrow> u8 list" where
  "bytes16 v = [ucast v, ucast (drop_bit 8 v)]"

definition bytes32 :: "u32 \<Rightarrow> u8 list" where
  "bytes32 v = [ucast v, ucast (drop_bit 8 v), ucast (drop_bit 16 v), ucast (drop_bit 24 v)]"

text \<open>\<open>start_inode + id\<close>: the inodes follow the first block.\<close>

definition inode_at :: "nat \<Rightarrow> nat" where
  "inode_at i = 1024 + 16 * i"

text \<open>Before block \<open>i\<close> the list of blocks goes on in a new inode when the current one is full.\<close>

definition extend_inode :: "nat \<Rightarrow> u32 \<Rightarrow> mkfs \<Rightarrow> mkfs_error + (nat \<times> mkfs)" where
  "extend_inode l i s =
     (if i mod AEFS_INODE_NUM_BLOCKS = 0 \<and> i \<noteq> 0 then
        and_then (put (l + 14) (bytes16 (next_inode_id s)) s) (\<lambda>s.
          (let l = inode_at (unat (next_inode_id s))
           in and_then (put l (replicate 16 0) s) (\<lambda>s.
                Inr (l, s\<lparr>next_inode_id := next_inode_id s + 1\<rparr>))))
      else Inr (l, s))"

function fill_inode_blocks_loop :: "nat \<Rightarrow> u32 \<Rightarrow> u16 \<Rightarrow> u16 \<Rightarrow> mkfs \<Rightarrow> mkfs_error + mkfs" where
  "fill_inode_blocks_loop l i blocks_required start_block_id s =
     (if i < ucast blocks_required then
        (case extend_inode l i s of
           Inl e \<Rightarrow> Inl e
         | Inr (l, s) \<Rightarrow>
             (case put (l + 4 + 2 * unat (i mod AEFS_INODE_NUM_BLOCKS)) (bytes16 (start_block_id + ucast i)) s of
                Inl e \<Rightarrow> Inl e
              | Inr s \<Rightarrow> fill_inode_blocks_loop l (i + 1) blocks_required start_block_id s))
      else Inr s)"
  by pat_completeness auto
termination
  by (relation "measure (\<lambda>(l, i, n, b, s). unat (ucast n :: u32) - unat i)") (auto intro: loop_measure)

declare fill_inode_blocks_loop.simps [simp del]

definition fill_inode_blocks :: "nat \<Rightarrow> u16 \<Rightarrow> u16 \<Rightarrow> mkfs \<Rightarrow> mkfs_error + mkfs" where
  "fill_inode_blocks inode blocks_required start_block_id s =
     fill_inode_blocks_loop inode 0 blocks_required start_block_id s"

definition fill_inode_size :: "nat \<Rightarrow> u32 \<Rightarrow> mkfs \<Rightarrow> mkfs_error + mkfs" where
  "fill_inode_size inode sz s =
     and_then (put (inode + 2) (bytes16 (ucast (sz AND 0xFFFF))) s)
       (put (inode + 1) [ucast (drop_bit 16 sz AND 0xFF)])"

definition write_superblock :: "u16 \<Rightarrow> u16 \<Rightarrow> mkfs \<Rightarrow> mkfs_error + mkfs" where
  "write_superblock inodes start_block_offset s =
     and_then (put 0 (replicate 1024 0) s) (\<lambda>s.
     and_then (put 4 (bytes16 inodes) s) (\<lambda>s.
     and_then (put 6 (bytes16 start_block_offset) s)
       (put 0 (bytes32 AEFS_MAGIC_NUMBER))))"

text \<open>The loop around \<open>fread\<close>: a block of the file after the other, until nothing is left.\<close>

function fread_loop :: "nat \<Rightarrow> u8 list \<Rightarrow> mkfs \<Rightarrow> mkfs_error + mkfs" where
  "fread_loop p xs s =
     (if xs = [] then Inr s
      else case put p (take 1024 xs) s of
             Inl e \<Rightarrow> Inl e
           | Inr s \<Rightarrow> fread_loop (p + 1024) (drop 1024 xs) s)"
  by pat_completeness auto
termination
  by (relation "measure (\<lambda>(p, xs, s). length xs)") auto

declare fread_loop.simps [simp del]

text \<open>The size of a file is cut to 32 bits where it is passed on, the number of blocks to 16.\<close>

definition visit_file :: "u8 list \<Rightarrow> mkfs \<Rightarrow> mkfs_error + (mkfs \<times> u16)" where
  "visit_file xs s =
     (let st_size = of_nat (length xs) :: u32;
          file_inode_id = next_inode_id s;
          file_inode = inode_at (unat file_inode_id);
          blocks_required = ucast (div_ceil st_size AEFS_BLOCK_SIZE) :: u16;
          file_start_block_id = next_block_id s;
          file_start_block = start_block s + 1024 * unat file_start_block_id;
          s = s\<lparr>next_inode_id := file_inode_id + 1, next_block_id := file_start_block_id + blocks_required\<rparr>
      in and_then (put file_inode [0] s) (\<lambda>s.
         and_then (fill_inode_size file_inode st_size s) (\<lambda>s.
         and_then (fread_loop file_start_block xs s) (\<lambda>s.
         and_then (fill_inode_blocks file_inode blocks_required file_start_block_id s) (\<lambda>s.
           Inr (s, file_inode_id))))))"

definition dot_name :: "cstring \<Rightarrow> bool" where
  "dot_name n \<longleftrightarrow> n = [46] \<or> n = [46, 46]"

text \<open>\<open>strncpy\<close> fills the name field with zeros.\<close>

definition name_field :: "cstring \<Rightarrow> u8 list" where
  "name_field n = take 254 n @ replicate (254 - length n) 0"

definition count_files :: "(cstring \<times> host) list \<Rightarrow> nat" where
  "count_files es = length (filter (\<lambda>(n, _). \<not> dot_name n) es)"

text \<open>\<open>child_path\<close> has room for the path, a slash and 254 characters with the final zero: a name of more than
  253 characters is written behind it.\<close>

function visit_dir :: "(cstring \<times> host) list \<Rightarrow> mkfs \<Rightarrow> mkfs_error + (mkfs \<times> u16)"
  and visit_entries :: "(cstring \<times> host) list \<Rightarrow> nat \<Rightarrow> u32 \<Rightarrow> mkfs \<Rightarrow> mkfs_error + mkfs" where
  "visit_dir es s =
     (let num_files = of_nat (count_files es) :: u32;
          dir_inode_id = next_inode_id s;
          dir_inode = inode_at (unat dir_inode_id);
          s = s\<lparr>next_inode_id := dir_inode_id + 1\<rparr>
      in if dir_inode_id = num_inodes s then Inl Too_Many_Inodes
         else
           (let blocks_required = div_ceil (num_files * 256) AEFS_BLOCK_SIZE;
                dir_start_block_id = next_block_id s;
                s = s\<lparr>next_block_id := dir_start_block_id + ucast blocks_required\<rparr>;
                dir_start_block = start_block s + 1024 * unat dir_start_block_id
            in case put dir_start_block (replicate (unat (AEFS_BLOCK_SIZE * blocks_required)) 0) s of
                 Inl e \<Rightarrow> Inl e
               | Inr s \<Rightarrow>
                   and_then (visit_entries es dir_start_block 0 s) (\<lambda>s.
                   and_then (put dir_inode [1] s) (\<lambda>s.
                   and_then (fill_inode_size dir_inode (256 * num_files) s) (\<lambda>s.
                   and_then (fill_inode_blocks dir_inode (ucast blocks_required) dir_start_block_id s) (\<lambda>s.
                     Inr (s, dir_inode_id)))))))"
| "visit_entries [] entries i s = Inr s"
| "visit_entries ((d_name, child) # es) entries i s =
     (if dot_name d_name then visit_entries es entries i s
      else if length d_name > 253 then Inl Fault
      else case (case child of
                   Regular xs \<Rightarrow> visit_file xs s
                 | Directory es' \<Rightarrow> visit_dir es' s
                 | Special \<Rightarrow> Inl Unsupported_Type
                 | Unreadable \<Rightarrow> Inl Cannot_Open) of
             Inl e \<Rightarrow> Inl e
           | Inr (s, child_inode_id) \<Rightarrow>
               and_then (and_then (put (entries + 256 * unat i + 254) (bytes16 child_inode_id) s)
                                  (put (entries + 256 * unat i) (name_field d_name)))
                 (visit_entries es entries (i + 1)))"
  by pat_completeness auto
termination
  by (relation "measure (\<lambda>x. case x of Inl (es, s) \<Rightarrow> Suc (2 * size_list (size_prod (\<lambda>_. 0) size) es)
                                    | Inr (es, p, i, s) \<Rightarrow> 2 * size_list (size_prod (\<lambda>_. 0) size) es)")
     auto

declare visit_dir.simps [simp del]

text \<open>\<open>argv[2]\<close> is the size in megabytes. Seeking to a negative position is refused.\<close>

definition mkfs_main :: "int \<Rightarrow> (cstring \<times> host) list \<Rightarrow> mkfs_error + image" where
  "mkfs_main mb root =
     (let sz = push_bit 20 (word_of_int mb) :: u32
      in if sint sz \<le> 0 then Inl Seek_Failed
         else
           (let blocks = ucast (sz div AEFS_BLOCK_SIZE) :: u16;
                inode_blocks = ucast (div_ceil (ucast blocks * 16) AEFS_BLOCK_SIZE) :: u16;
                start_block_offset = 1 + inode_blocks;
                s = \<lparr>img = (\<lambda>_. 0), img_size = unat sz, num_inodes = blocks - inode_blocks - 1,
                     next_inode_id = 1, next_block_id = 0, start_block = 1024 * unat start_block_offset\<rparr>
            in and_then (write_superblock (num_inodes s) start_block_offset s) (\<lambda>s.
               and_then (visit_dir root s) (\<lambda>(s, _). Inr (img s)))))"

end
