(* ===== verification/Mkfs_Correct.thy ===== *)
theory Mkfs_Correct
  imports Mkfs
begin

text \<open>
  What \<open>mkfs\<close> writes and what the kernel reads back: a directory that fits in the image is stored in it, and
  the kernel finds every file under its path with the contents it has on the host.
\<close>

section \<open>Reading the image\<close>

definition rd16 :: "image \<Rightarrow> nat \<Rightarrow> u16" where
  "rd16 m p = ucast (m p) OR push_bit 8 (ucast (m (p + 1)))"

lemma write_bytes_other: "a < p \<or> p + length xs \<le> a \<Longrightarrow> write_bytes m p xs a = m a"
  by (auto simp: write_bytes_def)

lemma write_bytes_Nil [simp]: "write_bytes m p [] = m"
  by (rule ext) (auto simp: write_bytes_def)

lemma write_bytes_at: "k < length xs \<Longrightarrow> write_bytes m p xs (p + k) = xs ! k"
  by (simp add: write_bytes_def)

lemma length_bytes16 [simp]: "length (bytes16 v) = 2"
  by (simp add: bytes16_def)

lemma length_name_field [simp]: "length (name_field n) = 254"
  by (simp add: name_field_def)

lemma rd16_write: "rd16 (write_bytes m p (bytes16 v)) p = v"
  by (rule bit_word_eqI) (auto simp: rd16_def write_bytes_def bytes16_def bit_simps)

lemma rd16_other: "p + 2 \<le> q \<or> q + length xs \<le> p \<Longrightarrow> rd16 (write_bytes m q xs) p = rd16 m p"
  by (auto simp: rd16_def write_bytes_def)

lemma rd16_cong: "m' p = m p \<Longrightarrow> m' (p + 1) = m (p + 1) \<Longrightarrow> rd16 m' p = rd16 m p"
  by (simp add: rd16_def)

lemma unat_ucast_u32 [simp]: "unat (ucast n :: u32) = unat n" for n :: u16
  by (simp add: unsigned_ucast_eq take_bit_nat_eq_self_iff order.strict_trans2 [OF unsigned_less])

lemma unat_u16_max: "unat w \<le> 65535" for w :: u16
proof -
  have "unat w < 2 ^ LENGTH(16)" by (rule unsigned_less)
  then show ?thesis by simp
qed

lemma put_ok: "p + length xs \<le> img_size s \<Longrightarrow> put p xs s = Inr (s\<lparr>img := write_bytes (img s) p xs\<rparr>)"
  by (simp add: put_def)

lemma and_then_Inr [simp]: "and_then (Inr x) f = f x"
  by (simp add: and_then_def)

lemma fread_loop_ok:
  "p + length xs \<le> img_size s \<Longrightarrow> fread_loop p xs s = Inr (s\<lparr>img := write_bytes (img s) p xs\<rparr>)"
proof (induction p xs s rule: fread_loop.induct)
  case (1 p xs s)
  show ?case
  proof (cases "xs = []")
    case True
    then show ?thesis by (subst fread_loop.simps) simp
  next
    case False
    let ?s = "s\<lparr>img := write_bytes (img s) p (take 1024 xs)\<rparr>"
    have put: "put p (take 1024 xs) s = Inr ?s" using "1.prems" by (intro put_ok) simp
    have "fread_loop (p + 1024) (drop 1024 xs) ?s = Inr (?s\<lparr>img := write_bytes (img ?s) (p + 1024) (drop 1024 xs)\<rparr>)"
    proof (cases "length xs \<le> 1024")
      case True
      then show ?thesis by (subst fread_loop.simps) simp
    next
      case False
      then show ?thesis using "1.prems" \<open>xs \<noteq> []\<close> put by (intro "1.IH") simp_all
    qed
    moreover have "write_bytes (write_bytes (img s) p (take 1024 xs)) (p + 1024) (drop 1024 xs) = write_bytes (img s) p xs"
    proof
      fix a
      have "drop 1024 xs ! (a - (p + 1024)) = xs ! (a - p)" if "p + 1024 \<le> a" "a - p < length xs"
        using that by (subst nth_drop) auto
      then show "write_bytes (write_bytes (img s) p (take 1024 xs)) (p + 1024) (drop 1024 xs) a = write_bytes (img s) p xs a"
        by (auto simp: write_bytes_def)
    qed
    ultimately show ?thesis using False put by (subst fread_loop.simps) simp
  qed
qed

section \<open>Inodes\<close>

text \<open>A file of \<open>n\<close> bytes takes \<open>nblocks n\<close> blocks, and a list of \<open>k\<close> blocks takes \<open>tails k\<close> inodes more than one.
  They are numbered from \<open>t\<close> on.\<close>

definition nblocks :: "nat \<Rightarrow> nat" where
  "nblocks n = (n + 1023) div 1024"

definition tails :: "nat \<Rightarrow> nat" where
  "tails k = (k - 1) div 5"

definition node :: "nat \<Rightarrow> nat \<Rightarrow> nat \<Rightarrow> nat" where
  "node i t j = (if j = 0 then i else t + j - 1)"

text \<open>The first \<open>k\<close> blocks of inode \<open>i\<close> are those from \<open>b\<close> on, and the list of inodes ends after them.\<close>

definition blocks_at :: "image \<Rightarrow> nat \<Rightarrow> nat \<Rightarrow> nat \<Rightarrow> nat \<Rightarrow> bool" where
  "blocks_at m i t b k \<longleftrightarrow>
     (\<forall>j<k. rd16 m (inode_at (node i t (j div 5)) + 4 + 2 * (j mod 5)) = of_nat (b + j)) \<and>
     (\<forall>j<tails k. rd16 m (inode_at (node i t j) + 14) = of_nat (t + j)) \<and>
     rd16 m (inode_at (node i t (tails k)) + 14) = 0"

text \<open>The bytes of the block lists: everything behind the size.\<close>

definition list_bytes :: "nat \<Rightarrow> nat \<Rightarrow> nat \<Rightarrow> nat set" where
  "list_bytes i t k = {inode_at i + 4 ..< inode_at i + 16} \<union> {inode_at t ..< inode_at (t + k)}"

lemma inode_at_Suc: "inode_at (i + 1) = inode_at i + 16"
  by (simp add: inode_at_def)

lemma inode_at_mono: "i < j \<Longrightarrow> inode_at i + 16 \<le> inode_at j"
  by (simp add: inode_at_def)

lemma tails_Suc: "k \<noteq> 0 \<Longrightarrow> tails (Suc k) = (if k mod 5 = 0 then Suc (tails k) else tails k)"
  unfolding tails_def by (cases k) (auto simp: div_Suc)

definition slot :: "nat \<Rightarrow> nat \<Rightarrow> nat \<Rightarrow> nat" where
  "slot i t j = inode_at (node i t (j div 5)) + 4 + 2 * (j mod 5)"

definition tail_slot :: "nat \<Rightarrow> nat \<Rightarrow> nat \<Rightarrow> nat" where
  "tail_slot i t j = inode_at (node i t j) + 14"

lemma node_apart:
  "i < t \<Longrightarrow> j \<noteq> k \<Longrightarrow> inode_at (node i t j) + 16 \<le> inode_at (node i t k) \<or> inode_at (node i t k) + 16 \<le> inode_at (node i t j)"
  by (auto simp: node_def inode_at_def)

lemma slot_range: "inode_at (node i t (j div 5)) + 4 \<le> slot i t j" "slot i t j + 2 \<le> inode_at (node i t (j div 5)) + 14"
  using mod_less_divisor [of 5 j] by (simp_all add: slot_def)

lemma slot_apart: "i < t \<Longrightarrow> j \<noteq> k \<Longrightarrow> slot i t j + 2 \<le> slot i t k \<or> slot i t k + 2 \<le> slot i t j"
proof (cases "j div 5 = k div 5")
  case True
  moreover assume "j \<noteq> k"
  ultimately have "j mod 5 \<noteq> k mod 5" by (metis div_mult_mod_eq)
  with True show ?thesis by (auto simp: slot_def)
next
  case False
  moreover assume "i < t"
  ultimately show ?thesis
    using node_apart [of i t "j div 5" "k div 5"] slot_range [of i t j] slot_range [of i t k] by linarith
qed

lemma slot_node_apart:
  "i < t \<Longrightarrow> j div 5 \<noteq> k \<Longrightarrow> slot i t j + 2 \<le> inode_at (node i t k) \<or> inode_at (node i t k) + 16 \<le> slot i t j"
  using node_apart [of i t "j div 5" k] slot_range [of i t j] by linarith

lemma slot_tail_apart: "i < t \<Longrightarrow> slot i t j + 2 \<le> tail_slot i t k \<or> tail_slot i t k + 2 \<le> slot i t j"
  using slot_node_apart [of i t j k] slot_range [of i t j] by (cases "j div 5 = k") (auto simp: tail_slot_def)

lemma tail_node_apart:
  "i < t \<Longrightarrow> j \<noteq> k \<Longrightarrow> tail_slot i t j + 2 \<le> inode_at (node i t k) \<or> inode_at (node i t k) + 16 \<le> tail_slot i t j"
  using node_apart [of i t j k] by (auto simp: tail_slot_def)

lemma tail_apart: "i < t \<Longrightarrow> j \<noteq> k \<Longrightarrow> tail_slot i t j + 2 \<le> tail_slot i t k \<or> tail_slot i t k + 2 \<le> tail_slot i t j"
  using node_apart [of i t j k] by (auto simp: tail_slot_def)

text \<open>Writing the number of block \<open>k\<close> behind the first \<open>k\<close>, and going on in a new inode.\<close>

lemma blocks_at_slot: "blocks_at m i t b k \<longleftrightarrow>
    (\<forall>j<k. rd16 m (slot i t j) = of_nat (b + j)) \<and> (\<forall>j<tails k. rd16 m (tail_slot i t j) = of_nat (t + j)) \<and>
    rd16 m (tail_slot i t (tails k)) = 0"
  by (simp add: blocks_at_def slot_def tail_slot_def)

lemma blocks_at_step:
  assumes "blocks_at m i t b k" and "i < t" and "tails (Suc k) = tails k"
  shows "blocks_at (write_bytes m (slot i t k) (bytes16 (of_nat (b + k)))) i t b (Suc k)"
proof -
  have "rd16 (write_bytes m (slot i t k) xs) (slot i t j) = rd16 m (slot i t j)" if "length xs = 2" "j \<noteq> k" for j xs
    using slot_apart [OF assms(2) that(2)] that(1) by (intro rd16_other) auto
  moreover have "rd16 (write_bytes m (slot i t k) xs) (tail_slot i t j) = rd16 m (tail_slot i t j)" if "length xs = 2" for j xs
    using slot_tail_apart [OF assms(2), of k j] that by (intro rd16_other) auto
  ultimately show ?thesis using assms(1,3) by (auto simp: blocks_at_slot rd16_write less_Suc_eq)
qed

lemma blocks_at_new_node:
  assumes "blocks_at m i t b k" and "i < t" and "k mod 5 = 0" and "k \<noteq> 0"
  defines "m' \<equiv> write_bytes (write_bytes m (tail_slot i t (tails k)) (bytes16 (of_nat (t + tails k)))) (inode_at (t + tails k)) (replicate 16 0)"
  shows "blocks_at (write_bytes m' (slot i t k) (bytes16 (of_nat (b + k)))) i t b (Suc k)"
proof -
  have kd: "k div 5 = Suc (tails k)" and T: "tails (Suc k) = Suc (tails k)"
    using assms(3,4) tails_Suc [of k] by (auto simp: tails_def)
  have nd: "inode_at (t + tails k) = inode_at (node i t (k div 5))" using kd by (simp add: node_def)
  have jk: "j div 5 \<noteq> k div 5" if "j < k" for j
    using that assms(3) by (metis div_mult_mod_eq add.right_neutral less_le_trans not_le times_div_less_eq_dividend mult.commute)
  have sl: "rd16 m' (slot i t j) = rd16 m (slot i t j)" if "j < k" for j
    unfolding m'_def nd
    using slot_node_apart [OF assms(2) jk [OF that]] slot_tail_apart [OF assms(2), of j "tails k"]
    by (subst rd16_other, simp, subst rd16_other) auto
  have tl: "rd16 m' (tail_slot i t j) = of_nat (t + j)" if "j < Suc (tails k)" for j
  proof -
    have "j \<noteq> k div 5" using that kd by simp
    then have "rd16 m' (tail_slot i t j) = rd16 (write_bytes m (tail_slot i t (tails k)) (bytes16 (of_nat (t + tails k)))) (tail_slot i t j)"
      unfolding m'_def nd using tail_node_apart [OF assms(2), of j "k div 5"] by (intro rd16_other) auto
    also have "\<dots> = of_nat (t + j)"
    proof (cases "j = tails k")
      case False
      then show ?thesis using tail_apart [OF assms(2), of j "tails k"] assms(1) that by (subst rd16_other) (auto simp: blocks_at_slot)
    qed (simp add: rd16_write)
    finally show ?thesis .
  qed
  have last: "rd16 m' (tail_slot i t (Suc (tails k))) = 0"
    by (simp add: m'_def rd16_def write_bytes_def tail_slot_def node_def)
  have "rd16 (write_bytes m' (slot i t k) (bytes16 v)) (tail_slot i t j) = rd16 m' (tail_slot i t j)" for j v
    using slot_tail_apart [OF assms(2), of k j] by (intro rd16_other) auto
  moreover have "rd16 (write_bytes m' (slot i t k) (bytes16 v)) (slot i t j) = rd16 m' (slot i t j)" if "j \<noteq> k" for j v
    using slot_apart [OF assms(2) that] by (intro rd16_other) auto
  ultimately show ?thesis using assms(1) sl tl T last by (auto simp: blocks_at_slot rd16_write less_Suc_eq)
qed

text \<open>The state after the first \<open>k\<close> blocks of an inode are entered.\<close>

definition filled :: "mkfs \<Rightarrow> nat \<Rightarrow> nat \<Rightarrow> nat \<Rightarrow> nat \<Rightarrow> mkfs \<Rightarrow> bool" where
  "filled s0 i t b k s \<longleftrightarrow> s = s0\<lparr>img := img s, next_inode_id := of_nat (t + tails k)\<rparr> \<and>
     blocks_at (img s) i t b k \<and> (\<forall>a. a \<notin> list_bytes i t (tails k) \<longrightarrow> img s a = img s0 a)"

lemma slot_in_list: "k div 5 \<le> j \<Longrightarrow> {slot i t k ..< slot i t k + 2} \<subseteq> list_bytes i t j"
proof -
  assume "k div 5 \<le> j"
  then have "{inode_at (node i t (k div 5)) + 4 ..< inode_at (node i t (k div 5)) + 16} \<subseteq> list_bytes i t j"
    by (auto simp: list_bytes_def node_def inode_at_def)
  with slot_range [of i t k] show ?thesis by fastforce
qed

lemma tail_in_list: "j \<le> k \<Longrightarrow> {tail_slot i t j ..< tail_slot i t j + 2} \<subseteq> list_bytes i t k"
  by (auto simp: list_bytes_def tail_slot_def node_def inode_at_def)

lemma list_bytes_mono: "j \<le> k \<Longrightarrow> list_bytes i t j \<subseteq> list_bytes i t k"
  by (auto simp: list_bytes_def inode_at_def)

lemma write_inside: "{p ..< p + length xs} \<subseteq> A \<Longrightarrow> a \<notin> A \<Longrightarrow> write_bytes m p xs a = m a"
  by (auto simp: write_bytes_def)

lemma div5_tails: "k div 5 = tails (Suc k)"
  by (simp add: tails_def)

lemma fill_step:
  assumes f: "filled s0 i t b k s" and i: "i < t" and u: "unat w = k"
    and T: "inode_at (t + tails (Suc k)) \<le> img_size s0" "t + tails (Suc k) \<le> 65535"
    and w: "v = of_nat (b + k)"
  shows "\<exists>s'. (case extend_inode (inode_at (node i t (tails k))) w s of
               Inl e \<Rightarrow> Inl e
             | Inr (l, s) \<Rightarrow> (case put (l + 4 + 2 * unat (w mod 5)) (bytes16 v) s of
                  Inl e \<Rightarrow> Inl e | Inr s \<Rightarrow> Inr (l, s))) = Inr (inode_at (node i t (k div 5)), s') \<and>
             filled s0 i t b (Suc k) s'"
proof -
  let ?l = "inode_at (node i t (tails k))" and ?q = "inode_at (node i t (k div 5))"
  have m5: "unat (w mod 5) = k mod 5" using u by (simp add: unat_mod)
  have z: "w mod 5 = 0 \<and> w \<noteq> 0 \<longleftrightarrow> k mod 5 = 0 \<and> k \<noteq> 0" using u m5 by (auto simp: unat_eq_zero [symmetric])
  have sz: "img_size s = img_size s0" using f by (auto simp: filled_def dest: arg_cong [where f = img_size])
  have ni: "next_inode_id s = of_nat (t + tails k)" using f by (auto simp: filled_def dest: arg_cong [where f = next_inode_id])
  have eq: "s = s0\<lparr>img := img s, next_inode_id := of_nat (t + tails k)\<rparr>"
    and out: "\<And>a. a \<notin> list_bytes i t (tails k) \<Longrightarrow> img s a = img s0 a"
    and blk: "blocks_at (img s) i t b k" using f by (auto simp: filled_def)
  have upd: "s\<lparr>img := x\<rparr> = s0\<lparr>img := x, next_inode_id := of_nat (t + tails k)\<rparr>"
    "s\<lparr>img := x, next_inode_id := y\<rparr> = s0\<lparr>img := x, next_inode_id := y\<rparr>" for x y
    by (subst eq, simp)+
  have slot: "?q + 4 + 2 * unat (w mod 5) = slot i t k" by (simp add: slot_def m5)
  have room: "slot i t k + 2 \<le> img_size s"
  proof -
    have "?q + 16 \<le> inode_at (t + tails (Suc k))" using i by (auto simp: node_def div5_tails inode_at_def)
    with slot_range [of i t k] T(1) sz show ?thesis by linarith
  qed
  show ?thesis
  proof (cases "k mod 5 = 0 \<and> k \<noteq> 0")
    case False
    then have tk: "tails (Suc k) = tails k" by (cases "k = 0") (simp add: tails_def, auto simp: tails_Suc)
    then have "?l = ?q" by (simp add: div5_tails)
    then have run: "(case extend_inode ?l w s of Inl e \<Rightarrow> Inl e
             | Inr (l, s) \<Rightarrow> (case put (l + 4 + 2 * unat (w mod 5)) (bytes16 v) s of
                  Inl e \<Rightarrow> Inl e | Inr s \<Rightarrow> Inr (l, s))) = Inr (?q, s\<lparr>img := write_bytes (img s) (slot i t k) (bytes16 v)\<rparr>)"
      using room slot unfolding extend_inode_def z if_not_P [OF False] by (simp add: put_ok)
    have "write_bytes (img s) (slot i t k) (bytes16 v) a = img s0 a" if "a \<notin> list_bytes i t (tails (Suc k))" for a
      using write_inside [OF slot_in_list [of k "tails (Suc k)" i t, folded length_bytes16 [of v]] that, of "img s"] out [of a] that
      by (simp add: div5_tails tk)
    with blocks_at_step [OF blk i tk] w tk run show ?thesis unfolding upd by (auto simp: filled_def)
  next
    case True
    then have tk: "tails (Suc k) = Suc (tails k)" by (simp add: tails_Suc)
    have q: "?q = inode_at (t + tails k)" by (simp add: node_def div5_tails tk)
    have un: "unat (of_nat (t + tails k) :: u16) = t + tails k" using T(2) tk by (intro unat_of_nat_small) simp
    let ?m1 = "write_bytes (img s) (tail_slot i t (tails k)) (bytes16 (of_nat (t + tails k)))"
    let ?m2 = "write_bytes ?m1 (inode_at (t + tails k)) (replicate 16 0)"
    let ?m3 = "write_bytes ?m2 (slot i t k) (bytes16 v)"
    have r1: "tail_slot i t (tails k) + 2 \<le> img_size s" and r2: "inode_at (t + tails k) + 16 \<le> img_size s"
      using T(1) tk i sz by (auto simp: tail_slot_def node_def inode_at_def split: if_splits)
    have "extend_inode ?l w s = Inr (?q, s\<lparr>img := ?m2, next_inode_id := of_nat (t + tails k) + 1\<rparr>)"
      using r1 r2 un ni q unfolding extend_inode_def z if_P [OF True] by (simp add: put_ok tail_slot_def Let_def)
    then have run: "(case extend_inode ?l w s of Inl e \<Rightarrow> Inl e
             | Inr (l, s) \<Rightarrow> (case put (l + 4 + 2 * unat (w mod 5)) (bytes16 v) s of
                  Inl e \<Rightarrow> Inl e | Inr s \<Rightarrow> Inr (l, s))) =
        Inr (?q, s\<lparr>img := ?m3, next_inode_id := of_nat (t + tails (Suc k))\<rparr>)"
      using room slot tk by (simp add: put_ok add.commute)
    have "?m3 a = img s0 a" if a: "a \<notin> list_bytes i t (tails (Suc k))" for a
    proof -
      have "?m3 a = ?m2 a" by (rule write_inside [OF _ a]) (use slot_in_list [of k "tails (Suc k)" i t] in \<open>simp add: div5_tails\<close>)
      also have "\<dots> = ?m1 a" by (rule write_inside [OF _ a]) (auto simp: list_bytes_def tk inode_at_def)
      also have "\<dots> = img s a" by (rule write_inside [OF _ a]) (use tail_in_list [of "tails k" "tails (Suc k)" i t] in \<open>simp add: tk\<close>)
      also have "\<dots> = img s0 a" using a list_bytes_mono [of "tails k" "tails (Suc k)" i t] tk by (intro out) auto
      finally show ?thesis .
    qed
    moreover have "blocks_at ?m3 i t b (Suc k)" unfolding w using True by (intro blocks_at_new_node [OF blk i]) simp_all
    ultimately show ?thesis using run unfolding upd by (auto simp: filled_def)
  qed
qed

lemma fill_loop_ok:
  assumes i: "i < t" and T: "inode_at (t + tails (unat n)) \<le> img_size s0" "t + tails (unat n) \<le> 65535" 
    and "filled s0 i t (unat b) k s" and "unat w = k" and "k \<le> unat n"
  shows "\<exists>s'. fill_inode_blocks_loop (inode_at (node i t (tails k))) w n b s = Inr s' \<and> filled s0 i t (unat b) (unat n) s'"
  using assms(4-)
proof (induction "unat n - k" arbitrary: k w s)
  case 0
  then have "\<not> w < ucast n" by (simp add: word_less_nat_alt unat_ucast_u32)
  with 0 show ?case by (subst fill_inode_blocks_loop.simps) auto
next
  case (Suc d)
  then have less: "w < ucast n" and kn: "Suc k \<le> unat n" by (simp_all add: word_less_nat_alt unat_ucast_u32)
  have mono: "tails (Suc k) \<le> tails (unat n)" using kn unfolding tails_def by (intro div_le_mono) simp
  have v: "b + ucast w = of_nat (unat b + k)" using Suc.prems(2) by (auto simp: of_nat_unat)
  have "inode_at (t + tails (Suc k)) \<le> img_size s0" "t + tails (Suc k) \<le> 65535"
    using T mono by (simp_all add: inode_at_def)
  from fill_step [OF Suc.prems(1) i Suc.prems(2) this v] obtain s' where
    st: "(case extend_inode (inode_at (node i t (tails k))) w s of Inl e \<Rightarrow> Inl e
             | Inr (l, s) \<Rightarrow> (case put (l + 4 + 2 * unat (w mod 5)) (bytes16 (b + ucast w)) s of
                  Inl e \<Rightarrow> Inl e | Inr s \<Rightarrow> Inr (l, s))) = Inr (inode_at (node i t (k div 5)), s')"
    and f': "filled s0 i t (unat b) (Suc k) s'" by blast
  have w1: "unat (w + 1) = Suc k" using unat_inc [OF less] Suc.prems(2) by simp
  have "fill_inode_blocks_loop (inode_at (node i t (tails k))) w n b s =
      fill_inode_blocks_loop (inode_at (node i t (tails (Suc k)))) (w + 1) n b s'"
    using less st by (subst fill_inode_blocks_loop.simps) (auto simp: div5_tails split: sum.splits prod.splits)
  moreover have "\<exists>s''. fill_inode_blocks_loop (inode_at (node i t (tails (Suc k)))) (w + 1) n b s' = Inr s'' \<and> filled s0 i t (unat b) (unat n) s''"
    using Suc.hyps(2) kn by (intro Suc.hyps(1) [OF _ f' w1]) simp_all
  ultimately show ?case by simp
qed

lemma fill_inode_blocks_ok:
  assumes "i < t" and "inode_at (t + tails (unat n)) \<le> img_size s" and "t + tails (unat n) \<le> 65535"
    and "next_inode_id s = of_nat t" and "rd16 (img s) (inode_at i + 14) = 0"
  shows "\<exists>s'. fill_inode_blocks (inode_at i) n b s = Inr s' \<and> filled s i t (unat b) (unat n) s'"
proof -
  have "filled s i t (unat b) 0 s" using assms(4,5) by (simp add: filled_def blocks_at_def tails_def node_def)
  from fill_loop_ok [OF assms(1-3) this, of 0] show ?thesis by (simp add: fill_inode_blocks_def node_def tails_def)
qed

section \<open>A stored file\<close>

text \<open>Inode \<open>i\<close> describes a file of type \<open>ty\<close> with \<open>n\<close> bytes in the blocks from \<open>b\<close> on; it lies in \<open>A\<close> with the
  inodes its list of blocks goes on in.\<close>

definition inode_ok :: "image \<Rightarrow> nat set \<Rightarrow> nat \<Rightarrow> u8 \<Rightarrow> nat \<Rightarrow> nat \<Rightarrow> nat \<Rightarrow> bool" where
  "inode_ok m A i ty n t b \<longleftrightarrow>
     {inode_at i ..< inode_at i + 16} \<union> {inode_at t ..< inode_at (t + tails (nblocks n))} \<subseteq> A \<and>
     i < t \<and> t + tails (nblocks n) \<le> 65535 \<and> b + nblocks n \<le> 65535 \<and> n < 2 ^ 24 \<and>
     m (inode_at i) = ty \<and> m (inode_at i + 1) = of_nat (n div 65536) \<and> rd16 m (inode_at i + 2) = of_nat n \<and>
     blocks_at m i t b (nblocks n)"

lemma blocks_at_cong:
  assumes "blocks_at m i t b k" and "\<And>a. a \<in> list_bytes i t (tails k) \<Longrightarrow> m' a = m a"
  shows "blocks_at m' i t b k"
proof -
  have "rd16 m' (slot i t j) = rd16 m (slot i t j)" if "j < k" for j
  proof -
    have "j div 5 \<le> tails k" using that unfolding tails_def by (intro div_le_mono) simp
    from slot_in_list [OF this, of i t] show ?thesis by (intro rd16_cong assms(2)) auto
  qed
  moreover have "rd16 m' (tail_slot i t j) = rd16 m (tail_slot i t j)" if "j \<le> tails k" for j
    using tail_in_list [OF that, of i t] by (intro rd16_cong assms(2)) auto
  ultimately show ?thesis using assms(1) by (simp add: blocks_at_slot)
qed

lemma inode_ok_cong:
  assumes ok: "inode_ok m A i ty n t b" and eq: "\<And>a. a \<in> A \<Longrightarrow> m' a = m a" and "A \<subseteq> B"
  shows "inode_ok m' B i ty n t b"
proof -
  have sub: "{inode_at i ..< inode_at i + 16} \<subseteq> A" "{inode_at t ..< inode_at (t + tails (nblocks n))} \<subseteq> A"
    and blk: "blocks_at m i t b (nblocks n)" using ok unfolding inode_ok_def by blast+
  have "{inode_at i + 4 ..< inode_at i + 16} \<subseteq> {inode_at i ..< inode_at i + 16}" by simp
  then have "list_bytes i t (tails (nblocks n)) \<subseteq> A" using sub unfolding list_bytes_def by blast
  then have "blocks_at m' i t b (nblocks n)" using eq by (intro blocks_at_cong [OF blk]) blast
  moreover have byte: "m' (inode_at i + k) = m (inode_at i + k)" if "k < 16" for k
    by (rule eq [OF subsetD [OF sub(1)]]) (use that in simp)
  have "rd16 m' (inode_at i + 2) = rd16 m (inode_at i + 2)"
    using byte [of 2] byte [of 3] by (intro rd16_cong) (simp_all add: numeral_eq_Suc)
  moreover have "inode_at i + 0 = inode_at i" by simp
  moreover have "X \<subseteq> B" if "X \<subseteq> A" for X using that \<open>A \<subseteq> B\<close> by (rule subset_trans)
  ultimately show ?thesis using ok byte [of 0] byte [of 1] unfolding inode_ok_def by simp
qed

text \<open>Writing the first four bytes of an inode.\<close>

lemma ucast_low_half: "ucast (c AND 0xFFFF) = (ucast c :: u16)" for c :: u32
proof -
  have "c AND 0xFFFF = take_bit 16 c" by (simp add: take_bit_eq_mask mask_eq_exp_minus_1)
  then show ?thesis by (simp add: bit_eq_iff bit_simps)
qed

definition header :: "image \<Rightarrow> nat \<Rightarrow> u8 \<Rightarrow> nat \<Rightarrow> image" where
  "header m i ty n = write_bytes (write_bytes (write_bytes m (inode_at i) [ty]) (inode_at i + 2) (bytes16 (of_nat n)))
     (inode_at i + 1) [of_nat (n div 65536)]"

lemma header_ok:
  assumes "inode_at i + 16 \<le> img_size s" and "n < 2 ^ 24"
  shows "and_then (put (inode_at i) [ty] s) (\<lambda>s. and_then (fill_inode_size (inode_at i) (of_nat n) s) f) =
    f (s\<lparr>img := header (img s) i ty n\<rparr>)"
proof -
  let ?w = "of_nat n :: u32"
  have n: "unat ?w = n" using assms(2) by (intro unat_of_nat_small) simp
  have lo: "(ucast (?w AND 0xFFFF) :: u16) = of_nat n"
  proof -
    have "(ucast (?w AND 0xFFFF) :: u16) = ucast ?w" by (rule ucast_low_half)
    also have "\<dots> = of_nat n" using n by (metis of_nat_unat)
    finally show ?thesis .
  qed
  have hi: "(ucast (drop_bit 16 ?w AND 0xFF) :: u8) = of_nat (n div 65536)"
  proof -
    have "(ucast (drop_bit 16 ?w AND 0xFF) :: u8) = ucast (drop_bit 16 ?w)" by (rule ucast_low_byte)
    also have "\<dots> = of_nat (unat (drop_bit 16 ?w))" by simp
    also have "unat (drop_bit 16 ?w) = n div 65536" using n by (simp add: drop_bit_eq_div unat_div)
    finally show ?thesis .
  qed
  show ?thesis using assms(1) by (simp add: put_ok fill_inode_size_def lo hi header_def)
qed

lemma header_reads:
  "header m i ty n (inode_at i) = ty" "header m i ty n (inode_at i + 1) = of_nat (n div 65536)"
  "rd16 (header m i ty n) (inode_at i + 2) = of_nat n"
proof -
  show "rd16 (header m i ty n) (inode_at i + 2) = of_nat n"
    unfolding header_def by (subst rd16_other) (simp_all add: rd16_write)
qed (simp_all add: header_def write_bytes_def)

lemma header_other: "a < inode_at i \<or> inode_at i + 4 \<le> a \<Longrightarrow> header m i ty n a = m a"
  by (auto simp: header_def write_bytes_def)

text \<open>Together with the list of blocks, the header makes the inode.\<close>

lemma inode_ok_filled:
  assumes f: "filled s i t b (nblocks n) s'" and "i < t" and "n < 2 ^ 24"
    and h: "\<And>a. inode_at i \<le> a \<Longrightarrow> a < inode_at i + 4 \<Longrightarrow> img s a = header m i ty n a"
    and "{inode_at i ..< inode_at i + 16} \<union> {inode_at t ..< inode_at (t + tails (nblocks n))} \<subseteq> A"
    and "t + tails (nblocks n) \<le> 65535" and "b + nblocks n \<le> 65535"
  shows "inode_ok (img s') A i ty n t b"
proof -
  have "inode_at i + 4 \<le> inode_at t" using \<open>i < t\<close> by (simp add: inode_at_def)
  then have "img s' a = header m i ty n a" if "inode_at i \<le> a" "a < inode_at i + 4" for a
    using f h [OF that] that by (auto simp: filled_def list_bytes_def)
  from this [of "inode_at i"] this [of "inode_at i + 1"] this [of "inode_at i + 2"] this [of "inode_at i + 2 + 1"]
  have "img s' (inode_at i) = header m i ty n (inode_at i)" "img s' (inode_at i + 1) = header m i ty n (inode_at i + 1)"
    "rd16 (img s') (inode_at i + 2) = rd16 (header m i ty n) (inode_at i + 2)"
    by (auto intro: rd16_cong)
  then show ?thesis using assms f unfolding inode_ok_def header_reads by (simp add: filled_def)
qed

section \<open>Stored directories\<close>

text \<open>Inode \<open>i\<close> of the image holds a file or directory of the host, blocks counted from offset \<open>orig\<close>; all bytes
  this depends on lie in \<open>A\<close>. The entries of a directory stand from offset \<open>p\<close> on.\<close>

function (sequential) stored :: "nat \<Rightarrow> image \<Rightarrow> nat set \<Rightarrow> nat \<Rightarrow> host \<Rightarrow> bool"
  and stored_entries :: "nat \<Rightarrow> image \<Rightarrow> nat set \<Rightarrow> nat \<Rightarrow> (cstring \<times> host) list \<Rightarrow> bool" where
  "stored orig m A i (Regular xs) \<longleftrightarrow>
     (\<exists>t b. inode_ok m A i 0 (length xs) t b \<and>
        (\<forall>k<length xs. orig + 1024 * b + k \<in> A \<and> m (orig + 1024 * b + k) = xs ! k))"
| "stored orig m A i (Directory es) \<longleftrightarrow>
     (\<exists>t b. inode_ok m A i 1 (256 * count_files es) t b \<and> stored_entries orig m A (orig + 1024 * b) es)"
| "stored orig m A i h \<longleftrightarrow> False"
| "stored_entries orig m A p [] \<longleftrightarrow> True"
| "stored_entries orig m A p ((n, h) # es) \<longleftrightarrow>
     (if dot_name n then stored_entries orig m A p es
      else {p ..< p + 256} \<subseteq> A \<and> (\<forall>k<254. m (p + k) = name_field n ! k) \<and>
           stored orig m A (unat (rd16 m (p + 254))) h \<and> stored_entries orig m A (p + 256) es)"
  by pat_completeness auto
termination
  by (relation "measure (\<lambda>x. case x of Inl (orig, m, A, i, h) \<Rightarrow> size h
                                    | Inr (orig, m, A, p, es) \<Rightarrow> size_list (size_prod (\<lambda>_. 0) size) es)")
     auto

lemma stored_cong:
  "stored orig m A i h \<Longrightarrow> (\<And>a. a \<in> A \<Longrightarrow> m' a = m a) \<Longrightarrow> A \<subseteq> B \<Longrightarrow> stored orig m' B i h"
  "stored_entries orig m A p es \<Longrightarrow> (\<And>a. a \<in> A \<Longrightarrow> m' a = m a) \<Longrightarrow> A \<subseteq> B \<Longrightarrow> stored_entries orig m' B p es"
proof (induction orig m A i h and orig m A p es rule: stored_stored_entries.induct)
  case (1 orig m A i xs)
  then obtain t b where ok: "inode_ok m A i 0 (length xs) t b"
    and xs: "\<forall>k<length xs. orig + 1024 * b + k \<in> A \<and> m (orig + 1024 * b + k) = xs ! k" by auto
  have "\<forall>k<length xs. orig + 1024 * b + k \<in> B \<and> m' (orig + 1024 * b + k) = xs ! k"
    using xs "1.prems"(2,3) by auto
  with inode_ok_cong [OF ok "1.prems"(2,3)] show ?case by auto
next
  case (2 orig m A i es)
  then obtain t b where ok: "inode_ok m A i 1 (256 * count_files es) t b"
    and es: "stored_entries orig m A (orig + 1024 * b) es" by auto
  from inode_ok_cong [OF ok "2.prems"(2,3)] "2.IH" [OF es "2.prems"(2,3)] show ?case by auto
next
  case (5 orig m A p n h es)
  show ?case
  proof (cases "dot_name n")
    case True
    then show ?thesis using 5 by simp
  next
    case False
    then have A: "{p ..< p + 256} \<subseteq> A" "\<forall>k<254. m (p + k) = name_field n ! k"
      and s: "stored orig m A (unat (rd16 m (p + 254))) h" "stored_entries orig m A (p + 256) es"
      using "5.prems"(1) by simp_all
    have m: "m' (p + k) = m (p + k)" if "k < 256" for k by (rule "5.prems"(2), rule subsetD [OF A(1)]) (use that in simp)
    have "rd16 m' (p + 254) = rd16 m (p + 254)" using m [of 254] m [of 255] by (intro rd16_cong) (simp_all add: add.commute)
    then show ?thesis
      using False A m "5.IH"(2) [OF False s(1) "5.prems"(2,3)] "5.IH"(3) [OF False s(2) "5.prems"(2,3)] "5.prems"(3)
      by (simp add: subset_trans [OF A(1)])
  qed
qed simp_all

section \<open>Visiting a file\<close>

text \<open>The inodes and blocks handed out between two states, as offsets.\<close>

definition foot :: "nat \<Rightarrow> nat \<Rightarrow> nat \<Rightarrow> nat \<Rightarrow> nat \<Rightarrow> nat set" where
  "foot orig i i' b b' = {inode_at i ..< inode_at i'} \<union> {orig + 1024 * b ..< orig + 1024 * b'}"

text \<open>The image has room for the inodes below \<open>i'\<close>, which are still empty, and the blocks below \<open>b'\<close>.\<close>

definition room :: "mkfs \<Rightarrow> nat \<Rightarrow> nat \<Rightarrow> bool" where
  "room s i' b' \<longleftrightarrow> i' \<le> unat (num_inodes s) \<and> inode_at i' \<le> start_block s \<and> b' \<le> 65535 \<and>
     start_block s + 1024 * b' \<le> img_size s \<and>
     (\<forall>a. inode_at (unat (next_inode_id s)) \<le> a \<and> a < inode_at i' \<longrightarrow> img s a = 0)"

definition moved :: "mkfs \<Rightarrow> nat \<Rightarrow> nat \<Rightarrow> mkfs \<Rightarrow> bool" where
  "moved s i' b' s' \<longleftrightarrow> img_size s' = img_size s \<and> num_inodes s' = num_inodes s \<and> start_block s' = start_block s \<and>
     next_inode_id s' = of_nat i' \<and> next_block_id s' = of_nat b'"

lemma room_mono: "room s i' b' \<Longrightarrow> i \<le> i' \<Longrightarrow> b \<le> b' \<Longrightarrow> room s i b"
  by (auto simp: room_def inode_at_def)

lemma filledD:
  assumes "filled s i t b k s'"
  shows "img_size s' = img_size s" "num_inodes s' = num_inodes s" "start_block s' = start_block s"
    "next_inode_id s' = of_nat (t + tails k)" "next_block_id s' = next_block_id s"
proof -
  have "s' = s\<lparr>img := img s', next_inode_id := of_nat (t + tails k)\<rparr>" using assms unfolding filled_def by blast
  note e = arg_cong [OF this]
  show "img_size s' = img_size s" "start_block s' = start_block s" using e [of img_size] e [of start_block] by simp_all
  show "num_inodes s' = num_inodes s" "next_inode_id s' = of_nat (t + tails k)" "next_block_id s' = next_block_id s"
    using e [of num_inodes] e [of next_inode_id] e [of next_block_id] by simp_all
qed

lemma blocks_u16:
  assumes "n < 2 ^ 24"
  shows "(ucast (div_ceil (of_nat n) 1024) :: u16) = of_nat (nblocks n)" and "nblocks n < 2 ^ 24"
proof -
  show "nblocks n < 2 ^ 24" using assms unfolding nblocks_def by (intro less_mult_imp_div_less) simp
  show "(ucast (div_ceil (of_nat n) 1024) :: u16) = of_nat (nblocks n)"
  proof (cases "n = 0")
    case True
    then show ?thesis by (simp add: div_ceil_def nblocks_def)
  next
    case False
    have u: "unat (of_nat n :: u32) = n" using assms by (intro unat_of_nat_small) simp
    with False have "(of_nat n :: u32) \<noteq> 0" by (metis unat_0)
    then have "unat (div_ceil (of_nat n) 1024) = nblocks n" using u by (simp add: unat_div_ceil nblocks_def)
    then show ?thesis by (metis of_nat_unat)
  qed
qed

lemma nblocks_cover: "n \<le> 1024 * nblocks n"
  using dividend_less_div_times [of 1024 "n + 1023"] by (simp add: nblocks_def)

text \<open>What is written for an inode and the ones its list of blocks goes on in.\<close>

definition inode_bytes :: "nat \<Rightarrow> nat \<Rightarrow> nat \<Rightarrow> nat set" where
  "inode_bytes i t n = {inode_at i ..< inode_at i + 16} \<union> {inode_at t ..< inode_at (t + tails (nblocks n))}"

lemma header_write: "inode_at i + 4 \<le> p \<Longrightarrow> write_bytes (header m i ty n) p xs = header (write_bytes m p xs) i ty n"
  by (rule ext) (auto simp: header_def write_bytes_def)

lemma finish_inode:
  assumes i: "i < t" and n: "n < 2 ^ 24" and ni: "next_inode_id s = of_nat t"
    and t: "t + tails (nblocks n) \<le> 65535" "inode_at (t + tails (nblocks n)) \<le> img_size s"
    and b: "unat b + nblocks n \<le> 65535" and z: "img s (inode_at i + 14) = 0" "img s (inode_at i + 15) = 0"
  obtains s' where "fill_inode_blocks (inode_at i) (of_nat (nblocks n)) b (s\<lparr>img := header (img s) i ty n\<rparr>) = Inr s'"
    and "moved s (t + tails (nblocks n)) (unat (next_block_id s)) s'"
    and "\<And>A. inode_bytes i t n \<subseteq> A \<Longrightarrow> inode_ok (img s') A i ty n t (unat b)"
    and "\<And>a. a \<notin> inode_bytes i t n \<Longrightarrow> img s' a = img s a"
proof -
  let ?s = "s\<lparr>img := header (img s) i ty n\<rparr>" and ?k = "of_nat (nblocks n) :: u16"
  have k: "unat ?k = nblocks n" using b by (intro unat_of_nat_small) simp
  have "rd16 (img ?s) (inode_at i + 14) = 0" using z by (simp add: rd16_def header_other add.commute)
  with fill_inode_blocks_ok [of i t ?k ?s b] i t ni obtain s' where
    run: "fill_inode_blocks (inode_at i) ?k b ?s = Inr s'" and f: "filled ?s i t (unat b) (nblocks n) s'" unfolding k by auto
  have ok: "inode_ok (img s') A i ty n t (unat b)" if "inode_bytes i t n \<subseteq> A" for A
    by (rule inode_ok_filled [OF f i n _ that [unfolded inode_bytes_def] t(1) b]) simp
  have "img s' a = img s a" if a: "a \<notin> inode_bytes i t n" for a
  proof -
    have "a \<notin> list_bytes i t (tails (nblocks n))" using a by (auto simp: inode_bytes_def list_bytes_def)
    then have "img s' a = header (img s) i ty n a" using f by (simp add: filled_def)
    also have "\<dots> = img s a" using a by (intro header_other) (auto simp: inode_bytes_def)
    finally show ?thesis .
  qed
  with that [OF run _ ok] filledD [OF f] show thesis by (simp add: moved_def)
qed

lemma visit_file_ok:
  assumes n: "length xs < 2 ^ 24" and i: "unat (next_inode_id s) = i" and b: "unat (next_block_id s) = b"
    and i': "i' = i + 1 + tails (nblocks (length xs))" and b': "b' = b + nblocks (length xs)" and r: "room s i' b'"
  shows "\<exists>s'. visit_file xs s = Inr (s', next_inode_id s) \<and> moved s i' b' s' \<and>
    (\<forall>a. a \<notin> foot (start_block s) i i' b b' \<longrightarrow> img s' a = img s a) \<and>
    stored (start_block s) (img s') (foot (start_block s) i i' b b') i (Regular xs)"
proof -
  let ?n = "length xs" and ?o = "start_block s" and ?F = "foot (start_block s) i i' b b'"
  have room: "i' \<le> 65535" "inode_at i' \<le> ?o" "b' \<le> 65535" "?o + 1024 * b' \<le> img_size s"
    and empty: "\<And>a. inode_at i \<le> a \<Longrightarrow> a < inode_at i' \<Longrightarrow> img s a = 0"
    using r i unat_u16_max [of "num_inodes s"] by (auto simp: room_def)
  let ?s1 = "s\<lparr>next_inode_id := next_inode_id s + 1, next_block_id := next_block_id s + of_nat (nblocks ?n)\<rparr>"
  let ?p = "?o + 1024 * b"
  let ?s2 = "?s1\<lparr>img := write_bytes (img s) ?p xs\<rparr>"
  have in_o: "inode_at i + 16 \<le> ?o" using room(2) i' by (simp add: inode_at_def)
  have len: "?p + ?n \<le> ?o + 1024 * b'" using nblocks_cover [of ?n] by (simp add: b')
  have hd: "and_then (put (inode_at i) [0] ?s1) (\<lambda>s. and_then (fill_inode_size (inode_at i) (of_nat ?n) s) f) =
      f (?s1\<lparr>img := header (img s) i 0 ?n\<rparr>)" for f
    using header_ok [of i ?s1 ?n 0 f] n in_o room(4) by simp
  have fr: "fread_loop ?p xs (?s1\<lparr>img := header (img s) i 0 ?n\<rparr>) = Inr (?s2\<lparr>img := header (img ?s2) i 0 ?n\<rparr>)"
    using fread_loop_ok [of ?p xs "?s1\<lparr>img := header (img s) i 0 ?n\<rparr>"] len room(4) header_write [of i ?p] in_o by simp
  have ni: "next_inode_id s = of_nat i" "next_block_id s = of_nat b" unfolding i [symmetric] b [symmetric] by simp_all
  have z: "img ?s2 (inode_at i + j) = 0" if "j < 16" for j
    using that in_o i' empty [of "inode_at i + j"] by (simp add: write_bytes_other inode_at_def)
  have ub: "unat (next_block_id ?s2) = b'" using room(3) ni(2) b' by (simp add: unat_of_nat_small flip: of_nat_add)
  obtain s' where fb: "fill_inode_blocks (inode_at i) (of_nat (nblocks ?n)) (next_block_id s) (?s2\<lparr>img := header (img ?s2) i 0 ?n\<rparr>) = Inr s'"
    and mv: "moved ?s2 i' b' s'" and ino: "\<And>A. inode_bytes i (i + 1) ?n \<subseteq> A \<Longrightarrow> inode_ok (img s') A i 0 ?n (i + 1) b"
    and out: "\<And>a. a \<notin> inode_bytes i (i + 1) ?n \<Longrightarrow> img s' a = img ?s2 a"
    using finish_inode [of i "i + 1" ?n ?s2 "next_block_id s" 0] n room i' b' b ni(1) z [of 14] z [of 15] ub by auto
  have N: "inode_bytes i (i + 1) ?n \<subseteq> {inode_at i ..< inode_at i'}" by (auto simp: inode_bytes_def i' inode_at_def)
  have "visit_file xs s = Inr (s', next_inode_id s)"
    unfolding visit_file_def Let_def blocks_u16(1) [OF n] i b hd fr and_then_Inr fb by simp
  moreover have "moved s i' b' s'" using mv by (simp add: moved_def)
  moreover have "img s' a = img s a" if "a \<notin> ?F" for a
  proof -
    have "a \<notin> inode_bytes i (i + 1) ?n" using that N by (auto simp: foot_def)
    moreover have "a < ?p \<or> ?p + ?n \<le> a" using that len by (auto simp: foot_def)
    ultimately show ?thesis using out by (simp add: write_bytes_other)
  qed
  moreover have "inode_ok (img s') ?F i 0 ?n (i + 1) b" using N by (intro ino) (auto simp: foot_def)
  moreover have "?p + k \<in> ?F \<and> img s' (?p + k) = xs ! k" if "k < ?n" for k
  proof
    show "?p + k \<in> ?F" using that len by (auto simp: foot_def)
    have "?p + k \<notin> inode_bytes i (i + 1) ?n" using subsetD [OF N, of "?p + k"] room(2) by auto
    then show "img s' (?p + k) = xs ! k" using that out by (simp add: write_bytes_at)
  qed
  ultimately show ?thesis by auto
qed

section \<open>Visiting a directory\<close>

text \<open>The inodes and the blocks a host file takes, and what the tool can store: names that fit into the path
  buffer, sizes of 24 bits, regular files and directories only.\<close>

function (sequential) inodes_of :: "host \<Rightarrow> nat" and inodes_in :: "(cstring \<times> host) list \<Rightarrow> nat" where
  "inodes_of (Regular xs) = 1 + tails (nblocks (length xs))"
| "inodes_of (Directory es) = 1 + inodes_in es + tails (nblocks (256 * count_files es))"
| "inodes_of h = 0"
| "inodes_in [] = 0"
| "inodes_in ((n, h) # es) = (if dot_name n then 0 else inodes_of h) + inodes_in es"
  by pat_completeness auto
termination
  by (relation "measure (\<lambda>x. case x of Inl h \<Rightarrow> size h | Inr es \<Rightarrow> size_list (size_prod (\<lambda>_. 0) size) es)") auto

function (sequential) blocks_of :: "host \<Rightarrow> nat" and blocks_in :: "(cstring \<times> host) list \<Rightarrow> nat" where
  "blocks_of (Regular xs) = nblocks (length xs)"
| "blocks_of (Directory es) = nblocks (256 * count_files es) + blocks_in es"
| "blocks_of h = 0"
| "blocks_in [] = 0"
| "blocks_in ((n, h) # es) = (if dot_name n then 0 else blocks_of h) + blocks_in es"
  by pat_completeness auto
termination
  by (relation "measure (\<lambda>x. case x of Inl h \<Rightarrow> size h | Inr es \<Rightarrow> size_list (size_prod (\<lambda>_. 0) size) es)") auto

function (sequential) storable :: "host \<Rightarrow> bool" and storable_in :: "(cstring \<times> host) list \<Rightarrow> bool" where
  "storable (Regular xs) \<longleftrightarrow> length xs < 2 ^ 24"
| "storable (Directory es) \<longleftrightarrow> 256 * count_files es < 2 ^ 24 \<and> storable_in es"
| "storable h \<longleftrightarrow> False"
| "storable_in [] \<longleftrightarrow> True"
| "storable_in ((n, h) # es) \<longleftrightarrow> (dot_name n \<or> length n \<le> 253 \<and> storable h) \<and> storable_in es"
  by pat_completeness auto
termination
  by (relation "measure (\<lambda>x. case x of Inl h \<Rightarrow> size h | Inr es \<Rightarrow> size_list (size_prod (\<lambda>_. 0) size) es)") auto

definition visit_child :: "host \<Rightarrow> mkfs \<Rightarrow> mkfs_error + (mkfs \<times> u16)" where
  "visit_child h s = (case h of Regular xs \<Rightarrow> visit_file xs s | Directory es \<Rightarrow> visit_dir es s
     | Special \<Rightarrow> Inl Unsupported_Type | Unreadable \<Rightarrow> Inl Cannot_Open)"

lemma blocks_bytes: "n < 2 ^ 24 \<Longrightarrow> unat (1024 * div_ceil (of_nat n) 1024) = 1024 * nblocks n"
proof (cases "n = 0")
  case True
  then show ?thesis by (simp add: div_ceil_def nblocks_def)
next
  case False
  assume "n < 2 ^ 24"
  then have u: "unat (of_nat n :: u32) = n" by (intro unat_of_nat_small) simp
  with False have "(of_nat n :: u32) \<noteq> 0" by (metis unat_0)
  then have d: "unat (div_ceil (of_nat n) 1024) = nblocks n" using u by (simp add: unat_div_ceil nblocks_def)
  have "nblocks n < 16385" using \<open>n < 2 ^ 24\<close> unfolding nblocks_def by (intro less_mult_imp_div_less) simp
  then have "unat (1024 :: u32) * unat (div_ceil (of_nat n) 1024) < 2 ^ 32" using d by simp
  then show ?thesis using d by (subst unat_mult_nowrap) simp_all
qed

lemma foot_split:
  assumes "i \<le> j" and "j \<le> k" and "a \<le> b" and "b \<le> c" and "inode_at k \<le> orig"
  shows "foot orig i j a b \<union> foot orig j k b c = foot orig i k a c" "foot orig i j a b \<inter> foot orig j k b c = {}"
proof -
  have l: "inode_at i \<le> inode_at j" "inode_at j \<le> inode_at k" using assms by (simp_all add: inode_at_def)
  with assms show "foot orig i j a b \<union> foot orig j k b c = foot orig i k a c" by (auto simp: foot_def)
  from l assms show "foot orig i j a b \<inter> foot orig j k b c = {}" by (auto simp: foot_def)
qed

text \<open>The outcome of visiting: inodes below \<open>i'\<close> and blocks below \<open>b'\<close> are taken, and only they and the bytes in
  \<open>X\<close> are written.\<close>

definition added :: "mkfs \<Rightarrow> nat \<Rightarrow> nat \<Rightarrow> nat set \<Rightarrow> mkfs \<Rightarrow> bool" where
  "added s i' b' X s' \<longleftrightarrow> moved s i' b' s' \<and>
     (\<forall>a. a \<notin> foot (start_block s) (unat (next_inode_id s)) i' (unat (next_block_id s)) b' \<union> X \<longrightarrow> img s' a = img s a)"

lemma entry_written:
  assumes "q + 256 \<le> img_size s" and "length n \<le> 253"
  shows "\<exists>m. and_then (put (q + 254) (bytes16 c) s) (put q (name_field n)) = Inr (s\<lparr>img := m\<rparr>) \<and>
    (\<forall>k<254. m (q + k) = name_field n ! k) \<and> rd16 m (q + 254) = c \<and> (\<forall>a. a \<notin> {q ..< q + 256} \<longrightarrow> m a = img s a)"
proof (intro exI conjI)
  let ?m = "write_bytes (write_bytes (img s) (q + 254) (bytes16 c)) q (name_field n)"
  show "and_then (put (q + 254) (bytes16 c) s) (put q (name_field n)) = Inr (s\<lparr>img := ?m\<rparr>)"
    using assms(1) by (simp add: put_ok)
  show "\<forall>k<254. ?m (q + k) = name_field n ! k" by (simp add: write_bytes_at)
  show "rd16 ?m (q + 254) = c" by (subst rd16_other) (simp_all add: rd16_write)
  show "\<forall>a. a \<notin> {q ..< q + 256} \<longrightarrow> ?m a = img s a" by (auto simp: write_bytes_def)
qed

text \<open>What is shown of a file and of the entries of a directory, for every state with room.\<close>

definition child_ok :: "host \<Rightarrow> bool" where
  "child_ok h \<longleftrightarrow> (\<forall>s i b. unat (next_inode_id s) = i \<longrightarrow> unat (next_block_id s) = b \<longrightarrow>
     room s (i + inodes_of h) (b + blocks_of h) \<longrightarrow>
     (\<exists>s'. visit_child h s = Inr (s', next_inode_id s) \<and> added s (i + inodes_of h) (b + blocks_of h) {} s' \<and>
        stored (start_block s) (img s') (foot (start_block s) i (i + inodes_of h) b (b + blocks_of h)) i h))"

definition entries_ok :: "(cstring \<times> host) list \<Rightarrow> bool" where
  "entries_ok es \<longleftrightarrow> (\<forall>s i b p w X. unat (next_inode_id s) = i \<longrightarrow> unat (next_block_id s) = b \<longrightarrow>
     room s (i + inodes_in es) (b + blocks_in es) \<longrightarrow>
     start_block s \<le> p \<longrightarrow> p + 256 * (unat w + count_files es) \<le> start_block s + 1024 * b \<longrightarrow>
     unat w + count_files es < 2 ^ 24 \<longrightarrow>
     X = {p + 256 * unat w ..< p + 256 * (unat w + count_files es)} \<longrightarrow>
     (\<exists>s'. visit_entries es p w s = Inr s' \<and> added s (i + inodes_in es) (b + blocks_in es) X s' \<and>
        stored_entries (start_block s) (img s')
          (foot (start_block s) i (i + inodes_in es) b (b + blocks_in es) \<union> X) (p + 256 * unat w) es))"

text \<open>A directory takes its inode and its blocks, which are cleared, before its entries are visited.\<close>

definition open_dir :: "(cstring \<times> host) list \<Rightarrow> mkfs \<Rightarrow> mkfs" where
  "open_dir es s =
     (let k = nblocks (256 * count_files es)
      in s\<lparr>next_inode_id := next_inode_id s + 1, next_block_id := next_block_id s + of_nat k,
           img := write_bytes (img s) (start_block s + 1024 * unat (next_block_id s)) (replicate (1024 * k) 0)\<rparr>)"

lemma directory_entries:
  assumes es: "entries_ok es" and n: "256 * count_files es < 2 ^ 24"
    and i: "unat (next_inode_id s) = i" and b: "unat (next_block_id s) = b"
    and r: "room s (i + inodes_of (Directory es)) (b + blocks_of (Directory es))"
  defines "k \<equiv> nblocks (256 * count_files es)" and "p \<equiv> start_block s + 1024 * b" and "t \<equiv> i + 1 + inodes_in es"
  defines "F \<equiv> foot (start_block s) (i + 1) t (b + k) (b + k + blocks_in es) \<union> {p ..< p + 256 * count_files es}"
  obtains s' where "visit_entries es p 0 (open_dir es s) = Inr s'" and "moved s t (b + k + blocks_in es) s'"
    and "\<And>a. a \<notin> F \<Longrightarrow> img s' a = img (open_dir es s) a" and "stored_entries (start_block s) (img s') F p es"
proof -
  let ?s = "open_dir es s" and ?o = "start_block s"
  have room: "t \<le> unat (num_inodes s)" "t \<le> 65535" "inode_at t \<le> ?o" "b + k + blocks_in es \<le> 65535"
      "?o + 1024 * (b + k + blocks_in es) \<le> img_size s"
    and empty: "\<And>a. inode_at i \<le> a \<Longrightarrow> a < inode_at t \<Longrightarrow> img s a = 0"
    using room_mono [OF r, of t "b + k + blocks_in es"] i unat_u16_max [of "num_inodes s"]
    by (auto simp: room_def t_def k_def)
  have u: "unat (next_inode_id ?s) = i + 1" "unat (next_block_id ?s) = b + k"
  proof -
    have "next_inode_id ?s = of_nat (i + 1)" "next_block_id ?s = of_nat (b + k)"
      unfolding i [symmetric] b [symmetric] by (simp_all add: open_dir_def Let_def k_def)
    then show "unat (next_inode_id ?s) = i + 1" "unat (next_block_id ?s) = b + k"
      using room(2,4) by (simp_all only:) (rule unat_of_nat_small; simp add: t_def)+
  qed
  have s: "start_block ?s = ?o" "num_inodes ?s = num_inodes s" "img_size ?s = img_size s" by (simp_all add: open_dir_def Let_def)
  have "img ?s a = 0" if "inode_at (i + 1) \<le> a" "a < inode_at t" for a
    using that room(3) empty [of a] by (simp add: open_dir_def Let_def inode_at_def write_bytes_other)
  then have "room ?s (i + 1 + inodes_in es) (b + k + blocks_in es)" using room s unfolding room_def u t_def [symmetric] by auto
  from es [unfolded entries_ok_def, rule_format, OF u this, of p 0 "{p ..< p + 256 * count_files es}"]
  obtain s' where v: "visit_entries es p 0 ?s = Inr s'" and a: "added ?s t (b + k + blocks_in es) {p ..< p + 256 * count_files es} s'"
    and st: "stored_entries ?o (img s') F p es"
    using s nblocks_cover [of "256 * count_files es"] n by (auto simp: p_def k_def t_def F_def algebra_simps)
  have out: "img s' x = img ?s x" if "x \<notin> F" for x using a that unfolding added_def u s F_def by blast
  have "moved s t (b + k + blocks_in es) s'" using a s by (simp add: added_def moved_def)
  from that [OF v this out st] show thesis .
qed

lemma directory_step:
  assumes es: "entries_ok es" and n: "256 * count_files es < 2 ^ 24"
  shows "child_ok (Directory es)"
  unfolding child_ok_def
proof (intro allI impI)
  fix s i b
  assume i: "unat (next_inode_id s) = i" and b: "unat (next_block_id s) = b"
    and r: "room s (i + inodes_of (Directory es)) (b + blocks_of (Directory es))"
  let ?o = "start_block s" and ?n = "256 * count_files es"
  let ?k = "nblocks ?n" and ?t = "i + 1 + inodes_in es" and ?p = "?o + 1024 * b"
  let ?i' = "i + inodes_of (Directory es)" and ?b' = "b + ?k + blocks_in es"
  let ?X = "{?p ..< ?p + ?n}" and ?F = "foot ?o i ?i' b ?b'"
  let ?F2 = "foot ?o (i + 1) ?t (b + ?k) ?b' \<union> ?X" and ?N = "inode_bytes i ?t ?n"
  have i': "?i' = ?t + tails ?k" and b': "b + blocks_of (Directory es) = ?b'" by simp_all
  have room: "?i' \<le> unat (num_inodes s)" "?i' \<le> 65535" "inode_at ?i' \<le> ?o" "?b' \<le> 65535" "?o + 1024 * ?b' \<le> img_size s"
    and empty: "\<And>a. inode_at i \<le> a \<Longrightarrow> a < inode_at ?i' \<Longrightarrow> img s a = 0"
    using r i unat_u16_max [of "num_inodes s"] unfolding b' by (auto simp: room_def)
  have in_o: "inode_at i + 16 \<le> ?o" using room(3) i' by (simp add: inode_at_def)
  obtain s3 where v: "visit_entries es ?p 0 (open_dir es s) = Inr s3" and m3: "moved s ?t ?b' s3"
    and out3: "\<And>a. a \<notin> ?F2 \<Longrightarrow> img s3 a = img (open_dir es s) a" and st3: "stored_entries ?o (img s3) ?F2 ?p es"
    by (rule directory_entries [OF es n i b r], rule that)
  have op: "img (open_dir es s) a = img s a" if "a < ?p \<or> ?p + 1024 * ?k \<le> a" for a
    using that b by (simp add: open_dir_def Let_def write_bytes_other)
  have N: "?N \<subseteq> ?F" "?F2 \<subseteq> ?F" "?F2 \<inter> ?N = {}"
    using nblocks_cover [of ?n] room(3) by (auto simp: inode_bytes_def foot_def inode_at_def)
  have z: "img s3 (inode_at i + j) = 0" if "j < 16" for j
  proof -
    have "inode_at i + j \<notin> ?F2" using that in_o by (auto simp: foot_def inode_at_def)
    then have "img s3 (inode_at i + j) = img s (inode_at i + j)" using out3 op that in_o by simp
    also have "\<dots> = 0" using that i' by (intro empty) (simp_all add: inode_at_def)
    finally show ?thesis .
  qed
  have hd: "and_then (put (inode_at i) [1] s3) (\<lambda>s. and_then (fill_inode_size (inode_at i) (of_nat ?n) s) f) =
      f (s3\<lparr>img := header (img s3) i 1 ?n\<rparr>)" for f
    using header_ok [of i s3 ?n 1 f] n in_o room(5) m3 by (simp add: moved_def)
  have ub: "unat (next_block_id s3) = ?b'" using m3 room(4) by (simp add: moved_def unat_of_nat_small del: of_nat_add)
  have "?t + tails ?k \<le> 65535" "inode_at (?t + tails ?k) \<le> img_size s3" "unat (next_block_id s) + ?k \<le> 65535" "next_inode_id s3 = of_nat ?t"
    using room(2-5) i' m3 b by (simp_all add: moved_def add.assoc)
  from finish_inode [where i = i and ty = 1, OF _ n this(4,1-3) z z, unfolded ub b] obtain s' where
    fb: "fill_inode_blocks (inode_at i) (of_nat ?k) (next_block_id s) (s3\<lparr>img := header (img s3) i 1 ?n\<rparr>) = Inr s'"
    and mv: "moved s3 (?t + tails ?k) ?b' s'" and ino: "\<And>A. ?N \<subseteq> A \<Longrightarrow> inode_ok (img s') A i 1 ?n ?t b"
    and out: "\<And>a. a \<notin> ?N \<Longrightarrow> img s' a = img s3 a" by auto
  have put: "put ?p (replicate (1024 * ?k) 0) (s\<lparr>next_inode_id := next_inode_id s + 1, next_block_id := next_block_id s + of_nat ?k\<rparr>) = Inr (open_dir es s)"
    using room(5) b by (subst put_ok) (simp_all add: open_dir_def Let_def)
  have w: "(of_nat (count_files es) * 256 :: u32) = of_nat ?n" "256 * (of_nat (count_files es) :: u32) = of_nat ?n" by simp_all
  have "next_inode_id s \<noteq> num_inodes s" using room(1) i by auto
  then have "visit_dir es s = Inr (s', next_inode_id s)"
    using put v fb hd [of "\<lambda>s0. and_then (fill_inode_blocks (inode_at i) (of_nat ?k) (next_block_id s) s0) (\<lambda>s0. Inr (s0, next_inode_id s))"]
    unfolding visit_dir.simps Let_def i b w blocks_u16(1) [OF n] blocks_bytes [OF n]
    by (simp add: i b blocks_u16(1) [OF n] blocks_bytes [OF n])
  moreover have "moved s ?i' ?b' s'" using mv m3 i' by (simp add: moved_def)
  moreover have "img s' a = img s a" if a: "a \<notin> ?F" for a
  proof -
    have "a \<notin> ?N" "a \<notin> ?F2" using a N by blast+
    then show ?thesis using out [of a] out3 [of a] op [of a] a by (auto simp: foot_def)
  qed
  moreover have "inode_ok (img s') ?F i 1 ?n ?t b" by (rule ino) (rule N(1))
  moreover have "stored_entries ?o (img s') ?F ?p es"
    by (rule stored_cong(2) [OF st3 out N(2)]) (use N(3) in blast)
  ultimately show "\<exists>s'. visit_child (Directory es) s = Inr (s', next_inode_id s) \<and>
      added s ?i' (b + blocks_of (Directory es)) {} s' \<and> stored ?o (img s') (foot ?o i ?i' b (b + blocks_of (Directory es))) i (Directory es)"
    using i b unfolding b' by (auto simp: visit_child_def added_def)
qed

lemma entry_step:
  assumes h: "child_ok h" and es: "entries_ok es" and d: "\<not> dot_name n" and n: "length n \<le> 253"
  shows "entries_ok ((n, h) # es)"
  unfolding entries_ok_def
proof (intro allI impI)
  fix s :: mkfs and i b p w X
  let ?es = "(n, h) # es" and ?o = "start_block s"
  let ?c = "count_files es"
  assume i: "unat (next_inode_id s) = i" and b: "unat (next_block_id s) = b"
    and r: "room s (i + inodes_in ?es) (b + blocks_in ?es)" and p: "?o \<le> p"
    and pb: "p + 256 * (unat (w :: u32) + count_files ?es) \<le> ?o + 1024 * b" and wc: "unat w + count_files ?es < 2 ^ 24"
    and X: "X = {p + 256 * unat w ..< p + 256 * (unat w + count_files ?es)}"
  have c: "count_files ?es = Suc ?c" using d by (simp add: count_files_def)
  let ?i1 = "i + inodes_of h" and ?b1 = "b + blocks_of h" and ?q = "p + 256 * unat w"
  let ?i' = "?i1 + inodes_in es" and ?b' = "?b1 + blocks_in es"
  have need: "i + inodes_in ?es = ?i'" "b + blocks_in ?es = ?b'" using d by simp_all
  have r': "room s ?i' ?b'" using r unfolding need .
  then have lim: "?i' \<le> 65535" "inode_at ?i' \<le> ?o" "?b' \<le> 65535" "?o + 1024 * ?b' \<le> img_size s"
    and empty: "\<And>a. inode_at i \<le> a \<Longrightarrow> a < inode_at ?i' \<Longrightarrow> img s a = 0"
    using i unat_u16_max [of "num_inodes s"] by (auto simp: room_def)
  have q: "?q + 256 \<le> ?o + 1024 * b" using pb c by simp
  have "room s ?i1 ?b1" by (rule room_mono [OF r']) simp_all
  then obtain s1 where v1: "visit_child h s = Inr (s1, next_inode_id s)" and a1: "added s ?i1 ?b1 {} s1"
    and st1: "stored ?o (img s1) (foot ?o i ?i1 b ?b1) i h" using h i b unfolding child_ok_def by blast
  have m1: "moved s ?i1 ?b1 s1" using a1 by (simp add: added_def)
  have out1: "img s1 a = img s a" if "a \<notin> foot ?o i ?i1 b ?b1" for a using a1 that i b by (simp add: added_def)
  have "?q + 256 \<le> img_size s1" using q lim(4) m1 by (simp add: moved_def)
  from entry_written [OF this n, of "next_inode_id s"] obtain m2 where
    v2: "and_then (put (?q + 254) (bytes16 (next_inode_id s)) s1) (put ?q (name_field n)) = Inr (s1\<lparr>img := m2\<rparr>)"
    and nm: "\<forall>k<254. m2 (?q + k) = name_field n ! k" and id: "rd16 m2 (?q + 254) = next_inode_id s"
    and out2: "\<And>a. a \<notin> {?q ..< ?q + 256} \<Longrightarrow> m2 a = img s1 a" by blast
  let ?s2 = "s1\<lparr>img := m2\<rparr>"
  have u2: "unat (next_inode_id ?s2) = ?i1" "unat (next_block_id ?s2) = ?b1"
    using m1 lim by (simp_all add: moved_def unat_of_nat_small del: of_nat_add)
  have s2: "start_block ?s2 = ?o" using m1 by (simp add: moved_def)
  have "m2 a = 0" if "inode_at ?i1 \<le> a" "a < inode_at ?i'" for a
  proof -
    have "a \<notin> {?q ..< ?q + 256}" "a \<notin> foot ?o i ?i1 b ?b1" "inode_at i \<le> a"
      using that lim(2) p by (auto simp: foot_def inode_at_def)
    then show ?thesis using out1 out2 empty [of a] that(2) by simp
  qed
  then have r2: "room ?s2 ?i' ?b'" using r' m1 u2 unfolding room_def moved_def by simp
  have w1: "unat (w + 1) = Suc (unat w)" using wc c by (subst unat_add_nowrap) simp_all
  let ?Y = "{p + 256 * unat (w + 1) ..< p + 256 * (unat (w + 1) + ?c)}"
  let ?F2 = "foot ?o ?i1 ?i' ?b1 ?b' \<union> ?Y"
  have "p + 256 * (unat (w + 1) + ?c) \<le> start_block ?s2 + 1024 * ?b1" "unat (w + 1) + ?c < 2 ^ 24" "start_block ?s2 \<le> p"
    using pb wc w1 c s2 p by simp_all
  then obtain s' where v3: "visit_entries es p (w + 1) ?s2 = Inr s'" and a3: "added ?s2 ?i' ?b' ?Y s'"
    and st3: "stored_entries ?o (img s') ?F2 (p + 256 * unat (w + 1)) es"
    using es u2 r2 s2 unfolding entries_ok_def by (metis (no_types, lifting))
  have m3: "moved s ?i' ?b' s'" using a3 m1 by (simp add: added_def moved_def)
  have out3: "img s' a = m2 a" if "a \<notin> ?F2" for a using a3 that unfolding added_def u2 s2 by simp
  let ?F1 = "foot ?o i ?i1 b ?b1" and ?F = "foot ?o i ?i' b ?b' \<union> X"
  have Y: "?Y = {?q + 256 ..< ?q + 256 + 256 * ?c}" and X': "X = {?q ..< ?q + 256} \<union> ?Y" unfolding X w1 c by auto
  have top: "?q + 256 + 256 * ?c \<le> ?o + 1024 * b" using pb c by simp
  have dis: "?F1 \<inter> X = {}" "?F1 \<inter> ?F2 = {}" "{?q ..< ?q + 256} \<inter> ?F2 = {}"
    using lim(2) p top unfolding X' Y by (auto simp: foot_def inode_at_def)
  have sub: "?F1 \<subseteq> ?F" "?F2 \<subseteq> ?F" "{?q ..< ?q + 256} \<subseteq> ?F"
    unfolding X' Y by (auto simp: foot_def inode_at_def)
  have keep: "img s' a = img s1 a" if "a \<in> ?F1" for a
    using that dis(1,2) X' out3 [of a] out2 [of a] by (metis (no_types, lifting) UnI1 disjoint_iff)
  have q': "img s' a = m2 a" if "a \<in> {?q ..< ?q + 256}" for a using that dis(3) by (intro out3) blast
  have "rd16 (img s') (?q + 254) = next_inode_id s"
    unfolding id [symmetric] by (rule rd16_cong; rule q') auto
  then have e1: "stored ?o (img s') ?F (unat (rd16 (img s') (?q + 254))) h"
    using stored_cong(1) [OF st1 keep sub(1)] i by simp
  have e2: "\<forall>k<254. img s' (?q + k) = name_field n ! k" using nm q' by simp
  have e3: "stored_entries ?o (img s') ?F (?q + 256) es"
    using stored_cong(2) [OF st3 refl sub(2)] w1 by (simp add: algebra_simps)
  have out: "img s' a = img s a" if "a \<notin> ?F" for a
  proof -
    have "a \<notin> ?F2" "a \<notin> {?q ..< ?q + 256}" "a \<notin> ?F1" using that sub by blast+
    then show ?thesis using out1 out2 out3 by simp
  qed
  have "visit_entries ?es p w s = Inr s'"
    using d n v1 v2 v3 unfolding visit_child_def by simp
  moreover have "added s ?i' ?b' X s'" using m3 out i b by (simp add: added_def)
  moreover have "stored_entries ?o (img s') ?F ?q ?es" using d e1 e2 e3 sub(3) by simp
  ultimately show "\<exists>s'. visit_entries ?es p w s = Inr s' \<and> added s (i + inodes_in ?es) (b + blocks_in ?es) X s' \<and>
        stored_entries ?o (img s') (foot ?o i (i + inodes_in ?es) b (b + blocks_in ?es) \<union> X) ?q ?es"
    unfolding need by blast
qed

lemma storable_ok: "storable h \<Longrightarrow> child_ok h" "storable_in es \<Longrightarrow> entries_ok es"
proof (induction h and es rule: storable_storable_in.induct)
  case (1 xs)
  then show ?case using visit_file_ok [of xs] by (auto simp: child_ok_def visit_child_def added_def)
next
  case (2 es)
  then show ?case using directory_step [of es] by simp
next
  case 4
  show ?case by (auto simp: entries_ok_def added_def moved_def of_nat_unat count_files_def)
next
  case (5 n h es)
  show ?case
  proof (cases "dot_name n")
    case True
    then have "count_files ((n, h) # es) = count_files es" "entries_ok es" using 5 by (simp_all add: count_files_def)
    with True show ?thesis by (simp add: entries_ok_def)
  next
    case False
    with 5 show ?thesis by (intro entry_step) simp_all
  qed
qed simp_all

section \<open>The whole image\<close>

text \<open>The first block.\<close>

definition superblock :: "image \<Rightarrow> u16 \<Rightarrow> u16 \<Rightarrow> bool" where
  "superblock m n b \<longleftrightarrow> m 0 = 0x34 \<and> m 1 = 0xAE \<and> m 2 = 0x12 \<and> m 3 = 0xAE \<and> rd16 m 4 = n \<and> rd16 m 6 = b"

lemma superblock_cong: "superblock m n b \<Longrightarrow> (\<And>a. a < 1024 \<Longrightarrow> m' a = m a) \<Longrightarrow> superblock m' n b"
  by (simp add: superblock_def rd16_def)

lemma write_superblock_ok:
  assumes "1024 \<le> img_size s"
  shows "\<exists>m. write_superblock n b s = Inr (s\<lparr>img := m\<rparr>) \<and> superblock m n b \<and> (\<forall>a\<ge>1024. m a = img s a)"
proof -
  let ?m1 = "write_bytes (img s) 0 (replicate 1024 0)"
  let ?m = "write_bytes (write_bytes (write_bytes ?m1 4 (bytes16 n)) 6 (bytes16 b)) 0 (bytes32 0xAE12AE34)"
  have l: "length (bytes32 v) = 4" for v by (simp add: bytes32_def)
  have "write_superblock n b s = Inr (s\<lparr>img := ?m\<rparr>)"
    using assms by (simp add: write_superblock_def put_ok l)
  moreover have "rd16 ?m 4 = n" by (simp add: rd16_other rd16_write l)
  moreover have "rd16 ?m 6 = b" by (simp add: rd16_other rd16_write l)
  moreover have b: "bytes32 0xAE12AE34 = [0x34, 0xAE, 0x12, 0xAE]" by (simp add: bytes32_def drop_bit_eq_div)
  have at: "?m k = bytes32 0xAE12AE34 ! k" if "k < 4" for k
    using write_bytes_at [of k "bytes32 0xAE12AE34" _ 0] that l by simp
  have "?m 0 = 0x34" "?m 1 = 0xAE" "?m 2 = 0x12" "?m 3 = 0xAE"
    using at [of 0] at [of 1] at [of 2] at [of 3] unfolding b by simp_all
  moreover have "\<forall>a\<ge>1024. ?m a = img s a" by (simp add: write_bytes_other l)
  ultimately show ?thesis unfolding superblock_def by blast
qed

text \<open>The layout of an image of \<open>k\<close> megabytes.\<close>

lemma layout_words:
  fixes k :: nat
  assumes k: "0 < k" "k < 64"
  defines "sz \<equiv> push_bit 20 (word_of_int (int k)) :: u32"
  shows "unat sz = 1048576 * k" and "0 < sint sz" and "(ucast (sz div 1024) :: u16) = of_nat (1024 * k)"
    and "(ucast (div_ceil (ucast (of_nat (1024 * k) :: u16) * 16) 1024) :: u16) = of_nat (16 * k)"
proof -
  have w: "sz = of_nat (1048576 * k)" by (simp add: sz_def push_bit_eq_mult)
  show u: "unat sz = 1048576 * k" unfolding w using k(2) by (intro unat_of_nat_small) simp
  have "uint sz = int (1048576 * k)" using u by (metis uint_nat)
  moreover have "sint sz = signed_take_bit 31 (uint sz)" by (simp add: sint_uint)
  moreover have "signed_take_bit 31 (int (1048576 * k)) = int (1048576 * k)"
    using k(2) by (intro signed_take_bit_int_eq_self) simp_all
  ultimately show "0 < sint sz" using k(1) by simp
  have "unat (sz div 1024) = 1024 * k" using u by (simp add: unat_div)
  then show "(ucast (sz div 1024) :: u16) = of_nat (1024 * k)" by (metis of_nat_unat)
  have b: "(ucast (of_nat (1024 * k) :: u16) :: u32) * 16 = of_nat (16384 * k)"
  proof (rule word_unat_eq_iff [THEN iffD2])
    have "unat (of_nat (1024 * k) :: u16) = 1024 * k" using k(2) by (intro unat_of_nat_small) simp
    moreover have "unat (of_nat (16384 * k) :: u32) = 16384 * k" using k(2) by (intro unat_of_nat_small) simp
    ultimately show "unat ((ucast (of_nat (1024 * k) :: u16) :: u32) * 16) = unat (of_nat (16384 * k) :: u32)"
      using k(2) by (subst unat_mult_nowrap) simp_all
  qed
  have "nblocks (16384 * k) = 16 * k"
    unfolding nblocks_def by (rule div_nat_eqI) simp_all
  with blocks_u16(1) [of "16384 * k"] k(2) b show "(ucast (div_ceil (ucast (of_nat (1024 * k) :: u16) * 16) 1024) :: u16) = of_nat (16 * k)" by simp
qed

text \<open>The tool succeeds on a directory with few enough inodes and blocks, and the image holds it.\<close>

lemma mkfs_main_result:
  assumes k: "0 < k" "k < 64" and st: "storable (Directory root)"
    and ni: "inodes_of (Directory root) \<le> 1008 * k - 2" and nb: "blocks_of (Directory root) \<le> 1008 * k - 1"
  shows "\<exists>m A. mkfs_main (int k) root = Inr m \<and> superblock m (of_nat (1008 * k - 1)) (of_nat (1 + 16 * k)) \<and>
    stored (1024 * (1 + 16 * k)) m A 1 (Directory root) \<and> A \<subseteq> {..< 1048576 * k}"
proof -
  note w = layout_words [OF k]
  let ?sz = "push_bit 20 (word_of_int (int k)) :: u32" and ?o = "1024 * (1 + 16 * k)"
  let ?n = "of_nat (1008 * k - 1) :: u16" and ?b = "of_nat (1 + 16 * k) :: u16"
  have nw: "(of_nat (1024 * k) - of_nat (16 * k) - 1 :: u16) = ?n"
  proof -
    have "(of_nat (1008 * k - 1) :: u16) = of_nat (1008 * k) - 1" using k(1) by (subst of_nat_diff) simp_all
    also have "(of_nat (1008 * k) :: u16) = of_nat (1024 * k) - of_nat (16 * k)" by simp
    finally show ?thesis by simp
  qed
  have bw: "(1 + of_nat (16 * k) :: u16) = ?b" by simp
  have un: "unat ?n = 1008 * k - 1" "unat ?b = 1 + 16 * k" using k(2) by (intro unat_of_nat_small; simp)+
  define s0 where "s0 = \<lparr>img = (\<lambda>_. 0), img_size = 1048576 * k, num_inodes = ?n, next_inode_id = 1, next_block_id = 0, start_block = ?o\<rparr>"
  obtain m1 where ws: "write_superblock ?n ?b s0 = Inr (s0\<lparr>img := m1\<rparr>)" and sb: "superblock m1 ?n ?b"
    and z: "\<forall>a\<ge>1024. m1 a = 0"
    using write_superblock_ok [of s0 ?n ?b] k(1) by (auto simp: s0_def)
  let ?s1 = "s0\<lparr>img := m1\<rparr>"
  let ?i = "1 + inodes_of (Directory root)" and ?bl = "0 + blocks_of (Directory root)"
  have lim: "?i + 1 \<le> 1008 * k" "?bl + 1 \<le> 1008 * k" using ni nb k(1) by linarith+
  have le: "inode_at ?i \<le> ?o" unfolding inode_at_def using lim(1) by simp
  have le2: "?bl \<le> 65535" using lim(2) k(2) by linarith
  have le3: "?o + 1024 * ?bl \<le> 1048576 * k" using mult_le_mono2 [OF lim(2), of 1024] by (simp del: blocks_of.simps)
  have r: "room ?s1 ?i ?bl" unfolding room_def using lim le le2 le3 un z by (simp add: s0_def inode_at_def)
  have u1: "unat (next_inode_id ?s1) = 1" "unat (next_block_id ?s1) = 0" by (simp_all add: s0_def)
  from storable_ok(1) [OF st, unfolded child_ok_def, rule_format, OF u1 r]
  obtain s' where v: "visit_dir root ?s1 = Inr (s', 1)" and a: "added ?s1 ?i ?bl {} s'"
    and sto: "stored ?o (img s') (foot ?o 1 ?i 0 ?bl) 1 (Directory root)"
    by (auto simp: visit_child_def s0_def)
  have "mkfs_main (int k) root = Inr (img s')"
    using w(2) ws v unfolding mkfs_main_def Let_def w(1,3,4) nw bw un s0_def by simp
  moreover have "superblock (img s') ?n ?b"
  proof (rule superblock_cong [OF sb])
    fix a :: nat assume "a < 1024"
    then have "a \<notin> foot ?o 1 ?i 0 ?bl" by (simp add: foot_def inode_at_def)
    then show "img s' a = m1 a" using a by (simp add: added_def u1 s0_def)
  qed
  moreover have "foot ?o 1 ?i 0 ?bl \<subseteq> {..< 1048576 * k}"
    using le le2 le3 by (auto simp: foot_def simp del: inodes_of.simps blocks_of.simps)
  ultimately show ?thesis using sto by blast
qed

section \<open>An example\<close>

text \<open>A directory with \<open>bin/init\<close>, five bytes long, and a second file of six blocks and a second inode.\<close>

definition example_root :: "(cstring \<times> host) list" where
  "example_root = [([46], Unreadable), ([46, 46], Unreadable),
     ([98, 105, 110], Directory [([105, 110, 105, 116], Regular [104, 101, 108, 108, 111])]),
     ([116, 120, 116], Regular (replicate 6000 65))]"

lemma example_root_fits:
  "storable (Directory example_root)" "inodes_of (Directory example_root) = 5" "blocks_of (Directory example_root) = 9"
  by (simp_all add: example_root_def count_files_def dot_name_def tails_def nblocks_def)

end
