(* ===== verification/Mkfs_Roundtrip.thy ===== *)
theory Mkfs_Roundtrip
  imports Mkfs_Correct
begin

text \<open>
  The kernel reading an image that \<open>mkfs\<close> wrote: inodes, directories, paths and files.
\<close>

section \<open>The image in memory\<close>

text \<open>The first \<open>sz\<close> bytes of the image lie where \<open>aefs_init\<close> mapped the module; its blocks start
  at offset \<open>orig\<close>.\<close>

definition shows_image :: "aefs \<Rightarrow> mem \<Rightarrow> image \<Rightarrow> nat \<Rightarrow> nat \<Rightarrow> bool" where
  "shows_image fs m im sz orig \<longleftrightarrow> sb fs = fs_start fs \<and> root_inode fs = get_inode fs 1 \<and>
     orig = 1024 * unat (rd16 im 6) \<and> 8 \<le> sz \<and> (\<forall>k. k < sz \<longrightarrow> m (fs_start fs + of_nat k) = im k)"

lemma shown16: "shows_image fs m im sz orig \<Longrightarrow> p + 2 \<le> sz \<Longrightarrow> load16 m (fs_start fs + of_nat p) = rd16 im p"
proof -
  assume "shows_image fs m im sz orig" "p + 2 \<le> sz"
  then have "m (fs_start fs + of_nat p) = im p" "m (fs_start fs + of_nat (p + 1)) = im (p + 1)"
    unfolding shows_image_def by (simp_all del: of_nat_add of_nat_Suc)
  then show ?thesis by (simp add: load16_def rd16_def algebra_simps)
qed

lemma get_inode_at: "i \<le> 65535 \<Longrightarrow> get_inode fs (of_nat i) = fs_start fs + of_nat (inode_at i)"
proof -
  assume "i \<le> 65535"
  then have "unat (of_nat i :: u16) = i" by (intro unat_of_nat_small) simp
  then have "(ucast (of_nat i :: u16) :: u32) = of_nat i" by (metis of_nat_unat)
  then show ?thesis by (simp add: get_inode_def inode_at_def)
qed

section \<open>Inodes\<close>

text \<open>Following the inodes of a file, and finding its blocks and bytes.\<close>

lemma node_in:
  assumes "inode_ok im A i ty n t b" and "A \<subseteq> {..< sz}" and "j \<le> tails (nblocks n)"
  shows "inode_at (node i t j) + 16 \<le> sz" and "node i t j \<le> 65535"
proof -
  have "{inode_at (node i t j) ..< inode_at (node i t j) + 16} \<subseteq> A"
  proof (cases "j = 0")
    case True
    then show ?thesis using assms(1) unfolding inode_ok_def by (simp add: node_def)
  next
    case False
    then have "{inode_at (node i t j) ..< inode_at (node i t j) + 16} \<subseteq> {inode_at t ..< inode_at (t + tails (nblocks n))}"
      using assms(3) by (auto simp: node_def inode_at_def)
    then show ?thesis using assms(1) unfolding inode_ok_def by blast
  qed
  then have "inode_at (node i t j) + 15 \<in> A" by (rule subsetD) simp
  then have "inode_at (node i t j) + 15 \<in> {..< sz}" using assms(2) by blast
  then show "inode_at (node i t j) + 16 \<le> sz" by simp
  show "node i t j \<le> 65535" using assms(1,3) unfolding inode_ok_def by (auto simp: node_def)
qed

lemma chain_at:
  assumes sh: "shows_image fs m im sz orig" and ok: "inode_ok im A i ty n t b" and A: "A \<subseteq> {..< sz}"
    and "j \<le> tails (nblocks n)"
  shows "chain fs m (fs_start fs + of_nat (inode_at i)) j = fs_start fs + of_nat (inode_at (node i t j))"
  using assms(4)
proof (induction j)
  case (Suc j)
  have tl: "rd16 im (tail_slot i t j) = of_nat (t + j)" using ok Suc.prems unfolding inode_ok_def blocks_at_slot by simp
  have "inode_tail m (fs_start fs + of_nat (inode_at (node i t j))) = load16 m (fs_start fs + of_nat (tail_slot i t j))"
    by (simp add: inode_tail_def tail_slot_def add.assoc)
  also have "\<dots> = of_nat (t + j)"
    unfolding tl [symmetric] using node_in(1) [OF ok A, of j] Suc.prems by (intro shown16 [OF sh]) (simp add: tail_slot_def)
  finally show ?case using Suc node_in(2) [OF ok A Suc.prems] get_inode_at [of "t + j" fs] by (simp add: node_def del: of_nat_add)
qed (simp add: node_def)

lemma block_addr_at:
  assumes sh: "shows_image fs m im sz orig" and ok: "inode_ok im A i ty n t b" and A: "A \<subseteq> {..< sz}"
    and j: "j < nblocks n"
  shows "block_addr fs m (fs_start fs + of_nat (inode_at i)) j = fs_start fs + of_nat (orig + 1024 * (b + j))"
proof -
  let ?c = "inode_at (node i t (j div 5))"
  have d: "j div 5 \<le> tails (nblocks n)" using j unfolding tails_def by (intro div_le_mono) simp
  have "inode_block m (fs_start fs + of_nat ?c) (of_nat (j mod 5)) = load16 m (fs_start fs + of_nat (slot i t j))"
    by (simp add: inode_block_def slot_def algebra_simps)
  also have "\<dots> = rd16 im (slot i t j)"
    using node_in(1) [OF ok A d] slot_range [of i t j] by (intro shown16 [OF sh]) linarith
  also have "\<dots> = of_nat (b + j)" using ok j unfolding inode_ok_def blocks_at_slot by blast
  finally have blk: "inode_block m (fs_start fs + of_nat ?c) (of_nat (j mod 5)) = of_nat (b + j)" .
  have "unat (of_nat (b + j) :: u16) = b + j" using ok j unfolding inode_ok_def by (intro unat_of_nat_small) simp
  then have bj: "(ucast (of_nat (b + j) :: u16) :: u32) = of_nat (b + j)" by (metis of_nat_unat)
  have "load16 m (sb fs + 6) = rd16 im 6" using shown16 [OF sh, of 6] sh by (simp add: shows_image_def)
  moreover have "orig = 1024 * unat (rd16 im 6)" using sh by (simp add: shows_image_def)
  ultimately show ?thesis unfolding block_addr_def chain_at [OF sh ok A d] blk get_block_def bj
    by (simp add: algebra_simps)
qed

lemma file_addr_at:
  assumes sh: "shows_image fs m im sz orig" and ok: "inode_ok im A i ty n t b" and A: "A \<subseteq> {..< sz}" and k: "k < n"
  shows "file_addr fs m (fs_start fs + of_nat (inode_at i)) k = fs_start fs + of_nat (orig + 1024 * b + k)"
proof -
  have "Suc (k div 1024) = (k + 1024) div 1024" by simp
  also have "\<dots> \<le> nblocks n" unfolding nblocks_def using k by (intro div_le_mono) simp
  finally have "k div 1024 < nblocks n" by simp
  note a = block_addr_at [OF sh ok A this]
  have "1024 * (b + k div 1024) + k mod 1024 = 1024 * b + k" using mult_div_mod_eq [of 1024 k] by (simp add: algebra_simps)
  then have "orig + 1024 * b + k = orig + 1024 * (b + k div 1024) + k mod 1024" by simp
  then show ?thesis unfolding file_addr_def a by (simp only: of_nat_add add.assoc)
qed

lemma inode_fields:
  assumes sh: "shows_image fs m im sz orig" and ok: "inode_ok im A i ty n t b" and A: "A \<subseteq> {..< sz}"
  shows "inode_type m (fs_start fs + of_nat (inode_at i)) = ty"
    and "AEFS_INODE_SIZE m (fs_start fs + of_nat (inode_at i)) = of_nat n"
proof -
  have r: "inode_at i + 16 \<le> sz" using node_in(1) [OF ok A, of 0] by (simp add: node_def)
  have at: "m (fs_start fs + of_nat (inode_at i + k)) = im (inode_at i + k)" if "k < 16" for k
    using sh r that unfolding shows_image_def by (simp del: of_nat_add)
  show "inode_type m (fs_start fs + of_nat (inode_at i)) = ty"
    using at [of 0] ok by (simp add: inode_type_def inode_ok_def)
  have n: "n < 2 ^ 24" "im (inode_at i + 1) = of_nat (n div 65536)" "rd16 im (inode_at i + 2) = of_nat n"
    using ok by (simp_all add: inode_ok_def)
  have "load16 m (fs_start fs + of_nat (inode_at i + 2)) = of_nat n"
    using shown16 [OF sh, of "inode_at i + 2"] r n(3) by simp
  moreover have "fs_start fs + of_nat (inode_at i) + 1 = fs_start fs + of_nat (inode_at i + 1)"
    "fs_start fs + of_nat (inode_at i) + 2 = fs_start fs + of_nat (inode_at i + 2)" by simp_all
  ultimately have e: "AEFS_INODE_SIZE m (fs_start fs + of_nat (inode_at i)) =
      push_bit 16 (ucast (of_nat (n div 65536) :: u8)) OR ucast (of_nat n :: u16)"
    using at [of 1] n(2) unfolding AEFS_INODE_SIZE_def by (simp only: of_nat_add)
  let ?w = "of_nat n :: u32"
  have w: "unat ?w = n" using n(1) by (intro unat_of_nat_small) simp
  have "n div 65536 < 256" using n(1) by (intro less_mult_imp_div_less) simp
  then have "unat (of_nat (n div 65536) :: u8) = unat (drop_bit 16 ?w)"
    using w by (simp add: unat_of_nat_small drop_bit_eq_div unat_div)
  then have h: "(ucast (of_nat (n div 65536) :: u8) :: u32) = drop_bit 16 ?w" by (metis of_nat_unat ucast_id)
  have "(of_nat n :: u16) = ucast ?w" using w by (metis of_nat_unat)
  then have l: "(ucast (of_nat n :: u16) :: u32) = take_bit 16 ?w" by (simp add: bit_eq_iff bit_simps)
  show "AEFS_INODE_SIZE m (fs_start fs + of_nat (inode_at i)) = of_nat n"
    unfolding e h l by (rule bit_word_eqI) (auto simp: bit_simps)
qed

section \<open>Files\<close>

definition image_bytes :: "aefs \<Rightarrow> nat \<Rightarrow> u32 set" where
  "image_bytes fs sz = (\<lambda>k. fs_start fs + of_nat k) ` {..< sz}"

definition aefs_vnode :: "aefs \<Rightarrow> nat \<Rightarrow> vnode" where
  "aefs_vnode fs i = \<lparr>v_op = Aefs_vnodeops, v_data = fs_start fs + of_nat (inode_at i)\<rparr>"

lemma stored_file_in:
  assumes sh: "shows_image fs m im sz orig" and ok: "inode_ok im A i ty n t b" and A: "A \<subseteq> {..< sz}"
    and c: "\<And>k. k < n \<Longrightarrow> orig + 1024 * b + k \<in> A" and "l \<le> n"
  shows "file_in fs m (image_bytes fs sz) (fs_start fs + of_nat (inode_at i)) l"
  unfolding file_in_def
proof (intro conjI allI impI)
  have s: "sb fs = fs_start fs" "8 \<le> sz" using sh by (simp_all add: shows_image_def)
  have "sb fs + 6 = fs_start fs + of_nat 6" "sb fs + 6 + 1 = fs_start fs + of_nat 7" using s by simp_all
  moreover have "6 \<in> {..< sz}" "7 \<in> {..< sz}" using s by simp_all
  ultimately show "sb fs + 6 \<in> image_bytes fs sz" "sb fs + 6 + 1 \<in> image_bytes fs sz" unfolding image_bytes_def by blast+
next
  fix j k :: nat assume jk: "5120 * j < l \<and> k < 16"
  then have "(1024 * (5 * j) + 1024) div 1024 \<le> nblocks n" using \<open>l \<le> n\<close> unfolding nblocks_def by (intro div_le_mono) simp
  then have "5 * j + 1 \<le> nblocks n" by simp
  then have j: "j \<le> tails (nblocks n)" unfolding tails_def by simp
  have "chain fs m (fs_start fs + of_nat (inode_at i)) j + of_nat k = fs_start fs + of_nat (inode_at (node i t j) + k)"
    unfolding chain_at [OF sh ok A j] by simp
  moreover have "inode_at (node i t j) + k \<in> {..< sz}" using node_in(1) [OF ok A j] jk by simp
  ultimately show "chain fs m (fs_start fs + of_nat (inode_at i)) j + of_nat k \<in> image_bytes fs sz" unfolding image_bytes_def by blast
next
  fix k assume "k < l"
  then have "k < n" using \<open>l \<le> n\<close> by simp
  then show "file_addr fs m (fs_start fs + of_nat (inode_at i)) k \<in> image_bytes fs sz"
    unfolding file_addr_at [OF sh ok A \<open>k < n\<close>] image_bytes_def using c A by blast
qed

lemma read_stored:
  assumes sh: "shows_image fs m im sz orig" and st: "stored orig im A i (Regular xs)" and A: "A \<subseteq> {..< sz}"
    and n: "n = minu count (of_nat (length xs))" and buf: "\<And>x. x - buf < n \<Longrightarrow> x \<notin> image_bytes fs sz"
  shows "aefs_read fs m (aefs_vnode fs i) buf count =
    (\<lambda>a. if a - buf < n then xs ! unat (a - buf) else m a, int (unat n))"
proof -
  obtain t b where ok: "inode_ok im A i 0 (length xs) t b"
    and xs: "\<And>k. k < length xs \<Longrightarrow> orig + 1024 * b + k \<in> A \<and> im (orig + 1024 * b + k) = xs ! k" using st by auto
  let ?p = "fs_start fs + of_nat (inode_at i)"
  note fields = inode_fields [OF sh ok A]
  have "length xs < 2 ^ 24" using ok by (simp add: inode_ok_def)
  then have len: "unat (of_nat (length xs) :: u32) = length xs" by (intro unat_of_nat_small) simp
  then have "unat n \<le> length xs" unfolding n by (simp add: unat_minu)
  note fin = stored_file_in [OF sh ok A _ this]
  have vd: "v_data (aefs_vnode fs i) = ?p" by (simp add: aefs_vnode_def)
  have fin': "file_in fs m (image_bytes fs sz) (v_data (aefs_vnode fs i)) (unat n)" using fin xs vd by simp
  have sz: "n = minu count (AEFS_INODE_SIZE m (v_data (aefs_vnode fs i)))" unfolding n vd fields(2) ..
  have reg: "AEFS_INODE_IS_REG m (v_data (aefs_vnode fs i))" unfolding AEFS_INODE_IS_REG_def vd by (rule fields(1))
  have "m (file_addr fs m ?p (unat (a - buf))) = xs ! unat (a - buf)" if "a - buf < n" for a
  proof -
    let ?k = "unat (a - buf)"
    have k: "?k < length xs" using that \<open>unat n \<le> length xs\<close> by (simp add: word_less_nat_alt)
    then have "orig + 1024 * b + ?k < sz" using xs A by blast
    then have "m (fs_start fs + of_nat (orig + 1024 * b + ?k)) = im (orig + 1024 * b + ?k)"
      using sh by (simp add: shows_image_def del: of_nat_add)
    then show ?thesis unfolding file_addr_at [OF sh ok A k] using xs [OF k] by simp
  qed
  then have bytes: "(\<lambda>a. if a - buf < n then m (file_addr fs m ?p (unat (a - buf))) else m a) =
      (\<lambda>a. if a - buf < n then xs ! unat (a - buf) else m a)" by auto
  have "aefs_read fs m (aefs_vnode fs i) buf count =
      (if AEFS_INODE_IS_REG m (v_data (aefs_vnode fs i))
       then (\<lambda>a. if a - buf < n then m (file_addr fs m (v_data (aefs_vnode fs i)) (unat (a - buf))) else m a, int (unat n))
       else (m, - 1))" by (rule aefs_read_result [OF sz fin']) (rule buf)
  then show ?thesis unfolding vd bytes if_P [OF reg [unfolded vd]] .
qed

section \<open>Directories\<close>

text \<open>The entries the kernel visits stand one behind the other.\<close>

lemma block_entries_at: "block_entries (base + of_nat p) = map (\<lambda>k. base + of_nat (p + 256 * k)) [0 ..< 4]"
  by (simp add: block_entries_def upt_rec algebra_simps)

lemma concat_upt: "concat (map (\<lambda>k. map (\<lambda>l. f (4 * k + l)) [0 ..< 4]) [0 ..< N]) = map f [0 ..< 4 * N]" for N :: nat
proof (induction N)
  case (Suc N)
  have "[0 ..< 4 * Suc N] = [0 ..< 4 * N] @ [4 * N ..< 4 * N + 4]" by (metis upt_add_eq_append zero_le mult_Suc_right add.commute)
  also have "[4 * N ..< 4 * N + 4] = map (\<lambda>l. 4 * N + l) [0 ..< 4]" using map_add_upt [of "4 * N" 4] by (simp only: add.commute)
  finally show ?case using Suc by (simp only: upt_Suc_append zero_le map_append concat_append list.map concat.simps map_map o_def append_Nil2)
qed simp

lemma dir_entries_at:
  assumes sh: "shows_image fs m im sz orig" and ok: "inode_ok im A i ty n t b" and A: "A \<subseteq> {..< sz}"
  shows "dir_entries fs m (fs_start fs + of_nat (inode_at i)) 0 (nblocks n) =
    map (\<lambda>k. fs_start fs + of_nat (orig + 1024 * b + 256 * k)) [0 ..< 4 * nblocks n]"
proof -
  have "block_entries (block_addr fs m (fs_start fs + of_nat (inode_at i)) k) =
      map (\<lambda>l. fs_start fs + of_nat (orig + 1024 * b + 256 * (4 * k + l))) [0 ..< 4]" if "k < nblocks n" for k
    unfolding block_addr_at [OF sh ok A that] block_entries_at by (simp add: algebra_simps)
  then have "dir_entries fs m (fs_start fs + of_nat (inode_at i)) 0 (nblocks n) =
      concat (map (\<lambda>k. map (\<lambda>l. fs_start fs + of_nat (orig + 1024 * b + 256 * (4 * k + l))) [0 ..< 4]) [0 ..< nblocks n])"
    unfolding dir_entries_def by (intro arg_cong [where f = concat] map_cong) auto
  then show ?thesis using concat_upt [of "\<lambda>k. fs_start fs + of_nat (orig + 1024 * b + 256 * k)" "nblocks n"] by simp
qed

text \<open>The first visible entry that starts like a name.\<close>

definition visible :: "(cstring \<times> host) list \<Rightarrow> (cstring \<times> host) list" where
  "visible es = filter (\<lambda>(n, _). \<not> dot_name n) es"

lemma find_stored:
  assumes sh: "shows_image fs m im sz orig" and A: "A \<subseteq> {..< sz}"
  shows "stored_entries orig im A p es \<Longrightarrow> List.find (\<lambda>(n, _). first_char n = c) (visible es) = Some (nm, h) \<Longrightarrow>
    count_files es \<le> N \<Longrightarrow>
    \<exists>k. List.find (\<lambda>e. m e = c) (map (\<lambda>k. fs_start fs + of_nat (p + 256 * k)) [0 ..< N]) = Some (fs_start fs + of_nat k) \<and>
      k + 256 \<le> sz \<and> stored orig im A (unat (rd16 im (k + 254))) h"
proof (induction es arbitrary: p N)
  case (Cons e es)
  obtain n h' where e: "e = (n, h')" by (cases e)
  show ?case
  proof (cases "dot_name n")
    case True
    then show ?thesis using Cons e by (simp add: visible_def count_files_def)
  next
    case False
    then have st: "{p ..< p + 256} \<subseteq> A" "\<forall>k<254. im (p + k) = name_field n ! k"
      "stored orig im A (unat (rd16 im (p + 254))) h'" "stored_entries orig im A (p + 256) es"
      and cnt: "Suc (count_files es) \<le> N" using Cons.prems e by (simp_all add: count_files_def)
    have "p + 255 \<in> A" by (rule subsetD [OF st(1)]) simp
    then have sz: "p + 256 \<le> sz" using A by fastforce
    have "name_field n ! 0 = first_char n" by (cases n) (simp_all add: name_field_def first_char_def)
    then have first: "m (fs_start fs + of_nat p) = first_char n"
      using spec [OF st(2), of 0] sh sz by (simp add: shows_image_def)
    obtain N' where N: "N = Suc N'" "count_files es \<le> N'" using cnt by (cases N) auto
    have ups: "map (\<lambda>k. fs_start fs + of_nat (p + 256 * k)) [0 ..< N] =
        (fs_start fs + of_nat p) # map (\<lambda>k. fs_start fs + of_nat (p + 256 + 256 * k)) [0 ..< N']"
      unfolding N by (subst upt_conv_Cons) (simp_all add: map_Suc_upt [symmetric] algebra_simps del: upt_Suc)
    show ?thesis
    proof (cases "first_char n = c")
      case True
      then have "h' = h" using Cons.prems(2) False e by (simp add: visible_def)
      then show ?thesis using True first st(3) sz unfolding ups by auto
    next
      case c: False
      have "List.find (\<lambda>(n, _). first_char n = c) (visible es) = Some (nm, h)"
        using Cons.prems(2) False c e by (simp add: visible_def)
      from Cons.IH [OF st(4) this N(2)] c first show ?thesis unfolding ups by simp
    qed
  qed
qed (simp add: visible_def)

lemma lookup_stored:
  assumes sh: "shows_image fs m im sz orig" and st: "stored orig im A i (Directory es)" and A: "A \<subseteq> {..< sz}"
    and f: "List.find (\<lambda>(n, _). first_char n = first_char name) (visible es) = Some (nm, h)"
  shows "\<exists>j. aefs_lookup fs m (aefs_vnode fs i) name res = (aefs_vnode fs j, 0) \<and> stored orig im A j h"
proof -
  obtain t b where ok: "inode_ok im A i 1 (256 * count_files es) t b"
    and es: "stored_entries orig im A (orig + 1024 * b) es" using st by auto
  let ?p = "fs_start fs + of_nat (inode_at i)" and ?n = "256 * count_files es"
  note fields = inode_fields [OF sh ok A]
  have n: "?n < 2 ^ 24" using ok by (simp add: inode_ok_def)
  have "count_files es \<noteq> 0"
  proof
    assume "count_files es = 0"
    then have "visible es = []" by (simp add: count_files_def visible_def)
    with f show False by simp
  qed
  then have pos: "?n \<noteq> 0" by simp
  have un: "unat (of_nat ?n :: u32) = ?n" using n by (intro unat_of_nat_small) simp
  have nz: "(of_nat ?n :: u32) \<noteq> 0"
  proof
    assume "(of_nat ?n :: u32) = 0"
    then have "unat (of_nat ?n :: u32) = 0" by (simp only: unat_0)
    with un pos show False by (simp only:)
  qed
  have blocks: "unat (div_ceil (AEFS_INODE_SIZE m ?p) 1024) = nblocks ?n"
    unfolding fields(2) using unat_div_ceil [OF nz, of 1024] un by (simp add: nblocks_def)
  have cnt: "count_files es \<le> 4 * nblocks ?n" using dividend_less_div_times [of 1024 "?n + 1023"] by (simp add: nblocks_def)
  from find_stored [OF sh A es f cnt] obtain k where
    k: "List.find (\<lambda>e. m e = first_char name) (dir_entries fs m ?p 0 (nblocks ?n)) = Some (fs_start fs + of_nat k)"
    "k + 256 \<le> sz" "stored orig im A (unat (rd16 im (k + 254))) h"
    unfolding dir_entries_at [OF sh ok A] by blast
  have "entry_inode m (fs_start fs + of_nat k) = load16 m (fs_start fs + of_nat (k + 254))"
    by (simp add: entry_inode_def add.assoc)
  also have "\<dots> = rd16 im (k + 254)" using k(2) by (intro shown16 [OF sh]) simp
  finally have "get_inode fs (entry_inode m (fs_start fs + of_nat k)) = fs_start fs + of_nat (inode_at (unat (rd16 im (k + 254))))"
    using get_inode_at [of "unat (rd16 im (k + 254))" fs] unat_u16_max by simp
  moreover have "AEFS_INODE_IS_DIR m ?p" unfolding AEFS_INODE_IS_DIR_def by (rule fields(1))
  ultimately have "aefs_lookup fs m (aefs_vnode fs i) name res = (aefs_vnode fs (unat (rd16 im (k + 254))), 0)"
    unfolding aefs_lookup_first_char using k(1) blocks by (simp add: aefs_vnode_def)
  with k(3) show ?thesis by blast
qed

section \<open>Paths\<close>

text \<open>The file of the host under a list of names, when no other entry of the directories on the way starts with
  the same character.\<close>

fun host_path :: "host \<Rightarrow> cstring list \<Rightarrow> host option" where
  "host_path h [] = Some h"
| "host_path (Directory es) (n # ns) = Option.bind (map_of (visible es) n) (\<lambda>h. host_path h ns)"
| "host_path h (n # ns) = None"

fun told_apart :: "host \<Rightarrow> cstring list \<Rightarrow> bool" where
  "told_apart (Directory es) (n # ns) \<longleftrightarrow>
     (\<forall>(n', h)\<in>set (visible es). first_char n' = first_char n \<longrightarrow> n' = n) \<and>
     (case map_of (visible es) n of None \<Rightarrow> True | Some h \<Rightarrow> told_apart h ns)"
| "told_apart h ns \<longleftrightarrow> True"

lemma find_first_char:
  assumes "map_of xs n = Some h" and "\<forall>(n', h)\<in>set xs. first_char n' = first_char n \<longrightarrow> n' = n"
  shows "List.find (\<lambda>(n', _). first_char n' = first_char n) xs = Some (n, h)"
  using assms
proof (induction xs)
  case (Cons x xs)
  then show ?case by (cases x) (auto split: if_splits)
qed simp

lemma resolve_stored:
  assumes sh: "shows_image (fs_aefs fs) m im sz orig" and A: "A \<subseteq> {..< sz}"
  shows "stored orig im A i h \<Longrightarrow> host_path h ns = Some h' \<Longrightarrow> told_apart h ns \<Longrightarrow> ns \<noteq> [] \<or> res = aefs_vnode (fs_aefs fs) i \<Longrightarrow>
    \<exists>j. resolve (vn_lookup fs m) (aefs_vnode (fs_aefs fs) i) res 0 ns = Some (aefs_vnode (fs_aefs fs) j, 0) \<and> stored orig im A j h'"
proof (induction ns arbitrary: h i res)
  case (Cons n ns)
  then obtain es h1 where h: "h = Directory es" "map_of (visible es) n = Some h1" "host_path h1 ns = Some h'"
    by (cases h) (auto simp: bind_eq_Some_conv)
  have "List.find (\<lambda>(n', _). first_char n' = first_char n) (visible es) = Some (n, h1)"
    using h Cons.prems(3) by (intro find_first_char) auto
  from lookup_stored [OF sh _ A this, of i res] Cons.prems(1) h obtain j where
    l: "aefs_lookup (fs_aefs fs) m (aefs_vnode (fs_aefs fs) i) n res = (aefs_vnode (fs_aefs fs) j, 0)"
    and j: "stored orig im A j h1" by auto
  have "told_apart h1 ns" using Cons.prems(3) h by simp
  from Cons.IH [OF j h(3) this, of "aefs_vnode (fs_aefs fs) j"] l show ?case
    by (auto simp: vn_lookup_def aefs_vnode_def)
next
  case Nil
  then show ?case by auto
qed

section \<open>The root\<close>

text \<open>The state after \<open>aefs_init\<close>: the image is mapped at \<open>fs_start\<close>.\<close>

definition image_loaded :: "aefs \<Rightarrow> mem \<Rightarrow> image \<Rightarrow> nat \<Rightarrow> bool" where
  "image_loaded fs m im sz \<longleftrightarrow> sb fs = fs_start fs \<and> root_inode fs = get_inode fs ROOT_INODE_ID \<and>
     (\<forall>k. k < sz \<longrightarrow> m (fs_start fs + of_nat k) = im k)"

lemma mkfs_image:
  assumes mk: "mkfs_main (int k) root = Inr im" and k: "0 < k" "k < 64" and st: "storable (Directory root)"
    and need: "inodes_of (Directory root) \<le> 1008 * k - 2" "blocks_of (Directory root) \<le> 1008 * k - 1"
    and ld: "image_loaded fs m im (1048576 * k)"
  obtains A where "shows_image fs m im (1048576 * k) (1024 * (1 + 16 * k))" and "A \<subseteq> {..< 1048576 * k}"
    and "stored (1024 * (1 + 16 * k)) im A 1 (Directory root)" and "aefs_root fs = (aefs_vnode fs 1, 0)"
proof -
  obtain A where sup: "superblock im (of_nat (1008 * k - 1)) (of_nat (1 + 16 * k))" and A: "A \<subseteq> {..< 1048576 * k}"
    and sto: "stored (1024 * (1 + 16 * k)) im A 1 (Directory root)"
    using mkfs_main_result [OF k st need] mk by auto
  have "unat (of_nat (1 + 16 * k) :: u16) = 1 + 16 * k" using k(2) by (intro unat_of_nat_small) simp
  then have "1024 * (1 + 16 * k) = 1024 * unat (rd16 im 6)" using sup by (simp add: superblock_def)
  then have "shows_image fs m im (1048576 * k) (1024 * (1 + 16 * k))"
    using ld k(1) unfolding shows_image_def image_loaded_def by simp
  moreover have "aefs_root fs = (aefs_vnode fs 1, 0)"
    using ld get_inode_at [of 1 fs] by (simp add: aefs_root_def aefs_vnode_def image_loaded_def)
  ultimately show thesis using that A sto by blast
qed

lemma root_mount:
  assumes "vfs_chain s (vfs_list s) [a, b]" and "mount_path (vfss s a) = [SLASH]" and "mount_path (vfss s b) = dev_path"
    and "rest = [] \<or> hd rest \<noteq> 100"
  shows "best_mount s (SLASH # rest) [a, b] None 0 = (Some a, 1)"
  using assms by (cases rest) (auto simp: Let_def dev_path_def)

lemma mkfs_kernel_result:
  assumes mk: "mkfs_main (int k) root = Inr im" and k: "0 < k" "k < 64" and st: "storable (Directory root)"
    and need: "inodes_of (Directory root) \<le> 1008 * k - 2" "blocks_of (Directory root) \<le> 1008 * k - 1"
    and ld: "image_loaded (fs_aefs fs) m im (1048576 * k)"
    and mounts: "vfs_chain (fs_vfs fs) (vfs_list (fs_vfs fs)) [a, b]" "mount_path (vfss (fs_vfs fs) a) = [SLASH]"
      "mount_path (vfss (fs_vfs fs) b) = dev_path" "vfs_op (vfss (fs_vfs fs) a) = Aefs_vfsops"
    and heap: "kheap_inv h P" and rest: "length rest < 0x3FFFF7" "hd rest \<noteq> 100"
    and hp: "host_path (Directory root) (split_path rest) = Some (Regular xs)" "told_apart (Directory root) (split_path rest)"
    and n: "n = minu count (of_nat (length xs))" and buf: "\<And>x. x - buf < n \<Longrightarrow> x \<notin> image_bytes (fs_aefs fs) (1048576 * k)"
  shows "\<exists>h' v. kheap_inv h' P \<and> vfs_lookup fs m h (SLASH # rest) res = Some (h', v, 0) \<and>
    vfs_getattr m v attr = (\<lparr>file_size = of_nat (length xs)\<rparr>, 0) \<and>
    vfs_read fs m v buf count = Some (\<lambda>a. if a - buf < n then xs ! unat (a - buf) else m a, int (unat n))"
proof -
  obtain A where sh: "shows_image (fs_aefs fs) m im (1048576 * k) (1024 * (1 + 16 * k))" and A: "A \<subseteq> {..< 1048576 * k}"
    and sto: "stored (1024 * (1 + 16 * k)) im A 1 (Directory root)" and rt: "aefs_root (fs_aefs fs) = (aefs_vnode (fs_aefs fs) 1, 0)"
    by (rule mkfs_image [OF mk k st need ld])
  have ne: "rest \<noteq> []" "split_path rest \<noteq> []" using hp(1) by (auto simp: split_path.simps)
  obtain j where res: "resolve (vn_lookup fs m) (aefs_vnode (fs_aefs fs) 1) res 0 (split_path rest) = Some (aefs_vnode (fs_aefs fs) j, 0)"
    and j: "stored (1024 * (1 + 16 * k)) im A j (Regular xs)" using resolve_stored [OF sh A sto hp] ne(2) by blast
  have best: "best_mount (fs_vfs fs) (SLASH # rest) [a, b] None 0 = (Some a, 1)" using rest(2) by (intro root_mount [OF mounts(1-3)]) simp
  have "vfs_root fs (vfs_op (vfss (fs_vfs fs) a)) = Some (aefs_vnode (fs_aefs fs) 1, 0)" using mounts(4) rt by (simp add: vfs_root_def)
  from vfs_lookup_result [OF mounts(1) heap _ best this, of m res] rest(1) ne(1) res
  obtain h' where look: "kheap_inv h' P" "vfs_lookup fs m h (SLASH # rest) res = Some (h', aefs_vnode (fs_aefs fs) j, 0)" by auto
  have "vfs_read fs m (aefs_vnode (fs_aefs fs) j) buf count = Some (\<lambda>a. if a - buf < n then xs ! unat (a - buf) else m a, int (unat n))"
    using read_stored [OF sh j A n buf] by (simp add: vfs_read_def aefs_vnode_def)
  moreover obtain t b where "inode_ok im A j 0 (length xs) t b" using j by auto
  then have "vfs_getattr m (aefs_vnode (fs_aefs fs) j) attr = (\<lparr>file_size = of_nat (length xs)\<rparr>, 0)"
    using inode_fields(2) [OF sh _ A] by (simp add: vfs_getattr_def aefs_getattr_def aefs_vnode_def)
  ultimately show ?thesis using look by blast
qed

section \<open>What the tool refuses\<close>

text \<open>Regular files and directories only, under names that fit into the path buffer.\<close>

function (sequential) supported :: "host \<Rightarrow> bool" and supported_in :: "(cstring \<times> host) list \<Rightarrow> bool" where
  "supported (Regular xs) \<longleftrightarrow> True"
| "supported (Directory es) \<longleftrightarrow> supported_in es"
| "supported h \<longleftrightarrow> False"
| "supported_in [] \<longleftrightarrow> True"
| "supported_in ((n, h) # es) \<longleftrightarrow> (dot_name n \<or> length n \<le> 253 \<and> supported h) \<and> supported_in es"
  by pat_completeness auto
termination
  by (relation "measure (\<lambda>x. case x of Inl h \<Rightarrow> size h | Inr es \<Rightarrow> size_list (size_prod (\<lambda>_. 0) size) es)") auto

lemma and_then_eq_Inr: "and_then r f = Inr y \<longleftrightarrow> (\<exists>x. r = Inr x \<and> f x = Inr y)"
  by (auto simp: and_then_def split: sum.splits)

lemma visit_supported:
  "visit_child h s = Inr r \<Longrightarrow> supported h" "visit_entries es p i s' = Inr s'' \<Longrightarrow> supported_in es"
proof (induction h and es arbitrary: s r and p i s' s'' rule: supported_supported_in.induct)
  case (2 es)
  then obtain p s' s'' where "visit_entries es p 0 s' = Inr s''"
    by (auto simp: visit_child_def visit_dir.simps and_then_eq_Inr Let_def split: if_splits sum.splits)
  then show ?case using "2.IH" by simp
next
  case (5 n h es)
  show ?case
  proof (cases "dot_name n")
    case True
    then show ?thesis using 5 by simp
  next
    case False
    with "5.prems" obtain s1 c where n: "length n \<le> 253" and c: "visit_child h s' = Inr (s1, c)"
      and r: "\<exists>s2. visit_entries es p (i + 1) s2 = Inr s''"
      by (auto simp: visit_child_def and_then_eq_Inr split: if_splits sum.splits prod.splits host.splits)
    from r "5.IH"(2) have "supported_in es" by blast
    with n "5.IH"(1) [OF c] show ?thesis by simp
  qed
qed (simp_all add: visit_child_def)

section \<open>Properties\<close>




definition example_init :: cstring where "example_init = [98, 105, 110, 47, 105, 110, 105, 116]"


end
