(* ===== verification/Rdaefs.thy ===== *)
theory Rdaefs
  imports Mkfs_Correct
begin

text \<open>
  The image reader (\<open>rdaefs.c\<close>), the host tool that prints what an image holds. Every call of \<open>printf\<close> is a line
  with the values printed. The mapped file is a function from offsets to bytes with the size of the mapping,
  whole pages; reading behind it, and writing behind the allocated \<open>child_path\<close>, is a fault. The functions
  that call themselves are given the number of calls the stack has room for: on an image whose inodes or
  directories form a cycle the tool runs out of it. The last part shows that the tool prints the
  directory an image was made from.
\<close>

section \<open>Model\<close>

datatype rd_line =
    P_superblock | P_magic_number u32 | P_num_inodes u16 | P_start_block u16 | P_newline
  | P_type u8 | P_size_high u8 | P_size_low u16 | P_block nat u16 | P_tail u16
  | P_reg cstring | P_dir cstring u16 | P_entry cstring u16

datatype rd_error = Cannot_Map | Unknown_File_Type | Bad_Access | Stack_Overflow

record rdaefs =
  rd_file :: image
  rd_size :: nat
  block_start :: nat

definition rd32 :: "image \<Rightarrow> nat \<Rightarrow> u32" where
  "rd32 m p = ucast (rd16 m p) OR push_bit 16 (ucast (rd16 m (p + 2)))"

definition read_superblock :: "rdaefs \<Rightarrow> rdaefs \<times> rd_line list" where
  "read_superblock r =
     (r\<lparr>block_start := 1024 * unat (rd16 (rd_file r) 6)\<rparr>,
      [P_superblock, P_magic_number (rd32 (rd_file r) 0), P_num_inodes (rd16 (rd_file r) 4),
       P_start_block (rd16 (rd_file r) 6), P_newline])"

definition rd_get_inode :: "u16 \<Rightarrow> nat" where
  "rd_get_inode inode_id = 1024 + 16 * unat inode_id"

definition mapped :: "rdaefs \<Rightarrow> nat \<Rightarrow> nat \<Rightarrow> bool" where
  "mapped r p n \<longleftrightarrow> p + n \<le> rd_size r"

definition print_blocks :: "rdaefs \<Rightarrow> nat \<Rightarrow> rd_line list" where
  "print_blocks r inode = map (\<lambda>i. P_block i (rd16 (rd_file r) (inode + 4 + 2 * i))) [0 ..< 5]"

primrec print_inode_tail :: "nat \<Rightarrow> rdaefs \<Rightarrow> nat \<Rightarrow> rd_error + rd_line list" where
  "print_inode_tail 0 r inode = Inl Stack_Overflow"
| "print_inode_tail (Suc depth) r inode =
     (if \<not> mapped r inode 16 then Inl Bad_Access
      else
        (let tail = rd16 (rd_file r) (inode + 14);
             ls = print_blocks r inode @ [P_tail tail]
         in if tail \<noteq> 0 then and_then (print_inode_tail depth r (rd_get_inode tail)) (\<lambda>ls'. Inr (ls @ ls'))
            else Inr ls))"

definition print_inode :: "nat \<Rightarrow> rdaefs \<Rightarrow> nat \<Rightarrow> rd_error + rd_line list" where
  "print_inode depth r inode =
     (if \<not> mapped r inode 16 then Inl Bad_Access
      else
        (let m = rd_file r;
             tail = rd16 m (inode + 14);
             ls = [P_type (m inode), P_size_high (m (inode + 1)), P_size_low (rd16 m (inode + 2))] @
                  print_blocks r inode @ [P_tail tail]
         in if tail \<noteq> 0 then and_then (print_inode_tail depth r (rd_get_inode tail)) (\<lambda>ls'. Inr (ls @ ls'))
            else Inr ls))"

definition visit_reg :: "nat \<Rightarrow> rdaefs \<Rightarrow> nat \<Rightarrow> cstring \<Rightarrow> rd_error + rd_line list" where
  "visit_reg depth r inode path = and_then (print_inode depth r inode) (\<lambda>ls. Inr (P_reg path # ls))"

text \<open>A name for \<open>%s\<close>: the bytes up to the first zero.\<close>

definition name_at :: "rdaefs \<Rightarrow> nat \<Rightarrow> rd_error + cstring" where
  "name_at r p =
     (let n = takeWhile (\<lambda>c. c \<noteq> 0) (map (rd_file r) [p ..< rd_size r])
      in if p + length n < rd_size r then Inr n else Inl Bad_Access)"

text \<open>The step to the next block of a directory, before every fourth entry.\<close>

definition next_block :: "rdaefs \<Rightarrow> nat \<Rightarrow> nat \<Rightarrow> rd_error + (nat \<times> nat \<times> nat)" where
  "next_block r cur block_num =
     (if \<not> mapped r cur 16 then Inl Bad_Access
      else
        (let block = block_start r + 1024 * unat (rd16 (rd_file r) (cur + 4 + 2 * block_num));
             block_num = block_num + 1
         in Inr (if block_num = 5 then (rd_get_inode (rd16 (rd_file r) (cur + 14)), 0, block) else (cur, block_num, block))))"

function visit_dir_loop ::
  "(nat \<Rightarrow> cstring \<Rightarrow> rd_error + rd_line list) \<Rightarrow> rdaefs \<Rightarrow> cstring \<Rightarrow> nat \<Rightarrow> nat \<Rightarrow> nat \<Rightarrow> nat \<Rightarrow> nat \<Rightarrow> rd_error + rd_line list" where
  "visit_dir_loop visit r path num_entries i cur block_num block =
     (if i < num_entries then
        and_then (if i mod 4 = 0 then next_block r cur block_num else Inr (cur, block_num, block))
          (\<lambda>(cur, block_num, block).
             (let entry = block + 256 * (i mod 4)
              in and_then (name_at r entry) (\<lambda>name.
                 if \<not> mapped r entry 256 \<or> length name > 253 then Inl Bad_Access
                 else
                   (let inode_id = rd16 (rd_file r) (entry + 254)
                    in and_then (visit (rd_get_inode inode_id) (path @ [47] @ name)) (\<lambda>ls.
                       and_then (visit_dir_loop visit r path num_entries (i + 1) cur block_num block) (\<lambda>ls'.
                         Inr (P_entry name inode_id # ls @ ls')))))))
      else Inr [])"
  by pat_completeness auto
termination
  by (relation "measure (\<lambda>(visit, r, path, n, i, cur, bn, b). n - i)") auto

declare visit_dir_loop.simps [simp del]

definition rd_inode_size :: "rdaefs \<Rightarrow> nat \<Rightarrow> nat" where
  "rd_inode_size r inode = 65536 * unat (rd_file r (inode + 1)) + unat (rd16 (rd_file r) (inode + 2))"

definition rd_visit_dir ::
  "(nat \<Rightarrow> cstring \<Rightarrow> rd_error + rd_line list) \<Rightarrow> nat \<Rightarrow> rdaefs \<Rightarrow> nat \<Rightarrow> cstring \<Rightarrow> rd_error + rd_line list" where
  "rd_visit_dir visit depth r inode path =
     (let num_entries = rd_inode_size r inode div 256
      in and_then (print_inode depth r inode) (\<lambda>ls.
         and_then (visit_dir_loop visit r path num_entries 0 inode 0 0) (\<lambda>ls'.
           Inr (P_dir path (of_nat num_entries) # ls @ ls'))))"

primrec visit_inode :: "nat \<Rightarrow> rdaefs \<Rightarrow> nat \<Rightarrow> cstring \<Rightarrow> rd_error + rd_line list" where
  "visit_inode 0 r inode path = Inl Stack_Overflow"
| "visit_inode (Suc depth) r inode path =
     (if \<not> mapped r inode 16 then Inl Bad_Access
      else if rd_file r inode = 0 then visit_reg depth r inode path
      else if rd_file r inode = 1 then rd_visit_dir (visit_inode depth r) depth r inode path
      else Inl Unknown_File_Type)"

definition print_root :: "nat \<Rightarrow> rdaefs \<Rightarrow> rd_error + rd_line list" where
  "print_root depth r = visit_inode depth r (rd_get_inode 1) [47]"

text \<open>\<open>mmap\<close> refuses an empty file.\<close>

definition rdaefs_main :: "nat \<Rightarrow> image \<Rightarrow> nat \<Rightarrow> rd_error + rd_line list" where
  "rdaefs_main depth m sz =
     (if sz = 0 then Inl Cannot_Map
      else
        (let (r, ls) = read_superblock \<lparr>rd_file = m, rd_size = sz, block_start = 0\<rparr>
         in and_then (print_root depth r) (\<lambda>ls'. Inr (ls @ ls'))))"

section \<open>Inodes\<close>

text \<open>The lines that name files and directories, in order.\<close>

definition file_line :: "rd_line \<Rightarrow> bool" where
  "file_line l \<longleftrightarrow> (case l of P_reg _ \<Rightarrow> True | P_dir _ _ \<Rightarrow> True | _ \<Rightarrow> False)"

lemma file_line_simps [simp]:
  "file_line (P_reg p)" "file_line (P_dir p n)" "\<not> file_line (P_entry p c)" "\<not> file_line (P_tail c)"
  "\<not> file_line (P_type x)" "\<not> file_line (P_size_high x)" "\<not> file_line (P_size_low c)" "\<not> file_line (P_block k c)"
  "\<not> file_line P_superblock" "\<not> file_line (P_magic_number w)" "\<not> file_line (P_num_inodes c)"
  "\<not> file_line (P_start_block c)" "\<not> file_line P_newline"
  by (simp_all add: file_line_def)

lemma print_blocks_no_file [simp]: "filter file_line (print_blocks r inode) = []"
  by (simp add: print_blocks_def)

text \<open>The reader on an image, with an inode of it in \<open>A\<close>.\<close>

definition reads :: "rdaefs \<Rightarrow> nat set \<Rightarrow> bool" where
  "reads r A \<longleftrightarrow> A \<subseteq> {..< rd_size r}"

lemma node_mapped:
  assumes "inode_ok m A i ty n t b" and "reads r A" and "j \<le> tails (nblocks n)"
  shows "mapped r (inode_at (node i t j)) 16"
proof -
  have "inode_at (node i t j) + 15 \<in> A"
  proof (cases "j = 0")
    case True
    then show ?thesis using assms(1) unfolding inode_ok_def by (auto simp: node_def)
  next
    case False
    then have "inode_at (node i t j) + 15 \<in> {inode_at t ..< inode_at (t + tails (nblocks n))}"
      using assms(3) by (auto simp: node_def inode_at_def)
    then show ?thesis using assms(1) unfolding inode_ok_def by blast
  qed
  then show ?thesis using assms(2) by (auto simp: reads_def mapped_def)
qed

lemma tail_at:
  assumes "inode_ok m A i ty n t b" and "j \<le> tails (nblocks n)"
  shows "j < tails (nblocks n) \<Longrightarrow> rd16 m (inode_at (node i t j) + 14) \<noteq> 0 \<and>
      rd_get_inode (rd16 m (inode_at (node i t j) + 14)) = inode_at (node i t (Suc j))"
    and "j = tails (nblocks n) \<Longrightarrow> rd16 m (inode_at (node i t j) + 14) = 0"
proof -
  have b: "blocks_at m i t b (nblocks n)" "i < t" "t + tails (nblocks n) \<le> 65535" using assms(1) unfolding inode_ok_def by blast+
  show "j = tails (nblocks n) \<Longrightarrow> rd16 m (inode_at (node i t j) + 14) = 0" using b(1) by (simp add: blocks_at_def)
  assume j: "j < tails (nblocks n)"
  then have e: "rd16 m (inode_at (node i t j) + 14) = of_nat (t + j)" using b(1) by (simp add: blocks_at_def)
  have u: "unat (of_nat (t + j) :: u16) = t + j" using b(3) j by (intro unat_of_nat_small) simp
  then have "(of_nat (t + j) :: u16) \<noteq> 0" using b(2) by (metis unat_0 add_is_0 not_less0)
  moreover have "rd_get_inode (of_nat (t + j)) = inode_at (node i t (Suc j))" using u by (simp add: rd_get_inode_def inode_at_def node_def del: of_nat_add)
  ultimately show "rd16 m (inode_at (node i t j) + 14) \<noteq> 0 \<and>
      rd_get_inode (rd16 m (inode_at (node i t j) + 14)) = inode_at (node i t (Suc j))" unfolding e by blast
qed

lemma print_inode_tail_ok:
  assumes ok: "inode_ok (rd_file r) A i ty n t b" and rd: "reads r A"
  shows "j \<le> tails (nblocks n) \<Longrightarrow> tails (nblocks n) - j < depth \<Longrightarrow>
    \<exists>ls. print_inode_tail depth r (inode_at (node i t j)) = Inr ls \<and> filter file_line ls = []"
proof (induction depth arbitrary: j)
  case (Suc depth)
  note m = node_mapped [OF ok rd Suc.prems(1)] and tl = tail_at [OF ok Suc.prems(1)]
  show ?case
  proof (cases "j < tails (nblocks n)")
    case True
    then have "Suc j \<le> tails (nblocks n)" "tails (nblocks n) - Suc j < depth" using Suc.prems(2) by linarith+
    from Suc.IH [OF this] obtain ls where "print_inode_tail depth r (inode_at (node i t (Suc j))) = Inr ls" "filter file_line ls = []" by blast
    with m tl(1) [OF True] show ?thesis by (simp add: Let_def)
  next
    case False
    with m tl(2) Suc.prems(1) show ?thesis by (simp add: Let_def)
  qed
qed simp

lemma print_inode_ok:
  assumes ok: "inode_ok (rd_file r) A i ty n t b" and rd: "reads r A" and d: "tails (nblocks n) \<le> depth"
  shows "\<exists>ls. print_inode depth r (inode_at i) = Inr ls \<and> filter file_line ls = []"
proof -
  have m: "mapped r (inode_at i) 16" using node_mapped [OF ok rd, of 0] by (simp add: node_def)
  show ?thesis
  proof (cases "0 < tails (nblocks n)")
    case True
    from tail_at(1) [OF ok _ True] have tl: "rd16 (rd_file r) (inode_at i + 14) \<noteq> 0"
      "rd_get_inode (rd16 (rd_file r) (inode_at i + 14)) = inode_at (node i t 1)" by (simp_all add: node_def)
    have "1 \<le> tails (nblocks n)" "tails (nblocks n) - 1 < depth" using True d by linarith+
    from print_inode_tail_ok [OF ok rd this] obtain ls where
      "print_inode_tail depth r (inode_at (node i t 1)) = Inr ls" "filter file_line ls = []" by blast
    with m tl show ?thesis by (simp add: print_inode_def Let_def)
  next
    case False
    with m tail_at(2) [OF ok, of 0] show ?thesis by (simp add: print_inode_def Let_def node_def)
  qed
qed

lemma rd_inode_size_ok: "inode_ok (rd_file r) A i ty n t b \<Longrightarrow> rd_inode_size r (inode_at i) = n"
proof -
  assume ok: "inode_ok (rd_file r) A i ty n t b"
  then have n: "n < 2 ^ 24" by (simp add: inode_ok_def)
  then have "n div 65536 < 256" by (intro less_mult_imp_div_less) simp
  then have "unat (of_nat (n div 65536) :: u8) = n div 65536" by (intro unat_of_nat_small) simp
  moreover have "unat (of_nat n :: u16) = n mod 65536" by (simp add: unat_of_nat)
  ultimately show ?thesis using ok by (simp add: rd_inode_size_def inode_ok_def)
qed

section \<open>Directories\<close>

lemma name_at_ok:
  assumes "\<forall>k<254. rd_file r (p + k) = name_field n ! k" and "length n \<le> 253" and "0 \<notin> set n" and "mapped r p 256"
  shows "name_at r p = Inr n"
proof -
  let ?m = "rd_file r"
  have split: "[p ..< rd_size r] = [p ..< p + length n] @ (p + length n) # [Suc (p + length n) ..< rd_size r]"
  proof -
    have "p + length n < rd_size r" using assms(2,4) by (simp add: mapped_def)
    then have "rd_size r = p + length n + (rd_size r - (p + length n))" "[p + length n ..< rd_size r] = (p + length n) # [Suc (p + length n) ..< rd_size r]"
      by (simp_all add: upt_conv_Cons)
    then show ?thesis using upt_add_eq_append [of p "p + length n" "rd_size r - (p + length n)"] by simp
  qed
  have "?m (p + k) = n ! k" if "k < length n" for k
    using that assms(1,2) by (simp add: name_field_def nth_append)
  then have a: "map ?m [p ..< p + length n] = n" by (intro nth_equalityI) simp_all
  have b: "?m (p + length n) = 0" using assms(1,2) by (simp add: name_field_def nth_append)
  have "takeWhile (\<lambda>c. c \<noteq> 0) (map ?m [p ..< rd_size r]) = n"
    unfolding split map_append a list.map b using assms(3) by (subst takeWhile_append2) auto
  then show ?thesis using assms(2,4) by (simp add: name_at_def mapped_def)
qed

text \<open>Names as the host has them.\<close>

function (sequential) plain :: "host \<Rightarrow> bool" and plain_in :: "(cstring \<times> host) list \<Rightarrow> bool" where
  "plain (Regular xs) \<longleftrightarrow> True"
| "plain (Directory es) \<longleftrightarrow> plain_in es"
| "plain Special \<longleftrightarrow> True"
| "plain Unreadable \<longleftrightarrow> True"
| "plain_in [] \<longleftrightarrow> True"
| "plain_in ((n, h) # es) \<longleftrightarrow> (dot_name n \<or> length n \<le> 253 \<and> 0 \<notin> set n \<and> plain h) \<and> plain_in es"
  by pat_completeness auto
termination
  by (relation "measure (\<lambda>x. case x of Inl h \<Rightarrow> size h | Inr es \<Rightarrow> size_list (size_prod (\<lambda>_. 0) size) es)") auto

text \<open>The files and directories of the host under their paths, each directory before what it holds.\<close>

function (sequential) host_lines :: "cstring \<Rightarrow> host \<Rightarrow> rd_line list"
  and host_lines_in :: "cstring \<Rightarrow> (cstring \<times> host) list \<Rightarrow> rd_line list" where
  "host_lines path (Regular xs) = [P_reg path]"
| "host_lines path (Directory es) = P_dir path (of_nat (count_files es)) # host_lines_in path es"
| "host_lines path h = []"
| "host_lines_in path [] = []"
| "host_lines_in path ((n, h) # es) = (if dot_name n then [] else host_lines (path @ [47] @ n) h) @ host_lines_in path es"
  by pat_completeness auto
termination
  by (relation "measure (\<lambda>x. case x of Inl (p, h) \<Rightarrow> size h | Inr (p, es) \<Rightarrow> size_list (size_prod (\<lambda>_. 0) size) es)") auto

text \<open>The state of the loop before entry \<open>j\<close>: \<open>q\<close> blocks were fetched.\<close>

definition fetched :: "nat \<Rightarrow> nat \<Rightarrow> nat \<Rightarrow> nat \<Rightarrow> nat \<Rightarrow> nat \<Rightarrow> nat \<Rightarrow> nat \<Rightarrow> nat \<Rightarrow> bool" where
  "fetched orig i t b k j cur block_num block \<longleftrightarrow>
     (let q = (j + 3) div 4
      in block_num = q mod 5 \<and> (q < k \<longrightarrow> cur = inode_at (node i t (q div 5))) \<and>
         (j mod 4 \<noteq> 0 \<longrightarrow> block = orig + 1024 * (b + j div 4)))"

lemma fetch_step:
  assumes ok: "inode_ok (rd_file r) A i ty n t b" and rd: "reads r A" and o: "block_start r = orig"
    and f: "fetched orig i t b (nblocks n) j cur block_num block" and j: "256 * j < n"
  shows "\<exists>cur' block_num'. (if j mod 4 = 0 then next_block r cur block_num else Inr (cur, block_num, block)) =
      Inr (cur', block_num', orig + 1024 * (b + j div 4)) \<and>
    fetched orig i t b (nblocks n) (Suc j) cur' block_num' (orig + 1024 * (b + j div 4))"
proof (cases "j mod 4 = 0")
  case False
  then have "(Suc j + 3) div 4 = (j + 3) div 4" "Suc j mod 4 \<noteq> 0 \<longrightarrow> Suc j div 4 = j div 4" by presburger+
  with False f show ?thesis by (auto simp: fetched_def Let_def)
next
  case True
  let ?q = "j div 4" and ?k = "nblocks n" and ?m = "rd_file r"
  have j4: "j = 4 * ?q" using True by auto
  then have q: "(j + 3) div 4 = ?q" "(Suc j + 3) div 4 = Suc ?q" by presburger+
  have "(1024 * ?q + 1024) div 1024 \<le> ?k" using j j4 unfolding nblocks_def by (intro div_le_mono) linarith
  then have qk: "?q < ?k" by simp
  then have d: "?q div 5 \<le> tails ?k" unfolding tails_def by (intro div_le_mono) simp
  have cur: "cur = inode_at (node i t (?q div 5))" and bn: "block_num = ?q mod 5" using f q(1) qk by (simp_all add: fetched_def Let_def)
  have "rd16 ?m (cur + 4 + 2 * block_num) = of_nat (b + ?q)" using ok qk cur bn unfolding inode_ok_def blocks_at_def by blast
  moreover have "unat (of_nat (b + ?q) :: u16) = b + ?q" using ok qk unfolding inode_ok_def by (intro unat_of_nat_small) simp
  ultimately have blk: "block_start r + 1024 * unat (rd16 ?m (cur + 4 + 2 * block_num)) = orig + 1024 * (b + ?q)" using o by (simp del: of_nat_add)
  have mp: "mapped r cur 16" unfolding cur by (rule node_mapped [OF ok rd d])
  have "Suc j div 4 = ?q" using j4 by presburger
  then have blk': "orig + 1024 * (b + ?q) = orig + 1024 * (b + Suc j div 4)" by simp
  show ?thesis
  proof (cases "?q mod 5 = 4")
    case True
    have dm: "Suc ?q div 5 = Suc (?q div 5)" "Suc ?q mod 5 = 0" using True by (simp_all add: div_Suc mod_Suc)
    have "?q div 5 < tails ?k" if "Suc ?q < ?k"
    proof -
      have "Suc ?q div 5 \<le> tails ?k" using that unfolding tails_def by (intro div_le_mono) simp
      then show ?thesis using dm by simp
    qed
    then have "rd_get_inode (rd16 ?m (cur + 14)) = inode_at (node i t (Suc ?q div 5))" if "Suc ?q < ?k"
      using tail_at(1) [OF ok d] that dm cur by simp
    then show ?thesis using \<open>j mod 4 = 0\<close> True mp blk blk' bn q(2) dm by (simp add: next_block_def fetched_def Let_def)
  next
    case False
    then have "Suc ?q div 5 = ?q div 5" "Suc ?q mod 5 = Suc (?q mod 5)" "?q mod 5 + 1 \<noteq> 5"
      by (simp_all add: div_Suc mod_Suc)
    then show ?thesis using \<open>j mod 4 = 0\<close> mp blk blk' bn q(2) cur by (simp add: next_block_def fetched_def Let_def)
  qed
qed

text \<open>What is shown of every file: with enough stack the visit returns, and its lines are those of the host.\<close>

definition visited :: "nat \<Rightarrow> rdaefs \<Rightarrow> nat set \<Rightarrow> host \<Rightarrow> bool" where
  "visited orig r A h \<longleftrightarrow> (\<forall>i path depth. stored orig (rd_file r) A i h \<longrightarrow> inodes_of h \<le> depth \<longrightarrow>
     (\<exists>ls. visit_inode depth r (inode_at i) path = Inr ls \<and> filter file_line ls = host_lines path h))"

definition visited_in :: "nat \<Rightarrow> rdaefs \<Rightarrow> nat set \<Rightarrow> (cstring \<times> host) list \<Rightarrow> bool" where
  "visited_in orig r A es \<longleftrightarrow> (\<forall>i ty n t b j path depth cur block_num block.
     inode_ok (rd_file r) A i ty n t b \<longrightarrow> n = 256 * (j + count_files es) \<longrightarrow>
     fetched orig i t b (nblocks n) j cur block_num block \<longrightarrow>
     stored_entries orig (rd_file r) A (orig + 1024 * b + 256 * j) es \<longrightarrow> inodes_in es \<le> depth \<longrightarrow>
     (\<exists>ls. visit_dir_loop (visit_inode depth r) r path (j + count_files es) j cur block_num block = Inr ls \<and>
        filter file_line ls = host_lines_in path es))"

lemma visited_entry:
  assumes rd: "reads r A" and o: "block_start r = orig" and h: "visited orig r A h" and es: "visited_in orig r A es"
    and n: "\<not> dot_name nm" "length nm \<le> 253" "0 \<notin> set nm"
  shows "visited_in orig r A ((nm, h) # es)"
  unfolding visited_in_def
proof (intro allI impI)
  fix i ty n t b j path depth cur block_num block
  let ?es = "(nm, h) # es" and ?m = "rd_file r"
  assume ok: "inode_ok ?m A i ty n t b" and N: "n = 256 * (j + count_files ?es)"
    and f: "fetched orig i t b (nblocks n) j cur block_num block"
    and st: "stored_entries orig ?m A (orig + 1024 * b + 256 * j) ?es" and d: "inodes_in ?es \<le> depth"
  have c: "j + count_files ?es = Suc j + count_files es" using n(1) by (simp add: count_files_def)
  define B where "B = orig + 1024 * (b + j div 4)"
  obtain cur' block_num' where fetch: "(if j mod 4 = 0 then next_block r cur block_num else Inr (cur, block_num, block)) =
      Inr (cur', block_num', B)"
    and f': "fetched orig i t b (nblocks n) (Suc j) cur' block_num' B"
    using fetch_step [OF ok rd o f] N c unfolding B_def by auto
  let ?e = "orig + 1024 * b + 256 * j"
  have "256 * j = 256 * (4 * (j div 4) + j mod 4)" by (simp only: mult_div_mod_eq)
  also have "\<dots> = 1024 * (j div 4) + 256 * (j mod 4)" by (simp only: distrib_left)
  finally have e: "B + 256 * (j mod 4) = ?e" unfolding B_def by (simp only: distrib_left add.assoc)
  have s: "{?e ..< ?e + 256} \<subseteq> A" "\<forall>k<254. ?m (?e + k) = name_field nm ! k" "stored orig ?m A (unat (rd16 ?m (?e + 254))) h"
    "stored_entries orig ?m A (?e + 256) es" using st n(1) by simp_all
  have "?e + 255 \<in> A" by (rule subsetD [OF s(1)]) simp
  then have mp: "mapped r ?e 256" using rd by (auto simp: reads_def mapped_def)
  note nm = name_at_ok [OF s(2) n(2,3) mp]
  have "inodes_of h \<le> depth" "inodes_in es \<le> depth" using d n(1) by simp_all
  with h s(3) obtain ls where v: "visit_inode depth r (rd_get_inode (rd16 ?m (?e + 254))) (path @ [47] @ nm) = Inr ls"
    "filter file_line ls = host_lines (path @ [47] @ nm) h"
    unfolding visited_def rd_get_inode_def inode_at_def by blast
  have "stored_entries orig ?m A (orig + 1024 * b + 256 * Suc j) es" using s(4) by (simp add: algebra_simps)
  then obtain ls' where l: "visit_dir_loop (visit_inode depth r) r path (Suc j + count_files es) (Suc j) cur' block_num' B = Inr ls'"
    "filter file_line ls' = host_lines_in path es"
    using es [unfolded visited_in_def, rule_format, OF ok _ f' _ \<open>inodes_in es \<le> depth\<close>] N c by auto
  have "visit_dir_loop (visit_inode depth r) r path (j + count_files ?es) j cur block_num block =
      Inr (P_entry nm (rd16 ?m (?e + 254)) # ls @ ls')"
    unfolding c using v l nm mp n(2) by (subst visit_dir_loop.simps) (simp add: fetch e Let_def)
  then show "\<exists>ls. visit_dir_loop (visit_inode depth r) r path (j + count_files ?es) j cur block_num block = Inr ls \<and>
      filter file_line ls = host_lines_in path ?es" using v l n(1) by simp
qed

lemma visited_directory:
  assumes rd: "reads r A" and es: "visited_in orig r A es"
  shows "visited orig r A (Directory es)"
  unfolding visited_def
proof (intro allI impI)
  fix i path depth
  let ?m = "rd_file r" and ?n = "256 * count_files es"
  assume st: "stored orig ?m A i (Directory es)" and d: "inodes_of (Directory es) \<le> depth"
  then obtain t b where ok: "inode_ok ?m A i 1 ?n t b" and s: "stored_entries orig ?m A (orig + 1024 * b) es" by auto
  obtain d' where d': "depth = Suc d'" "inodes_in es \<le> d'" "tails (nblocks ?n) \<le> d'" using d by (cases depth) auto
  have f: "fetched orig i t b (nblocks ?n) 0 (inode_at i) 0 0" by (simp add: fetched_def node_def)
  obtain ls where ls: "print_inode d' r (inode_at i) = Inr ls" "filter file_line ls = []" using print_inode_ok [OF ok rd d'(3)] by blast
  obtain ls' where ls': "visit_dir_loop (visit_inode d' r) r path (count_files es) 0 (inode_at i) 0 0 = Inr ls'"
    "filter file_line ls' = host_lines_in path es"
    using es [unfolded visited_in_def, rule_format, OF ok _ f _ d'(2), of path] s by auto
  have "mapped r (inode_at i) 16" using node_mapped [OF ok rd, of 0] by (simp add: node_def)
  moreover have "?m (inode_at i) = 1" using ok by (simp add: inode_ok_def)
  moreover have "rd_inode_size r (inode_at i) div 256 = count_files es" using rd_inode_size_ok [OF ok] by simp
  ultimately show "\<exists>ls. visit_inode depth r (inode_at i) path = Inr ls \<and> filter file_line ls = host_lines path (Directory es)"
    using ls ls' d'(1) by (simp add: rd_visit_dir_def)
qed

lemma visited_file: "reads r A \<Longrightarrow> visited orig r A (Regular xs)"
  unfolding visited_def
proof (intro allI impI)
  fix i path depth
  assume rd: "reads r A" and st: "stored orig (rd_file r) A i (Regular xs)" and d: "inodes_of (Regular xs) \<le> depth"
  then obtain t b where ok: "inode_ok (rd_file r) A i 0 (length xs) t b" by auto
  obtain d' where d': "depth = Suc d'" "tails (nblocks (length xs)) \<le> d'" using d by (cases depth) auto
  obtain ls where "print_inode d' r (inode_at i) = Inr ls" "filter file_line ls = []" using print_inode_ok [OF ok rd d'(2)] by blast
  moreover have "mapped r (inode_at i) 16" using node_mapped [OF ok rd, of 0] by (simp add: node_def)
  moreover have "rd_file r (inode_at i) = 0" using ok by (simp add: inode_ok_def)
  ultimately show "\<exists>ls. visit_inode depth r (inode_at i) path = Inr ls \<and> filter file_line ls = host_lines path (Regular xs)"
    using d'(1) by (simp add: visit_reg_def)
qed

lemma visited_all:
  assumes "reads r A" and "block_start r = orig"
  shows "plain h \<Longrightarrow> visited orig r A h" "plain_in es \<Longrightarrow> visited_in orig r A es"
proof (induction h and es rule: plain_plain_in.induct)
  case (1 xs)
  show ?case by (rule visited_file [OF assms(1)])
next
  case (2 es)
  then show ?case using visited_directory [OF assms(1)] by simp
next
  case 5
  show ?case by (auto simp: visited_in_def count_files_def visit_dir_loop.simps)
next
  case (6 n h es)
  show ?case
  proof (cases "dot_name n")
    case True
    then have "count_files ((n, h) # es) = count_files es" "visited_in orig r A es" using 6 by (simp_all add: count_files_def)
    with True show ?thesis by (simp add: visited_in_def)
  next
    case False
    with 6 show ?thesis by (intro visited_entry [OF assms]) simp_all
  qed
qed (simp_all add: visited_def)

section \<open>Properties\<close>



end
