(* ===== verification/Module.thy ===== *)
theory Module
  imports Pfa_Init
begin

text \<open>
  The relocation of boot modules (\<open>module.c\<close>), which is linked into the kernel: the modules are copied one
  behind the other to a fixed address, through a temporary area when they may lie in the way, and the
  table of the boot loader is brought up to date. Memory is the kernel's view of it.
\<close>

section \<open>Model\<close>

abbreviation (input) MODULES_BASE_VIRTUAL_ADDRESS :: u32 where "MODULES_BASE_VIRTUAL_ADDRESS \<equiv> 0xC0400000"
abbreviation (input) MODULES_BASE_PHYSICAL_ADDRESS :: u32 where "MODULES_BASE_PHYSICAL_ADDRESS \<equiv> 0x00400000"

text \<open>\<open>multiboot_module_t\<close>, 16 bytes.\<close>

definition mod_start :: "mem \<Rightarrow> u32 \<Rightarrow> u32" where
  "mod_start m p = load32 m p"

definition mod_end :: "mem \<Rightarrow> u32 \<Rightarrow> u32" where
  "mod_end m p = load32 m (p + 4)"

definition ARE_MODULES_ENABLED :: "u32 \<Rightarrow> bool" where
  "ARE_MODULES_ENABLED flags \<longleftrightarrow> flags AND 8 \<noteq> 0"

function end_address_loop :: "mem \<Rightarrow> u32 \<Rightarrow> u32 \<Rightarrow> u32 \<Rightarrow> u32 \<Rightarrow> u32" where
  "end_address_loop m mods_count module i modules_end =
     (if i < mods_count then
        end_address_loop m mods_count (module + 16) (i + 1)
          (if mod_end m module > modules_end then mod_end m module else modules_end)
      else modules_end)"
  by pat_completeness auto
termination
  by (relation "measure (\<lambda>(m, n, p, i, e). unat n - unat i)") (auto intro: loop_measure)

declare end_address_loop.simps [simp del]

definition end_address_of_modules :: "mem \<Rightarrow> u32 \<Rightarrow> u32" where
  "end_address_of_modules m mbinfo = end_address_loop m (mb_mods_count m mbinfo) (mb_mods_addr m mbinfo) 0 0"

function total_size_loop :: "mem \<Rightarrow> u32 \<Rightarrow> u32 \<Rightarrow> u32 \<Rightarrow> u32 \<Rightarrow> u32" where
  "total_size_loop m mods_count module i sz =
     (if i < mods_count then total_size_loop m mods_count (module + 16) (i + 1) (sz + (mod_end m module - mod_start m module))
      else sz)"
  by pat_completeness auto
termination
  by (relation "measure (\<lambda>(m, n, p, i, e). unat n - unat i)") (auto intro: loop_measure)

declare total_size_loop.simps [simp del]

definition total_size_of_modules :: "mem \<Rightarrow> u32 \<Rightarrow> u32" where
  "total_size_of_modules m mbinfo = total_size_loop m (mb_mods_count m mbinfo) (mb_mods_addr m mbinfo) 0 0"

lemma count_measure: "i < n \<Longrightarrow> 4294967296 - unat (i + 1) < 4294967296 - unat i" for i n :: u32
  using unat_lt_u32 [of i] by (simp add: unat_inc)

text \<open>The number of modules is read again in every round, from memory the copy may have changed.\<close>

function copy_modules_loop :: "mem \<Rightarrow> u32 \<Rightarrow> u32 \<Rightarrow> u32 \<Rightarrow> u32 \<Rightarrow> mem" where
  "copy_modules_loop m mbinfo module i dest =
     (if i < mb_mods_count m mbinfo then
        (let sz = mod_end m module - mod_start m module;
             m = memcpy m dest (mod_start m module) sz;
             m = store32 m module dest;
             m = store32 m (module + 4) (dest + sz)
         in copy_modules_loop m mbinfo (module + 16) (i + 1) (dest + sz))
      else m)"
  by pat_completeness auto
termination
  by (relation "measure (\<lambda>(m, mb, p, i, d). 4294967296 - unat i)") (auto intro: count_measure)

declare copy_modules_loop.simps [simp del]

definition copy_modules :: "mem \<Rightarrow> u32 \<Rightarrow> u32 \<Rightarrow> mem" where
  "copy_modules m mbinfo dest = copy_modules_loop m mbinfo (mb_mods_addr m mbinfo) 0 dest"

definition move_multiboot_modules :: "mem \<Rightarrow> u32 \<Rightarrow> mem" where
  "move_multiboot_modules m mbinfo =
     (if ARE_MODULES_ENABLED (mb_flags m mbinfo) then
        (let start_addr = mb_mods_addr m mbinfo;
             end_addr = end_address_of_modules m mbinfo;
             total_size = total_size_of_modules m mbinfo
         in if end_addr < MODULES_BASE_PHYSICAL_ADDRESS then copy_modules m mbinfo MODULES_BASE_VIRTUAL_ADDRESS
            else if start_addr > MODULES_BASE_PHYSICAL_ADDRESS + total_size then copy_modules m mbinfo MODULES_BASE_VIRTUAL_ADDRESS
            else
              (let tmp_area = (if end_addr < MODULES_BASE_PHYSICAL_ADDRESS + total_size
                               then NEXT_ADDR (MODULES_BASE_PHYSICAL_ADDRESS + total_size)
                               else NEXT_ADDR end_addr);
                   m = copy_modules m mbinfo tmp_area
               in copy_modules m mbinfo MODULES_BASE_VIRTUAL_ADDRESS))
      else m)"

section \<open>Regions of memory\<close>

definition region :: "u32 \<Rightarrow> u32 \<Rightarrow> u32 set" where
  "region a n = {x. x - a < n}"

lemma region_offset: "x < n \<Longrightarrow> a + x \<in> region a n"
  by (simp add: region_def)

lemma memcpy_regions:
  assumes "region d n \<inter> region s n = {}"
  shows "memcpy m d s n = (\<lambda>a. if a \<in> region d n then m (s + (a - d)) else m a)"
proof -
  have "n \<le> s - d" if "0 < n"
  proof (rule ccontr)
    assume "\<not> n \<le> s - d"
    then have "s \<in> region d n \<inter> region s n" using that by (simp add: region_def not_le)
    with assms show False by simp
  qed
  moreover have "n \<le> d - s" if "0 < n"
  proof (rule ccontr)
    assume "\<not> n \<le> d - s"
    then have "d \<in> region d n \<inter> region s n" using that by (simp add: region_def not_le)
    with assms show False by simp
  qed
  ultimately have "disjoint_regions d s n" by (cases "n = 0") (auto simp: disjoint_regions_def word_neq_0_conv)
  then show ?thesis by (simp add: memcpy_eq region_def)
qed

lemma load32_cong: "(\<And>x. x \<in> region p 4 \<Longrightarrow> m' x = m x) \<Longrightarrow> load32 m' p = load32 m p"
  by (simp add: load32_def region_def)

lemma store32_other: "a \<notin> region p 4 \<Longrightarrow> store32 m p v a = m a"
proof -
  assume "a \<notin> region p 4"
  then have "a \<noteq> p + x" if "x < 4" for x using region_offset [OF that, of p] by blast
  from this [of 0] this [of 1] this [of 2] this [of 3] show ?thesis by (simp add: store32_def)
qed

text \<open>The two fields of a table entry.\<close>

lemma region_fields: "region p 4 \<subseteq> region p 8" "region (p + 4) 4 \<subseteq> region p 8" "region p 4 \<inter> region (p + 4) 4 = {}"
proof -
  show "region p 4 \<subseteq> region p 8" by (auto simp: region_def elim: order.strict_trans)
  have sub: "4 \<le> x - p \<and> x - p < 8" if "x - (p + 4) < 4" for x
  proof -
    have "x - p = (x - (p + 4)) + 4" by simp
    moreover have "unat (x - (p + 4)) < 4" using that by (simp add: word_less_nat_alt)
    then have "unat ((x - (p + 4)) + 4) = unat (x - (p + 4)) + 4" by (subst unat_add_nowrap) simp_all
    ultimately show ?thesis using \<open>unat (x - (p + 4)) < 4\<close> by (simp add: word_less_nat_alt word_le_nat_alt)
  qed
  show "region (p + 4) 4 \<subseteq> region p 8" using sub by (auto simp: region_def)
  show "region p 4 \<inter> region (p + 4) 4 = {}" using sub by (auto simp: region_def not_less [symmetric])
qed

section \<open>Tables of modules\<close>

text \<open>A list of modules as address and size, and the memory of its table, its contents and its copies.\<close>

type_synonym modules = "(u32 \<times> u32) list"

fun table :: "mem \<Rightarrow> u32 \<Rightarrow> modules \<Rightarrow> bool" where
  "table m p [] \<longleftrightarrow> True"
| "table m p ((s, l) # ms) \<longleftrightarrow> mod_start m p = s \<and> mod_end m p = s + l \<and> table m (p + 16) ms"

fun table_bytes :: "u32 \<Rightarrow> modules \<Rightarrow> u32 set" where
  "table_bytes p [] = {}"
| "table_bytes p (_ # ms) = region p 8 \<union> table_bytes (p + 16) ms"

fun module_bytes :: "modules \<Rightarrow> u32 set" where
  "module_bytes [] = {}"
| "module_bytes ((s, l) # ms) = region s l \<union> module_bytes ms"

fun relocated :: "u32 \<Rightarrow> modules \<Rightarrow> modules" where
  "relocated d [] = []"
| "relocated d ((s, l) # ms) = (d, l) # relocated (d + l) ms"

text \<open>Copying to \<open>d\<close> is safe: the copies overlap neither each other nor a module still to be copied, the
  table or the bytes in \<open>I\<close>, and the table overlaps neither itself nor a module.\<close>

fun separate :: "u32 set \<Rightarrow> u32 \<Rightarrow> u32 \<Rightarrow> modules \<Rightarrow> bool" where
  "separate I p d [] \<longleftrightarrow> True"
| "separate I p d ((s, l) # ms) \<longleftrightarrow>
     region d l \<inter> (region s l \<union> module_bytes ms \<union> module_bytes (relocated (d + l) ms) \<union> table_bytes p ((s, l) # ms) \<union> I) = {} \<and>
     region p 8 \<inter> (module_bytes ms \<union> module_bytes (relocated (d + l) ms) \<union> table_bytes (p + 16) ms \<union> I) = {} \<and>
     separate I (p + 16) (d + l) ms"

text \<open>Every module has its contents of \<open>m\<close> in \<open>m'\<close>, at the address the table of \<open>m'\<close> gives.\<close>

fun copied :: "mem \<Rightarrow> mem \<Rightarrow> u32 \<Rightarrow> modules \<Rightarrow> bool" where
  "copied m m' d [] \<longleftrightarrow> True"
| "copied m m' d ((s, l) # ms) \<longleftrightarrow> (\<forall>x<l. m' (d + x) = m (s + x)) \<and> copied m m' (d + l) ms"

lemma table_cong: "(\<And>a. a \<in> table_bytes p ms \<Longrightarrow> m' a = m a) \<Longrightarrow> table m' p ms = table m p ms"
proof (induction ms arbitrary: p)
  case (Cons x ms)
  have "load32 m' p = load32 m p" "load32 m' (p + 4) = load32 m (p + 4)"
    using Cons.prems region_fields(1,2) [of p] by (intro load32_cong; auto)+
  with Cons show ?case by (cases x) (simp add: mod_start_def mod_end_def)
qed simp

lemma copied_cong: "(\<And>a. a \<in> module_bytes ms \<Longrightarrow> m1 a = m a) \<Longrightarrow> copied m1 m' d ms = copied m m' d ms"
proof (induction ms arbitrary: d)
  case (Cons x ms)
  then show ?case by (cases x) (auto simp: region_def)
qed simp

lemma copied_trans: "copied m m1 d ms \<Longrightarrow> copied m1 m2 e (relocated d ms) \<Longrightarrow> copied m m2 e ms"
proof (induction ms arbitrary: d e)
  case (Cons x ms)
  then show ?case by (cases x) auto
qed simp

lemma length_relocated [simp]: "length (relocated d ms) = length ms"
proof (induction ms arbitrary: d)
  case (Cons x ms)
  then show ?case by (cases x) simp
qed simp

section \<open>Copying\<close>

text \<open>One round: the bytes of the module, then the two fields of its table entry.\<close>

definition copy_round :: "mem \<Rightarrow> u32 \<Rightarrow> u32 \<Rightarrow> u32 \<Rightarrow> u32 \<Rightarrow> mem" where
  "copy_round m p d s l = store32 (store32 (memcpy m d s l) p d) (p + 4) (d + l)"

lemma copy_round_eq:
  assumes "region d l \<inter> region s l = {}" and "region d l \<inter> region p 8 = {}"
  shows "x < l \<Longrightarrow> copy_round m p d s l (d + x) = m (s + x)"
    and "a \<notin> region d l \<union> region p 8 \<Longrightarrow> copy_round m p d s l a = m a"
    and "mod_start (copy_round m p d s l) p = d" and "mod_end (copy_round m p d s l) p = d + l"
proof -
  let ?m1 = "memcpy m d s l" and ?m2 = "store32 (memcpy m d s l) p d"
  have out: "copy_round m p d s l a = ?m1 a" if "a \<notin> region p 8" for a
    using that region_fields(1,2) [of p] unfolding copy_round_def by (metis store32_other subset_iff)
  show "copy_round m p d s l (d + x) = m (s + x)" if x: "x < l"
  proof -
    have "d + x \<in> region d l" by (rule region_offset [OF x])
    then show ?thesis using assms(2) out [of "d + x"] by (auto simp: memcpy_regions [OF assms(1)])
  qed
  show "copy_round m p d s l a = m a" if "a \<notin> region d l \<union> region p 8"
    using that out [of a] by (simp add: memcpy_regions [OF assms(1)])
  show "mod_end (copy_round m p d s l) p = d + l" by (simp add: mod_end_def copy_round_def load32_store32)
  have "load32 (copy_round m p d s l) p = load32 ?m2 p"
    unfolding copy_round_def using region_fields(3) [of p] by (intro load32_cong store32_other) blast
  then show "mod_start (copy_round m p d s l) p = d" by (simp add: mod_start_def load32_store32)
qed

lemma copy_loop_result:
  assumes "table m p ms" and "separate (region (mb + 20) 8) p d ms" and "unat (mb_mods_count m mb) = unat i + length ms"
  shows "table (copy_modules_loop m mb p i d) p (relocated d ms) \<and> copied m (copy_modules_loop m mb p i d) d ms \<and>
    (\<forall>a. a \<notin> module_bytes (relocated d ms) \<union> table_bytes p ms \<longrightarrow> copy_modules_loop m mb p i d a = m a)"
  using assms
proof (induction ms arbitrary: m p i d)
  case Nil
  then have "\<not> i < mb_mods_count m mb" by (simp add: word_less_nat_alt)
  then show ?case by (simp add: copy_modules_loop.simps)
next
  case (Cons x ms)
  obtain s l where x: "x = (s, l)" by (cases x)
  let ?m = "copy_round m p d s l" and ?I = "region (mb + 20) 8"
  let ?m' = "copy_modules_loop m mb p i d"
  have tb: "mod_start m p = s" "mod_end m p = s + l" "table m (p + 16) ms" using Cons.prems(1) x by simp_all
  have sep: "region d l \<inter> (region s l \<union> module_bytes ms \<union> module_bytes (relocated (d + l) ms) \<union> table_bytes p (x # ms) \<union> ?I) = {}"
    "region p 8 \<inter> (module_bytes ms \<union> module_bytes (relocated (d + l) ms) \<union> table_bytes (p + 16) ms \<union> ?I) = {}"
    "separate ?I (p + 16) (d + l) ms" using Cons.prems(2) x by simp_all
  have dis: "region d l \<inter> region s l = {}" "region d l \<inter> region p 8 = {}" using sep(1) by auto
  note rd = copy_round_eq [OF dis, where m = m]
  have keep: "?m a = m a" if "a \<in> table_bytes (p + 16) ms \<union> module_bytes ms \<union> ?I" for a
    using that sep(1,2) by (intro rd(2)) auto
  have less: "i < mb_mods_count m mb" using Cons.prems(3) by (simp add: word_less_nat_alt)
  have i1: "unat (i + 1) = Suc (unat i)" by (rule unat_inc [OF less])
  have step: "?m' = copy_modules_loop ?m mb (p + 16) (i + 1) (d + l)"
    using less tb by (subst copy_modules_loop.simps) (simp add: Let_def copy_round_def)
  have "mb_mods_count ?m mb = mb_mods_count m mb" unfolding mb_mods_count_def using keep region_fields(1) [of "mb + 20"] by (intro load32_cong) blast
  then have n: "unat (mb_mods_count ?m mb) = unat (i + 1) + length ms" using Cons.prems(3) i1 by simp
  have "table ?m (p + 16) ms" using tb(3) keep table_cong [of "p + 16" ms ?m m] by blast
  from Cons.IH [OF this sep(3) n] have
    IH: "table ?m' (p + 16) (relocated (d + l) ms)" "copied ?m ?m' (d + l) ms"
      "\<And>a. a \<notin> module_bytes (relocated (d + l) ms) \<union> table_bytes (p + 16) ms \<Longrightarrow> ?m' a = ?m a"
    unfolding step by blast+
  have kept: "?m' a = ?m a" if "a \<in> region d l \<union> region p 8" for a
    using that sep(1,2) by (intro IH(3)) auto
  have "load32 ?m' p = load32 ?m p" "load32 ?m' (p + 4) = load32 ?m (p + 4)"
    using kept region_fields(1,2) [of p] by (intro load32_cong; blast)+
  then have "mod_start ?m' p = d" "mod_end ?m' p = d + l" using rd(3,4) by (simp_all add: mod_start_def mod_end_def)
  moreover have "?m' (d + y) = m (s + y)" if "y < l" for y
    using kept [of "d + y"] rd(1) [OF that] region_offset [OF that, of d] by simp
  moreover have "copied m ?m' (d + l) ms" using IH(2) keep copied_cong [of ms ?m m] by blast
  moreover have "?m' a = m a" if "a \<notin> module_bytes (relocated d (x # ms)) \<union> table_bytes p (x # ms)" for a
    using that IH(3) [of a] rd(2) [of a] x by simp
  ultimately show ?case using IH(1) x by simp
qed

lemma copy_modules_result:
  assumes "table m (mb_mods_addr m mb) ms" and "separate (region (mb + 20) 8) (mb_mods_addr m mb) d ms"
    and "unat (mb_mods_count m mb) = length ms"
  shows "table (copy_modules m mb d) (mb_mods_addr m mb) (relocated d ms)" and "copied m (copy_modules m mb d) d ms"
    and "a \<notin> module_bytes (relocated d ms) \<union> table_bytes (mb_mods_addr m mb) ms \<Longrightarrow> copy_modules m mb d a = m a"
  using copy_loop_result [of m "mb_mods_addr m mb" ms mb d 0] assms by (auto simp: copy_modules_def)

section \<open>The whole move\<close>

lemma total_size_eq:
  "table m p ms \<Longrightarrow> unat n = unat i + length ms \<Longrightarrow> total_size_loop m n p i sz = sz + sum_list (map snd ms)"
proof (induction ms arbitrary: p i sz)
  case (Cons x ms)
  then have less: "i < n" by (simp add: word_less_nat_alt)
  have "unat n = unat (i + 1) + length ms" using Cons.prems(2) unat_inc [OF less] by simp
  with Cons less show ?case by (cases x) (subst total_size_loop.simps, simp add: add.assoc)
qed (simp add: total_size_loop.simps word_less_nat_alt)

lemma end_address_eq:
  "table m p ms \<Longrightarrow> unat n = unat i + length ms \<Longrightarrow> end_address_loop m n p i e = fold (\<lambda>(s, l) e. max e (s + l)) ms e"
proof (induction ms arbitrary: p i e)
  case (Cons x ms)
  then have less: "i < n" by (simp add: word_less_nat_alt)
  have "unat n = unat (i + 1) + length ms" using Cons.prems(2) unat_inc [OF less] by simp
  moreover have "(if e < a then a else e) = max e a" for a :: u32 by (auto simp: max_def)
  ultimately show ?case using Cons less by (cases x) (subst end_address_loop.simps, simp)
qed (simp add: end_address_loop.simps word_less_nat_alt)

lemma relocated_twice [simp]: "relocated e (relocated d ms) = relocated e ms"
proof (induction ms arbitrary: d e)
  case (Cons x ms)
  then show ?case by (cases x) simp
qed simp

lemma table_bytes_relocated [simp]: "table_bytes p (relocated d ms) = table_bytes p ms"
proof (induction ms arbitrary: d p)
  case (Cons x ms)
  then show ?case by (cases x) simp
qed simp

text \<open>Where the modules have to go first, if anywhere.\<close>

definition tmp_area_of :: "u32 \<Rightarrow> modules \<Rightarrow> u32 option" where
  "tmp_area_of p ms =
     (let e = fold (\<lambda>(s, l) e. max e (s + l)) ms 0; t = sum_list (map snd ms)
      in if e < 0x400000 \<or> p > 0x400000 + t then None
         else Some (if e < 0x400000 + t then NEXT_ADDR (0x400000 + t) else NEXT_ADDR e))"

definition safe_move :: "u32 \<Rightarrow> u32 \<Rightarrow> modules \<Rightarrow> bool" where
  "safe_move mb p ms \<longleftrightarrow>
     (case tmp_area_of p ms of
        None \<Rightarrow> separate (region (mb + 20) 8) p 0xC0400000 ms
      | Some tmp \<Rightarrow> separate (region (mb + 20) 8) p tmp ms \<and> separate (region (mb + 20) 8) p 0xC0400000 (relocated tmp ms))"

lemma separate_info: "separate I p d ms \<Longrightarrow> I \<inter> (module_bytes (relocated d ms) \<union> table_bytes p ms) = {}"
proof (induction ms arbitrary: p d)
  case (Cons x ms)
  then show ?case by (cases x) auto
qed simp

section \<open>Properties\<close>


text \<open>Two modules of three and two bytes.\<close>

definition example_modules :: mem where
  "example_modules = (\<lambda>_. 0)(0x500 := 8, 0x514 := 2, 0x519 := 0x10, 0x1001 := 0x20, 0x1004 := 3, 0x1005 := 0x20,
     0x1011 := 0x30, 0x1014 := 2, 0x1015 := 0x30, 0x2000 := 65, 0x2001 := 66, 0x2002 := 67, 0x3000 := 68, 0x3001 := 69)"

lemma region_nowrap: "unat a + unat n < 2 ^ 32 \<Longrightarrow> region a n = {x. unat a \<le> unat x \<and> unat x < unat a + unat n}"
proof -
  assume "unat a + unat n < 2 ^ 32"
  then have "x - a < n \<longleftrightarrow> unat a \<le> unat x \<and> unat x < unat a + unat n" for x
    using unat_sub_if' [of x a] unat_lt_u32 [of x] by (auto simp: word_less_nat_alt split: if_splits)
  then show ?thesis by (simp add: region_def)
qed


end
