(* ===== verification/Userland.thy ===== *)
theory Userland
  imports Kmain Syscall_Correct
begin

text \<open>
  The two user programs, \<open>apps/init.c\<close> and \<open>apps/sh.c\<close>, with the code around \<open>main\<close> in \<open>libc/start.s\<close>. Between two
  system calls a program computes on its own variables only; it is a state, the system call it makes in
  that state, and the state it is in when the call returns with a result. The endless loops are states
  without a call. What the calls do is the kernel's part (\<open>Syscall\<close>); the last property puts \<open>init\<close> and \<open>sys_wait\<close>
  together.
\<close>

section \<open>init\<close>

datatype user_call =
    Call_open cstring | Call_fork | Call_execve cstring | Call_wait | Call_write u32 cstring u32 | Call_exit int

datatype init_pc = Open_stdin | Open_stdout | Open_stderr | Fork_shell | Exec_shell | Wait_children | Init_return | Init_idle

definition init_call :: "init_pc \<Rightarrow> user_call option" where
  "init_call pc =
     (case pc of
        Open_stdin \<Rightarrow> Some (Call_open (literal ''/dev/keyboard''))
      | Open_stdout \<Rightarrow> Some (Call_open (literal ''/dev/console''))
      | Open_stderr \<Rightarrow> Some (Call_open (literal ''/dev/console''))
      | Fork_shell \<Rightarrow> Some Call_fork
      | Exec_shell \<Rightarrow> Some (Call_execve (literal ''/bin/sh''))
      | Wait_children \<Rightarrow> Some Call_wait
      | Init_return \<Rightarrow> Some (Call_exit 0)
      | Init_idle \<Rightarrow> None)"

definition init_next :: "init_pc \<Rightarrow> int \<Rightarrow> init_pc" where
  "init_next pc r =
     (case pc of
        Open_stdin \<Rightarrow> Open_stdout
      | Open_stdout \<Rightarrow> Open_stderr
      | Open_stderr \<Rightarrow> Fork_shell
      | Fork_shell \<Rightarrow> (if r = 0 then Exec_shell else Wait_children)
      | Exec_shell \<Rightarrow> Init_return
      | Wait_children \<Rightarrow> (if r \<noteq> - 1 then Wait_children else Init_idle)
      | Init_return \<Rightarrow> Init_idle
      | Init_idle \<Rightarrow> Init_idle)"

section \<open>sh\<close>

text \<open>\<open>i\<close> and \<open>j\<close> are the variables of \<open>main\<close>.\<close>

datatype sh_pc = Sh_fork | Parent_write | Parent_message | Parent_wait | Parent_done | Child_write | Child_exiting | Sh_return | Sh_idle

record sh =
  sh_pc :: sh_pc
  sh_i :: int
  sh_j :: int

function busy_loop :: "int \<Rightarrow> int" where
  "busy_loop j = (if j < 1000000 then busy_loop (j + 1) else j + 1)"
  by pat_completeness auto
termination
  by (relation "measure (\<lambda>j. nat (1000000 - j))") auto

declare busy_loop.simps [simp del]

text \<open>After a line is written: the work, then the counter is tested and incremented.\<close>

definition sh_round :: "int \<Rightarrow> sh_pc \<Rightarrow> sh \<Rightarrow> sh" where
  "sh_round bound leave s =
     (let s = s\<lparr>sh_j := busy_loop (sh_j s)\<rparr>;
          s = s\<lparr>sh_j := 0\<rparr>
      in if sh_i s \<ge> bound then s\<lparr>sh_i := sh_i s + 1, sh_pc := leave\<rparr> else s\<lparr>sh_i := sh_i s + 1\<rparr>)"

definition sh_init :: sh where
  "sh_init = \<lparr>sh_pc = Sh_fork, sh_i = 0, sh_j = 0\<rparr>"

definition parent_message :: cstring where
  "parent_message = literal ''parent doing nothing'' @ [10]"

definition sh_call :: "sh \<Rightarrow> user_call option" where
  "sh_call s =
     (case sh_pc s of
        Sh_fork \<Rightarrow> Some Call_fork
      | Parent_write \<Rightarrow> Some (Call_write 1 (literal ''parent'' @ [10]) 7)
      | Parent_message \<Rightarrow> Some (Call_write 1 parent_message (of_nat (length parent_message)))
      | Parent_wait \<Rightarrow> Some Call_wait
      | Parent_done \<Rightarrow> Some (Call_write 1 (literal ''done waiting'' @ [10]) 13)
      | Child_write \<Rightarrow> Some (Call_write 1 (literal ''child'' @ [10]) 6)
      | Child_exiting \<Rightarrow> Some (Call_write 1 (literal ''child exiting'' @ [10]) 14)
      | Sh_return \<Rightarrow> Some (Call_exit 0)
      | Sh_idle \<Rightarrow> None)"

definition sh_next :: "sh \<Rightarrow> int \<Rightarrow> sh" where
  "sh_next s r =
     (case sh_pc s of
        Sh_fork \<Rightarrow> s\<lparr>sh_pc := if r \<noteq> 0 then Parent_write else Child_write\<rparr>
      | Parent_write \<Rightarrow> sh_round 10 Parent_message s
      | Parent_message \<Rightarrow> s\<lparr>sh_pc := Parent_wait\<rparr>
      | Parent_wait \<Rightarrow> s\<lparr>sh_pc := Parent_done\<rparr>
      | Parent_done \<Rightarrow> s\<lparr>sh_pc := Sh_idle\<rparr>
      | Child_write \<Rightarrow> sh_round 7 Child_exiting s
      | Child_exiting \<Rightarrow> s\<lparr>sh_pc := Sh_return\<rparr>
      | Sh_return \<Rightarrow> s\<lparr>sh_pc := Sh_idle\<rparr>
      | Sh_idle \<Rightarrow> s)"

text \<open>The calls of a program in the order it makes them, given their results, up to a number of calls.\<close>

primrec sh_calls :: "nat \<Rightarrow> (nat \<Rightarrow> int) \<Rightarrow> sh \<Rightarrow> user_call list" where
  "sh_calls 0 results s = []"
| "sh_calls (Suc n) results s =
     (case sh_call s of None \<Rightarrow> []
      | Some c \<Rightarrow> c # sh_calls n (\<lambda>k. results (Suc k)) (sh_next s (results 0)))"

section \<open>Rounds\<close>

lemma sh_round_eq:
  "sh_round bound leave s = s\<lparr>sh_j := 0, sh_i := sh_i s + 1, sh_pc := if sh_i s \<ge> bound then leave else sh_pc s\<rparr>"
  by (simp add: sh_round_def Let_def)

text \<open>A program that writes one line per round, until its counter reaches the bound.\<close>

lemma sh_rounds:
  assumes call: "\<And>s. sh_pc s = pc \<Longrightarrow> sh_call s = Some c" and nxt: "\<And>s r. sh_pc s = pc \<Longrightarrow> sh_next s r = sh_round bound leave s"
  shows "sh_pc s = pc \<Longrightarrow> sh_i s = bound - int k \<Longrightarrow>
    \<exists>s'. sh_pc s' = leave \<and> (\<forall>n results. sh_calls (Suc k + n) results s = replicate (Suc k) c @ sh_calls n (\<lambda>j. results (Suc k + j)) s')"
proof (induction k arbitrary: s)
  case 0
  then show ?case using call [of s] nxt [of s] by (intro exI [of _ "sh_round bound leave s"]) (simp add: sh_round_eq)
next
  case (Suc k)
  let ?s = "sh_round bound leave s"
  have "sh_pc ?s = pc" "sh_i ?s = bound - int k" using Suc.prems by (simp_all add: sh_round_eq)
  from Suc.IH [OF this] obtain s' where s': "sh_pc s' = leave"
    "\<And>n results. sh_calls (Suc k + n) results ?s = replicate (Suc k) c @ sh_calls n (\<lambda>j. results (Suc k + j)) s'" by blast
  have "sh_calls (Suc (Suc k) + n) results s = replicate (Suc (Suc k)) c @ sh_calls n (\<lambda>j. results (Suc (Suc k) + j)) s'" for n results
  proof -
    have "sh_calls (Suc (Suc k) + n) results s = c # sh_calls (Suc k + n) (\<lambda>j. results (Suc j)) ?s"
      unfolding add_Suc sh_calls.simps(2) [of "Suc (k + n)"] using call [OF Suc.prems(1)] nxt [OF Suc.prems(1)] by (simp only: option.case)
    then show ?thesis unfolding s'(2) by simp
  qed
  with s'(1) show ?case by blast
qed

lemma sh_calls_idle: "sh_pc s = Sh_idle \<Longrightarrow> sh_calls n results s = []"
  by (cases n) (simp_all add: sh_call_def)

section \<open>init waits\<close>

text \<open>Rounds of the loop \<open>while (syscall(SYS_wait) != -1)\<close> against the kernel's \<open>sys_wait\<close>, as long as the call returns at
  once.\<close>

primrec init_rounds :: "nat \<Rightarrow> registers \<Rightarrow> kernel \<Rightarrow> init_pc \<Rightarrow> (kernel \<times> init_pc) option" where
  "init_rounds 0 snap s pc = Some (s, pc)"
| "init_rounds (Suc n) snap s pc =
     (if init_call pc = Some Call_wait then
        (case sys_wait snap s of
           Some (s, Result r) \<Rightarrow> init_rounds n snap s (init_next pc r)
         | _ \<Rightarrow> None)
      else Some (s, pc))"

lemma init_rounds_fixed:
  assumes "sys_wait snap s = Some (s, Result r)" and "r \<noteq> - 1"
  shows "init_rounds n snap s Wait_children = Some (s, Wait_children)"
  using assms by (induction n) (simp_all add: init_call_def init_next_def)

section \<open>Properties\<close>

text \<open>C33. The shell, whatever its system calls other than \<open>fork\<close> return: the child writes its line eight times and
  a last one, and exits with status 0; the parent writes its line eleven times, says that it does nothing,
  waits, says that it is done, and makes no call after that.\<close>

theorem sh_calls_correct:
  "sh_calls (15 + n) results sh_init =
    (if results 0 = 0
     then Call_fork # replicate 8 (Call_write 1 (literal ''child'' @ [10]) 6) @
            [Call_write 1 (literal ''child exiting'' @ [10]) 14, Call_exit 0]
     else Call_fork # replicate 11 (Call_write 1 (literal ''parent'' @ [10]) 7) @
            [Call_write 1 parent_message 21, Call_wait, Call_write 1 (literal ''done waiting'' @ [10]) 13])"
proof -
  let ?c = "Call_write 1 (literal ''child'' @ [10]) 6" and ?p = "Call_write 1 (literal ''parent'' @ [10]) 7"
  have first: "sh_calls (15 + n) results sh_init = Call_fork # sh_calls (14 + n) (\<lambda>k. results (Suc k)) (sh_next sh_init (results 0))"
    using sh_calls.simps(2) [of "14 + n" results sh_init] by (simp add: sh_call_def sh_init_def)
  have len: "length parent_message = 21" by (simp add: parent_message_def literal_def)
  show ?thesis
  proof (cases "results 0 = 0")
    case True
    then have "sh_pc (sh_next sh_init (results 0)) = Child_write" "sh_i (sh_next sh_init (results 0)) = 7 - int 7"
      by (simp_all add: sh_next_def sh_init_def)
    from sh_rounds [where pc = Child_write and c = ?c and bound = 7 and leave = Child_exiting, OF _ _ this]
    obtain s' where s': "sh_pc s' = Child_exiting"
      "\<And>n results'. sh_calls (Suc 7 + n) results' (sh_next sh_init (results 0)) = replicate (Suc 7) ?c @ sh_calls n (\<lambda>j. results' (Suc 7 + j)) s'"
      by (auto simp: sh_call_def sh_next_def)
    have "14 + n = Suc 7 + (6 + n)" by simp
    then have "sh_calls (14 + n) (\<lambda>k. results (Suc k)) (sh_next sh_init (results 0)) =
        replicate (Suc 7) ?c @ sh_calls (6 + n) (\<lambda>j. results (Suc (Suc 7 + j))) s'" by (simp only: s'(2))
    moreover have "sh_calls (6 + n) rs s' = [Call_write 1 (literal ''child exiting'' @ [10]) 14, Call_exit 0]" for rs
    proof -
      have "6 + n = Suc (Suc (4 + n))" by simp
      then show ?thesis using s'(1) by (simp only: sh_calls.simps) (simp add: sh_call_def sh_next_def sh_calls_idle)
    qed
    ultimately show ?thesis unfolding first using True by simp
  next
    case False
    then have "sh_pc (sh_next sh_init (results 0)) = Parent_write" "sh_i (sh_next sh_init (results 0)) = 10 - int 10"
      by (simp_all add: sh_next_def sh_init_def)
    from sh_rounds [where pc = Parent_write and c = ?p and bound = 10 and leave = Parent_message, OF _ _ this]
    obtain s' where s': "sh_pc s' = Parent_message"
      "\<And>n results'. sh_calls (Suc 10 + n) results' (sh_next sh_init (results 0)) = replicate (Suc 10) ?p @ sh_calls n (\<lambda>j. results' (Suc 10 + j)) s'"
      by (auto simp: sh_call_def sh_next_def)
    have "14 + n = Suc 10 + (3 + n)" by simp
    then have "sh_calls (14 + n) (\<lambda>k. results (Suc k)) (sh_next sh_init (results 0)) =
        replicate (Suc 10) ?p @ sh_calls (3 + n) (\<lambda>j. results (Suc (Suc 10 + j))) s'" by (simp only: s'(2))
    moreover have "sh_calls (3 + n) rs s' = [Call_write 1 parent_message 21, Call_wait, Call_write 1 (literal ''done waiting'' @ [10]) 13]" for rs
    proof -
      have "3 + n = Suc (Suc (Suc n))" by simp
      then show ?thesis using s'(1) by (simp only: sh_calls.simps) (simp add: sh_call_def sh_next_def sh_calls_idle len)
    qed
    ultimately show ?thesis unfolding first using False by simp
  qed
qed

text \<open>C34. Once a child of \<open>init\<close> has terminated, \<open>init\<close> never gets out of its loop: \<open>sys_wait\<close> returns 0 at once and leaves
  the terminated child on its list, so that every number of rounds ends in the same state of the kernel and
  at the same call.\<close>

theorem init_waits_forever:
  assumes "queue Runnable s rs" and "rs \<noteq> []" and "queue Zombie s zs"
    and "children s (ps_id (k_ps s (hd (procs s rs)))) zs \<noteq> []"
  shows "init_rounds n snap s Wait_children = Some (s, Wait_children)"
proof -
  have "sys_wait snap s = Some (s, Result 0)" using sys_wait_result [OF assms(1-3), of snap] assms(4) by (simp add: Let_def)
  then show ?thesis by (rule init_rounds_fixed) simp
qed

text \<open>Three runnable processes and a terminated child of the first.\<close>

definition zombie_kernel :: kernel where
  "zombie_kernel = three_kernel\<lparr>
     k_ps := (k_ps three_kernel)(0xC0040000 := (blank_ps 5)\<lparr>ps_parent_id := 1\<rparr>),
     k_ele := (k_ele three_kernel)(0xC0004000 := \<lparr>le_next = 0, le_ps = 0xC0040000\<rparr>),
     zombie_pss := \<lparr>pss_start = 0xC0004000, pss_end = 0xC0004000\<rparr>\<rparr>"

theorem init_waits_forever_witness: "init_rounds 1000 zero_registers zombie_kernel Wait_children = Some (zombie_kernel, Wait_children)"
proof (rule init_waits_forever)
  let ?rs = "[0xC0001000, 0xC0003000, 0xC0002000] :: u32 list"
  show "queue Runnable zombie_kernel ?rs" "queue Zombie zombie_kernel [0xC0004000]"
    by (simp_all add: queue_def zombie_kernel_def three_kernel_def boot_kernel_def)
  show "children zombie_kernel (ps_id (k_ps zombie_kernel (hd (procs zombie_kernel ?rs)))) [0xC0004000] \<noteq> []"
    by (simp add: procs_def zombie_kernel_def three_kernel_def blank_ps_def process_init_def)
qed simp

end
