(* ===== verification/Spec2Isabelle.thy ===== *)
theory Spec2Isabelle
  imports Kmath Cstring Paging_Unmap Framebuffer Log Keyboard Syscall_Correct Kmain_Correct
    Mkfs_Roundtrip Rdaefs Module Userland
begin

text \<open>
  \<^bold>\<open>aenix\<close>, a small 32-bit x86 kernel (\<open>src/src/kernel\<close>) with two user programs (\<open>src/src/apps\<close>) and the host tools for
  its file system (\<open>src/src/mkfs.c\<close>, \<open>src/src/rdaefs.c\<close>): verification development.

  \<^bold>\<open>The program.\<close> The boot loader hands \<open>kmain\<close> a multiboot structure and one module, an image of the file
  system \<open>aefs\<close>. \<open>kinit\<close> sets up the descriptor tables, the devices, the page tables, the page frame
  allocator, the file systems and the scheduler; \<open>start_init\<close> builds a process from \<open>/bin/init\<close> and gives it
  the processor. From then on the kernel runs in interrupts only: the timer preempts, the keyboard stores
  scan codes, \<open>int 0xAE\<close> makes system calls. Memory is layered: the frame allocator hands out physical
  frames, paging maps them (through one temporary page of the kernel's address space when the table is not
  mapped yet), the heap grows by mapped frames, and processes, vnodes and list elements come from the heap.
  Files are layered too: \<open>vfs\<close> picks a mounted file system and dispatches to \<open>aefs\<close> or \<open>devfs\<close>, and a vnode
  dispatches to \<open>aefs\<close>, the console or the keyboard. The image of the file system is written on the host by
  \<open>mkfs\<close> from a directory; \<open>rdaefs\<close> prints one.

  \<^bold>\<open>How the code is read.\<close> Integers are words of the width the C type has, and wrap. Operations that
  dereference pointers or loop without a bound return an option: \<open>None\<close> is a fault of the processor or a
  loop that does not end, \<open>Some\<close> the state after the call together with the C return value; an error code of
  the code is a value of the result, never \<open>None\<close>. Byte memory (\<open>Cmem\<close>) is a total function on 32-bit
  addresses. Objects the kernel reaches through typed pointers (page tables, heap blocks, processes, frame
  lists, vnodes, devices, mounts) lie in one store per type, indexed by the address the code uses for
  them, 0 being \<open>NULL\<close>; they are allocated with the modelled \<open>kmalloc\<close>, at the address it returns. Function
  tables (\<open>vnodeops\<close>, \<open>vfsops\<close>) are datatypes with one constructor per table of the code. Log messages are
  not part of the shared kernel state; the log functions themselves are modelled down to the bytes sent
  (\<open>Log\<close>). Addresses fixed by the linker or chosen by the boot loader are parameters (\<open>layout\<close> of \<open>Kmain\<close>,
  the kernel directory of \<open>Paging\<close>). Input ports are read from a given sequence of values and output ports
  are a trace of the bytes written, in order.

  \<^bold>\<open>Theories, in the order of the layers.\<close>
  \<^item> \<open>Prelude\<close>, \<open>Linked\<close>, \<open>Ring\<close>: integer types, lemma collections and generic facts; linked lists in a
    store; circular lists ordered by address.
  \<^item> \<open>Frame_Interface\<close>, \<open>Heap_Interface\<close>, \<open>Queue_Interface\<close>: the contracts between components as locales, with
    what their clients may conclude (blocks handed out are disjoint, items leave in the order they came).
    \<open>Page_Frame_Allocator\<close>, \<open>Kmalloc_Contract\<close> and \<open>Keyboard\<close> interpret them on the code's model. Two smaller
    locales share proofs inside a component: \<open>frame_entry\<close> of \<open>Paging\<close> (entries of directories and of tables)
    and \<open>poll\<close> of \<open>Io\<close> (waiting for the serial port to send and to receive).
  \<^item> \<open>Kmath\<close> (\<open>math.c\<close>, \<open>mem.c\<close>, \<open>common.h\<close>), \<open>Cmem\<close>, \<open>Cstring\<close> (\<open>string.c\<close>): arithmetic with its
    wrap-around, little-endian memory, the string functions with their loops.
  \<^item> \<open>Page_Frame_Allocator\<close>, \<open>Pfa_Init\<close> (\<open>page_frame_allocator.c\<close>, \<open>multiboot.h\<close>): the bitmap, the search for
    runs of free frames, release; the memory map from the multiboot structure and the placing of the bitmap.
    Shown: allocation returns frames that were all free and marks exactly these, any sequence of calls hands
    out disjoint blocks, the scan by words equals one by bits, \<open>pfa_init\<close> establishes the invariant, and where
    the map leaves the usable memory.
  \<^item> \<open>Paging\<close>, \<open>Paging_Map\<close>, \<open>Paging_Kernel\<close>, \<open>Paging_Unmap\<close> (\<open>paging.c\<close>, \<open>paging_asm.s\<close>): directories and
    tables. Read as one function from virtual pages to entries, mapping enters exactly the pages of the
    request that frames were found for and always returns; it changes no other directory; unmapping is exact
    inside one page table, and wrong or endless across tables in the cases stated.
  \<^item> \<open>Kmalloc\<close>, \<open>Kmalloc_Correct\<close>, \<open>Kmalloc_Contract\<close> (\<open>kmalloc.c\<close>): the circular free list over mapped pages;
    the invariant is kept by taking, joining and growing, the search loop ends, blocks in use never overlap.
  \<^item> \<open>Io\<close>, \<open>Format\<close>, \<open>Log\<close>, \<open>Framebuffer\<close>, \<open>Keyboard\<close>, \<open>Descriptors\<close> (\<open>io.s\<close>, \<open>pic.c\<close>, \<open>pit.c\<close>, \<open>serial.c\<close>,
    \<open>stdio.c\<close>, \<open>log.c\<close>, \<open>fb.c\<close>, \<open>keyboard.c\<close>, \<open>gdt.c\<close>, \<open>idt.c\<close>): the devices. The console refines a terminal of
    80 by 25 characters; \<open>kbd_read\<close> is a step relation interleaved with keyboard interrupts; the tables
    decode to the segments and gates meant.
  \<^item> \<open>Vnode\<close>, \<open>Aefs\<close>, \<open>Devfs\<close>, \<open>Vfs\<close> (\<open>vnode.c\<close>, \<open>vattr.h\<close>, \<open>aefs.c\<close>, \<open>devfs.c\<close>, \<open>vfs.c\<close>): files. Reading copies the
    bytes the inodes list, over block and inode boundaries; a path is resolved component by component
    in the file system with the longest common prefix.
  \<^item> \<open>Kernel_State\<close>, \<open>Process\<close>, \<open>Process_Correct\<close>, \<open>Process_Create\<close> (\<open>process.c\<close>): the shared state; loading,
    creating, cloning, replacing and deleting processes with every error path.
  \<^item> \<open>Scheduler\<close>, \<open>Scheduler_Correct\<close> (\<open>scheduler.c\<close>, \<open>scheduler_asm.s\<close>, \<open>tss.c\<close>): the linked lists refine two
    sequences; every runnable process gets its turn; a preempted process goes on where it was.
  \<^item> \<open>Syscall\<close>, \<open>Syscall_Correct\<close> (\<open>syscall.c\<close>, \<open>interrupt.c\<close>, \<open>interrupt_asm.s\<close>): the eight calls from trap to
    return, including the registers.
  \<^item> \<open>Kmain\<close>, \<open>Kmain_Correct\<close> (\<open>kmain.c\<close>): the boot sequence; the devices are found under \<open>/dev/\<close>, interrupts are
    on exactly after a successful \<open>kinit\<close>, the first process starts with its start registers.
  \<^item> \<open>Mkfs\<close>, \<open>Mkfs_Correct\<close>, \<open>Mkfs_Roundtrip\<close> (\<open>mkfs.c\<close>): the builder on a directory of the host (\<open>host\<close>, a tree), the
    16-bit counters and every error exit. \<open>stored\<close> says which bytes of the image hold which file; visiting
    establishes it and touches nothing else. With \<open>Vfs\<close> and \<open>Aefs\<close>: the kernel finds and reads what went in.
  \<^item> \<open>Rdaefs\<close> (\<open>rdaefs.c\<close>): the printer, with its stack depth; it returns on every image \<open>mkfs\<close> writes and lists the
    directory of the host.
  \<^item> \<open>Module\<close> (\<open>module.c\<close>): copying the boot modules, at once or through a temporary area.
  \<^item> \<open>Userland\<close> (\<open>init.c\<close>, \<open>sh.c\<close>, \<open>start.s\<close>): the programs as sequences of system calls; \<open>init\<close> against \<open>sys_wait\<close>.

  \<^bold>\<open>Loops.\<close> Loops over an index are recursive functions with a termination proof or structural recursion on
  the number of steps left, which the code's own bound fixes. Loops that may run forever (the search of
  \<open>kmalloc\<close>, walks over linked lists, \<open>pdt_unmap_memory\<close>, \<open>strlen\<close>) are partial functions into options, and
  termination is part of what is proved of them: the theorems state \<open>Some\<close>, and \<open>pdt_unmap_diverges\<close> states
  where it is \<open>None\<close>. The recursive functions of \<open>rdaefs\<close> have the number of calls the stack has room for as
  an argument; the number of inodes of the image is enough for it.

  \<^bold>\<open>What the model shows of the code.\<close> Several theorems state behaviour that is not what the code means: the
  names compared by \<open>aefs_lookup\<close> differ in no more than their first character, a third device hides the
  second, the keyboard is dead after 512 events, an exit passes over the process whose turn it is, a
  terminated child is reported again and again so that \<open>init\<close> never stops waiting, registers come back from
  a system call permuted, and the memory map can reach past the memory. They are stated as they are.

  \<^bold>\<open>Not modelled.\<close> The assembly that loads hardware registers (\<open>gdt_asm.s\<close>, \<open>idt_asm.s\<close>, \<open>tss_asm.s\<close>) and the first
  page tables (\<open>loader.s\<close>), linker scripts and build files. \<open>libc/string.c\<close> is the text of \<open>kernel/string.c\<close> and
  has no second model. What an instruction of a user program does between two system calls is not
  modelled, only its registers at the trap are. Caches other than the invalidated pages, and timing, have no
  counterpart in the model.
\<close>

end
